(* ===== verification/Coact_Prelude.thy ===== *)
theory Coact_Prelude
  imports Main "HOL-Library.Word" "HOL-Library.Monad_Syntax" "HOL-Library.Multiset"
begin

unbundle bit_operations_syntax

text \<open>
  What every theory of the library shares: the names of the machine integer
  types, the error monad of \<^verbatim>\<open>COACT_ASSERT\<close> and the generic facts on
  words, lists and options that carry the component proofs.

  \<^item> Machine integers are words at their C++ width, so that every sum wraps the
    way the code does.
  \<^item> \<^verbatim>\<open>fatal_assert\<close> (assert.hpp) never returns: an installed handler that comes
    back is followed by \<^verbatim>\<open>std::abort\<close>. An operation that contains an assertion
    therefore has an option result in which None is the abort, and assertions are
    sequenced by the bind of the option monad.
\<close>

section \<open>Machine integers\<close>

type_synonym u8 = "8 word"
type_synonym u16 = "16 word"
type_synonym u32 = "32 word"
type_synonym u64 = "64 word"

named_theorems word_facts \<open>values of word operations as natural numbers\<close>
named_theorems coact_assert_simps \<open>unfolding of the assertion monad\<close>

lemma unat_less_16 [simp]: "unat (x :: u16) < 65536"
  using unsigned_less [of x] by simp

lemma unat_less_32 [simp]: "unat (x :: u32) < 4294967296"
  using unsigned_less [of x] by simp

lemma unat_less_8 [simp]: "unat (x :: u8) < 256"
  using unsigned_less [of x] by simp

lemma unat_less_64 [simp]: "unat (x :: u64) < 18446744073709551616"
  using unsigned_less [of x] by simp

lemma unat_of_nat_small [word_facts]:
  "n < 2 ^ LENGTH('a) \<Longrightarrow> unat (of_nat n :: 'a::len word) = n"
  by (simp add: unsigned_of_nat take_bit_nat_eq_self)

lemma unat_inc [word_facts]:
  "unat x + 1 < 2 ^ LENGTH('a) \<Longrightarrow> unat (x + 1 :: 'a::len word) = unat x + 1"
  by (simp add: unat_word_ariths)

lemma unat_add_small [word_facts]:
  "unat x + unat y < 2 ^ LENGTH('a) \<Longrightarrow> unat (x + y :: 'a::len word) = unat x + unat y"
  by (simp add: unat_word_ariths)

lemma unat_sub_le [word_facts]:
  "y \<le> x \<Longrightarrow> unat (x - y :: 'a::len word) = unat x - unat y"
  by (rule unat_sub)

lemma unat_dec [word_facts]:
  "0 < unat (x :: 'a::len word) \<Longrightarrow> unat (x - 1) = unat x - 1"
  by (metis One_nat_def Suc_leI unat_1 unat_sub word_le_nat_alt)

lemma unat_ucast_up [word_facts]:
  assumes "LENGTH('a) \<le> LENGTH('b)"
  shows "unat (ucast (x :: 'a::len word) :: 'b::len word) = unat x"
proof -
  have "(2 :: nat) ^ LENGTH('a) \<le> 2 ^ LENGTH('b)" using assms by (rule power_increasing) simp
  moreover have "unat x < 2 ^ LENGTH('a)" by (rule unsigned_less)
  ultimately have "unat x < 2 ^ LENGTH('b)" by (rule order_less_le_trans [rotated])
  then show ?thesis by (simp add: unsigned_ucast_eq take_bit_nat_eq_self)
qed

section \<open>Assertions\<close>

definition coact_assert :: "bool \<Rightarrow> unit option" where
  "coact_assert c = (if c then Some () else None)"

lemma coact_assert_True [simp, coact_assert_simps]: "coact_assert True = Some ()"
  by (simp add: coact_assert_def)

lemma coact_assert_False [simp, coact_assert_simps]: "coact_assert False = None"
  by (simp add: coact_assert_def)

lemma coact_assert_Some [simp, coact_assert_simps]: "coact_assert c = Some u \<longleftrightarrow> c"
  by (simp add: coact_assert_def)

lemma coact_assert_None [simp, coact_assert_simps]: "coact_assert c = None \<longleftrightarrow> \<not> c"
  by (simp add: coact_assert_def)

lemma bind_assert_Some [coact_assert_simps]:
  "Option.bind (coact_assert c) f = Some y \<longleftrightarrow> c \<and> f () = Some y"
  by (cases c) simp_all

section \<open>Lists\<close>

lemma nth_list_update_if:
  "i < length xs \<Longrightarrow> xs[i := v] ! j = (if i = j then v else xs ! j)"
  by simp

lemma length_filter_all: "length (filter P xs) = length xs \<longleftrightarrow> (\<forall>x \<in> set xs. P x)"
  by (metis filter_True length_filter_less less_irrefl)

lemma mod_add_cancel_le:
  assumes "(a + i) mod n = (a + j) mod n" and "i \<le> j" and "j < n"
  shows "i = (j::nat)"
proof -
  have "n dvd (a + j) - (a + i)"
    using assms(1,2) mod_eq_dvd_iff_nat [of "a + i" "a + j" n] by simp
  then have "n dvd j - i" by simp
  then show ?thesis using assms(2,3) by (cases "j - i = 0") (auto dest: dvd_imp_le)
qed

lemma mod_add_cancel_eq:
  assumes "(a + i) mod n = (a + j) mod n" and "i < n" and "j < n"
  shows "i = (j::nat)"
  using mod_add_cancel_le [of a i n j] mod_add_cancel_le [of a j n i] assms
  by (cases "i \<le> j") auto

end
