(* ===== verification/Coact_Config.thy ===== *)
theory Coact_Config
  imports Coact_Prelude
begin

text \<open>
  The vocabulary types of config.hpp: priorities, execution contexts, event
  quality of service, target identities, submit dispositions and reasons, and the
  compile-time configuration. A configuration struct is a template argument of the
  C++ classes; here it is a record passed to the operations that read it.
\<close>

type_synonym LogicalPrio = u8

definition kInvalidPrio :: LogicalPrio where "kInvalidPrio = 0"
definition kMinPrio :: LogicalPrio where "kMinPrio = 1"
definition kMaxPrio :: LogicalPrio where "kMaxPrio = 63"

datatype PriorityClass = High | Normal | Low

datatype ContextKind = CtxTask | CtxDispatcher | CtxIsr

record ExecutionContext =
  ctx_kind :: ContextKind
  ctx_logical_prio :: u8
  ctx_direct_depth :: u8
  ctx_prio_valid :: bool

datatype StagingAdmission = Ordinary | ReservedNormal

record EventQos =
  critical :: bool
  mergeable :: bool

text \<open>TargetId is a strong type over a byte; its raw value is modelled directly.\<close>
type_synonym TargetId = u8

definition kInvalidTarget :: TargetId where "kInvalidTarget = 0"

type_synonym Signal = u16

datatype SubmitDisposition =
    Direct
  | Queued
  | Merged
  | DroppedPolicy
  | DroppedRateLimit
  | DroppedOverload
  | RejectedFull
  | RejectedState

record SubmitResult =
  disposition :: SubmitDisposition
  reason :: u16

definition kArrivalTooSoon :: u16 where "kArrivalTooSoon = 4"
definition kBacklogFull :: u16 where "kBacklogFull = 5"
definition kStagingFull :: u16 where "kStagingFull = 6"

record QueueResult =
  success :: bool
  size_after :: u16

datatype PoolError = kPoolExhausted | kInvalidPointer

datatype InitError =
  kPalFailed | kConfigMismatch | kDuplicatePrio | kCapacityOverflow | kAlreadyBound | kNoAo

record Config =
  kMaxAo :: u8
  kMaxStateDepth :: u8
  kMaxDirectDepth :: u8
  kBatchSizeMax :: u8
  kHighCapacity :: u16
  kNormalCapacity :: u16
  kLowCapacity :: u16
  kCooldownCycles :: u16
  kHighCriticalReserve :: u16
  kNormalReservedCapacity :: u16
  kBatchTimeoutMs :: u32
  kLowMaxWaitMs :: u32
  kDispatcherStackBytes :: u32
  kDirectBudgetNs :: u64
  kRtcBudgetNs :: u64

definition DefaultConfig :: Config where
  "DefaultConfig = \<lparr>
     kMaxAo = 16, kMaxStateDepth = 6, kMaxDirectDepth = 4, kBatchSizeMax = 8,
     kHighCapacity = 32, kNormalCapacity = 64, kLowCapacity = 128, kCooldownCycles = 100,
     kHighCriticalReserve = 0, kNormalReservedCapacity = 0,
     kBatchTimeoutMs = 5, kLowMaxWaitMs = 100, kDispatcherStackBytes = 4096,
     kDirectBudgetNs = 50000, kRtcBudgetNs = 1000000\<rparr>"

end
