(* ===== verification/Queues.thy ===== *)
theory Queues
  imports Coact_Config
begin

text \<open>
  The two queue backends of queue.hpp, the injected-critical-section ring
  \<^verbatim>\<open>SingleCoreCriticalRing\<close> and the cell-scanning \<^verbatim>\<open>BoundedMpscQueue\<close>, and the
  interface \<^verbatim>\<open>bounded_queue\<close> that the staging area relies on.

  \<^item> A storage cell holds \<^verbatim>\<open>None\<close> while it is raw memory and \<^verbatim>\<open>Some v\<close> between the
    placement new and the destructor call, so that reading or destroying raw
    storage is visible in the model.
  \<^item> The capacity of a queue is the length of its cell list, a template argument of
    type \<^verbatim>\<open>uint16_t\<close> that the code asserts to be positive.
  \<^item> A critical section is a pair of save and restore callbacks around a whole
    operation; each ring operation is therefore one step of the model.
  \<^item> The operations of \<^verbatim>\<open>BoundedMpscQueue\<close> are composed from its atomic steps
    (claim, construct, stamp, publish), which the concurrent model reuses.
\<close>

section \<open>The interface\<close>

text \<open>Sequences of queue operations, and what they return on a queue and on a bounded list.\<close>

datatype 'a queue_op = QPush 'a | QPop

datatype 'a queue_res = PushRes bool | PopRes "'a option"

fun run_queue :: "('q \<Rightarrow> 'a \<Rightarrow> bool \<times> 'q) \<Rightarrow> ('q \<Rightarrow> 'a option \<times> 'q) \<Rightarrow> 'a queue_op list \<Rightarrow> 'q
    \<Rightarrow> 'a queue_res list" where
  "run_queue push pop [] q = []"
| "run_queue push pop (QPush x # ops) q =
     (case push q x of (b, q') \<Rightarrow> PushRes b # run_queue push pop ops q')"
| "run_queue push pop (QPop # ops) q =
     (case pop q of (r, q') \<Rightarrow> PopRes r # run_queue push pop ops q')"

fun run_fifo :: "nat \<Rightarrow> 'a queue_op list \<Rightarrow> 'a list \<Rightarrow> 'a queue_res list" where
  "run_fifo cap [] xs = []"
| "run_fifo cap (QPush x # ops) xs =
     (if length xs < cap then PushRes True # run_fifo cap ops (xs @ [x])
      else PushRes False # run_fifo cap ops xs)"
| "run_fifo cap (QPop # ops) [] = PopRes None # run_fifo cap ops []"
| "run_fifo cap (QPop # ops) (x # xs) = PopRes (Some x) # run_fifo cap ops xs"

text \<open>
  A bounded first-in first-out queue: \<^verbatim>\<open>contents\<close> abstracts a queue state to the list of
  its elements, oldest first. A backend that stamps publications with a counter
  accepts n more pushes in this sense only while the counter has n values left, which
  is what \<^verbatim>\<open>fresh n\<close> says.
\<close>

locale bounded_queue =
  fixes push :: "'q \<Rightarrow> 'a \<Rightarrow> bool \<times> 'q"
    and pop :: "'q \<Rightarrow> 'a option \<times> 'q"
    and front :: "'q \<Rightarrow> 'a option"
    and qsize :: "'q \<Rightarrow> u16"
    and ready :: "'q \<Rightarrow> bool"
    and cap :: "'q \<Rightarrow> nat"
    and contents :: "'q \<Rightarrow> 'a list"
    and inv :: "'q \<Rightarrow> bool"
    and fresh :: "nat \<Rightarrow> 'q \<Rightarrow> bool"
  assumes push_ok: "\<lbrakk>inv q; fresh (Suc n) q; length (contents q) < cap q\<rbrakk>
      \<Longrightarrow> \<exists>q'. push q x = (True, q') \<and> inv q' \<and> contents q' = contents q @ [x] \<and> cap q' = cap q
            \<and> fresh n q'"
    and push_full: "\<lbrakk>inv q; length (contents q) = cap q\<rbrakk>
      \<Longrightarrow> \<exists>q'. push q x = (False, q') \<and> inv q' \<and> contents q' = contents q \<and> cap q' = cap q
            \<and> (\<forall>n. fresh n q \<longrightarrow> fresh n q')"
    and pop_nil: "\<lbrakk>inv q; contents q = []\<rbrakk> \<Longrightarrow> pop q = (None, q)"
    and pop_cons: "\<lbrakk>inv q; contents q = x # xs\<rbrakk>
      \<Longrightarrow> \<exists>q'. pop q = (Some x, q') \<and> inv q' \<and> contents q' = xs \<and> cap q' = cap q
            \<and> (\<forall>n. fresh n q \<longrightarrow> fresh n q')"
    and front_hd: "inv q \<Longrightarrow> front q = (if contents q = [] then None else Some (hd (contents q)))"
    and size_length: "inv q \<Longrightarrow> unat (qsize q) = length (contents q)"
    and ready_iff: "inv q \<Longrightarrow> ready q = (contents q \<noteq> [])"
    and contents_bound: "inv q \<Longrightarrow> length (contents q) \<le> cap q"
    and fresh_less: "fresh (Suc n) q \<Longrightarrow> fresh n q"
begin

lemma push_cases:
  assumes "inv q" and "fresh (Suc n) q"
  obtains (ok) q' where "length (contents q) < cap q" "push q x = (True, q')" "inv q'"
      "contents q' = contents q @ [x]" "cap q' = cap q" "fresh n q'"
  | (full) q' where "length (contents q) = cap q" "push q x = (False, q')" "inv q'"
      "contents q' = contents q" "cap q' = cap q" "fresh n q'"
proof (cases "length (contents q) < cap q")
  case True
  then show thesis using push_ok [OF assms True, of x] ok by blast
next
  case False
  then have "length (contents q) = cap q" using contents_bound [OF assms(1)] by simp
  then show thesis using push_full [OF assms(1), of x] full fresh_less [OF assms(2)] by blast
qed

lemma run_refines:
  assumes "inv q" and "fresh (length ops) q"
  shows "run_queue push pop ops q = run_fifo (cap q) ops (contents q)"
  using assms
proof (induction ops arbitrary: q)
  case Nil
  then show ?case by simp
next
  case (Cons op ops)
  show ?case
  proof (cases op)
    case (QPush x)
    have "fresh (Suc (length ops)) q" using Cons.prems(2) by simp
    then show ?thesis
      by (cases rule: push_cases [OF Cons.prems(1), of "length ops" x])
         (simp_all add: QPush Cons.IH)
  next
    case QPop
    have f: "fresh (length ops) q" using Cons.prems(2) fresh_less by simp
    show ?thesis
    proof (cases "contents q")
      case Nil
      then show ?thesis using pop_nil [OF Cons.prems(1) Nil] Cons.IH [OF Cons.prems(1) f] QPop by simp
    next
      case (Cons x xs)
      then show ?thesis using pop_cons [OF \<open>inv q\<close> Cons] Cons.IH f QPop by fastforce
    qed
  qed
qed

end

section \<open>SingleCoreCriticalRing\<close>

record 'a SingleCoreCriticalRing =
  ring_cells :: "'a option list"
  write_index :: u16
  ring_count :: u16

definition ring_capacity :: "'a SingleCoreCriticalRing \<Rightarrow> nat" where
  "ring_capacity r = length (ring_cells r)"

definition ring_init :: "u16 \<Rightarrow> 'a SingleCoreCriticalRing" where
  "ring_init capacity =
     \<lparr>ring_cells = replicate (unat capacity) None, write_index = 0, ring_count = 0\<rparr>"

text \<open>The 32-bit sum of two 16-bit values does not wrap; it is computed on naturals.\<close>
definition push_observed_impl ::
    "'a SingleCoreCriticalRing \<Rightarrow> 'a \<Rightarrow> QueueResult \<times> 'a SingleCoreCriticalRing" where
  "push_observed_impl r v =
     (if unat (ring_count r) < ring_capacity r then
        let index = unat (write_index r) + unat (ring_count r);
            r' = r\<lparr>ring_cells := (ring_cells r)[index mod ring_capacity r := Some v],
                   ring_count := ring_count r + 1\<rparr>
        in (\<lparr>success = True, size_after = ring_count r'\<rparr>, r')
      else (\<lparr>success = False, size_after = ring_count r\<rparr>, r))"

definition ring_try_push :: "'a SingleCoreCriticalRing \<Rightarrow> 'a \<Rightarrow> bool \<times> 'a SingleCoreCriticalRing" where
  "ring_try_push r v = (case push_observed_impl r v of (res, r') \<Rightarrow> (success res, r'))"

definition ring_try_pop :: "'a SingleCoreCriticalRing \<Rightarrow> 'a option \<times> 'a SingleCoreCriticalRing" where
  "ring_try_pop r =
     (if 0 < ring_count r then
        let w = unat (write_index r)
        in (ring_cells r ! w,
            r\<lparr>ring_cells := (ring_cells r)[w := None],
              write_index := of_nat ((w + 1) mod ring_capacity r),
              ring_count := ring_count r - 1\<rparr>)
      else (None, r))"

definition ring_size :: "'a SingleCoreCriticalRing \<Rightarrow> u16" where
  "ring_size r = ring_count r"

definition ring_has_ready :: "'a SingleCoreCriticalRing \<Rightarrow> bool" where
  "ring_has_ready r = (ring_size r \<noteq> 0)"

definition ring_front :: "'a SingleCoreCriticalRing \<Rightarrow> 'a option" where
  "ring_front r = (if 0 < ring_count r then ring_cells r ! unat (write_index r) else None)"

text \<open>The destructor ends the lifetime of the live cells, oldest first.\<close>
fun ring_destroy_loop :: "nat \<Rightarrow> nat \<Rightarrow> nat \<Rightarrow> 'a option list \<Rightarrow> 'a option list" where
  "ring_destroy_loop w offset 0 cells = cells"
| "ring_destroy_loop w offset (Suc n) cells =
     ring_destroy_loop w (Suc offset) n (cells[(w + offset) mod length cells := None])"

definition ring_destroy :: "'a SingleCoreCriticalRing \<Rightarrow> 'a SingleCoreCriticalRing" where
  "ring_destroy r =
     \<lparr>ring_cells = ring_destroy_loop (unat (write_index r)) 0 (unat (ring_count r)) (ring_cells r),
      write_index = 0, ring_count = 0\<rparr>"

subsection \<open>Abstraction and invariant\<close>

definition ring_slot :: "'a SingleCoreCriticalRing \<Rightarrow> nat \<Rightarrow> nat" where
  "ring_slot r i = (unat (write_index r) + i) mod ring_capacity r"

definition ring_contents :: "'a SingleCoreCriticalRing \<Rightarrow> 'a list" where
  "ring_contents r = map (\<lambda>i. the (ring_cells r ! ring_slot r i)) [0..<unat (ring_count r)]"

definition ring_inv :: "'a SingleCoreCriticalRing \<Rightarrow> bool" where
  "ring_inv r \<longleftrightarrow> 0 < ring_capacity r \<and> ring_capacity r < 65536
     \<and> unat (write_index r) < ring_capacity r \<and> unat (ring_count r) \<le> ring_capacity r
     \<and> (\<forall>i < ring_capacity r. (ring_cells r ! ring_slot r i \<noteq> None) = (i < unat (ring_count r)))"

lemmas ring_defs = ring_capacity_def ring_slot_def ring_contents_def Let_def

lemma ring_inv_init: "0 < c \<Longrightarrow> ring_inv (ring_init c) \<and> ring_contents (ring_init c) = []"
  by (auto simp: ring_inv_def ring_init_def ring_defs word_less_nat_alt)

lemma ring_slot_inj:
  "\<lbrakk>ring_slot r i = ring_slot r j; i < ring_capacity r; j < ring_capacity r\<rbrakk> \<Longrightarrow> i = j"
  unfolding ring_slot_def by (rule mod_add_cancel_eq)

lemma ring_slot_less: "0 < ring_capacity r \<Longrightarrow> ring_slot r i < length (ring_cells r)"
  by (simp add: ring_slot_def ring_capacity_def)

lemma push_observed_room:
  assumes inv: "ring_inv r" and room: "unat (ring_count r) < ring_capacity r"
  shows "\<exists>r'. push_observed_impl r v = (\<lparr>success = True, size_after = ring_count r + 1\<rparr>, r')
      \<and> ring_inv r' \<and> ring_contents r' = ring_contents r @ [v] \<and> ring_capacity r' = ring_capacity r
      \<and> unat (ring_count r') = unat (ring_count r) + 1"
proof -
  let ?n = "unat (ring_count r)" and ?k = "ring_slot r (unat (ring_count r))"
  define r' where "r' = r\<lparr>ring_cells := (ring_cells r)[?k := Some v], ring_count := ring_count r + 1\<rparr>"
  have cap: "ring_capacity r' = ring_capacity r" and slot: "ring_slot r' i = ring_slot r i"
    and w: "write_index r' = write_index r" for i
    by (simp_all add: r'_def ring_defs)
  have n': "unat (ring_count r') = ?n + 1"
    using inv room by (simp add: r'_def ring_inv_def unat_inc)
  have cell: "ring_cells r' ! ring_slot r i = (if i = ?n then Some v else ring_cells r ! ring_slot r i)"
    if "i < ring_capacity r" for i
    using that room inv ring_slot_inj [of r ?n i] ring_slot_less [of r i]
    by (cases "ring_slot r ?n = ring_slot r i") (auto simp: r'_def ring_inv_def)
  have "ring_inv r'"
    using inv room n' cell by (auto simp: ring_inv_def cap slot w less_Suc_eq)
  moreover have "ring_contents r' = ring_contents r @ [v]"
    using room n' cell by (simp add: ring_contents_def slot)
  moreover have "push_observed_impl r v = (\<lparr>success = True, size_after = ring_count r + 1\<rparr>, r')"
    using room by (simp add: push_observed_impl_def r'_def ring_slot_def Let_def)
  ultimately show ?thesis using cap n' by blast
qed

lemma push_observed_full:
  assumes "\<not> unat (ring_count r) < ring_capacity r"
  shows "push_observed_impl r v = (\<lparr>success = False, size_after = ring_count r\<rparr>, r)"
  using assms by (simp add: push_observed_impl_def)

lemma ring_length_contents [simp]: "length (ring_contents r) = unat (ring_count r)"
  by (simp add: ring_contents_def)

lemma ring_contents_Nil: "ring_contents r = [] \<longleftrightarrow> unat (ring_count r) = 0"
  by (simp add: ring_contents_def)

lemma ring_next_index:
  assumes "ring_inv r"
  shows "unat (of_nat ((unat (write_index r) + 1) mod ring_capacity r) :: u16)
      = (unat (write_index r) + 1) mod ring_capacity r"
proof -
  have "(unat (write_index r) + 1) mod ring_capacity r < 65536"
    using assms by (meson mod_less_divisor order_less_trans ring_inv_def)
  then show ?thesis by (intro unat_of_nat_small) simp
qed

lemma ring_slot_pop:
  assumes "ring_inv r" and "r' = r\<lparr>ring_cells := cs, write_index :=
      of_nat ((unat (write_index r) + 1) mod ring_capacity r), ring_count := n\<rparr>"
    and "length cs = ring_capacity r"
  shows "ring_slot r' i = ring_slot r (Suc i)"
proof -
  have "unat (write_index r') = (unat (write_index r) + 1) mod ring_capacity r"
    using assms(2) ring_next_index [OF assms(1)] by simp
  then show ?thesis using assms(2,3) by (simp add: ring_slot_def ring_capacity_def mod_add_left_eq)
qed

lemma ring_try_pop_some:
  assumes inv: "ring_inv r" and pos: "0 < unat (ring_count r)"
  shows "\<exists>r'. ring_try_pop r = (Some (hd (ring_contents r)), r') \<and> ring_inv r'
      \<and> ring_contents r' = tl (ring_contents r) \<and> ring_capacity r' = ring_capacity r"
proof -
  let ?n = "unat (ring_count r)" and ?w = "unat (write_index r)"
  define r' where "r' = r\<lparr>ring_cells := (ring_cells r)[?w := None],
      write_index := of_nat ((?w + 1) mod ring_capacity r), ring_count := ring_count r - 1\<rparr>"
  have w: "ring_slot r 0 = ?w" using inv by (simp add: ring_slot_def ring_inv_def)
  have cap: "ring_capacity r' = ring_capacity r" by (simp add: r'_def ring_defs)
  have slot: "ring_slot r' i = ring_slot r (Suc i)" for i
    using ring_slot_pop [OF inv r'_def] by (simp add: ring_defs)
  have n': "unat (ring_count r') = ?n - 1" using pos by (simp add: r'_def unat_dec)
  have cell: "ring_cells r' ! ring_slot r i = (if i = 0 then None else ring_cells r ! ring_slot r i)"
    if "i < ring_capacity r" for i
  proof (cases "i = 0")
    case True
    then show ?thesis using w inv by (simp add: r'_def ring_inv_def ring_capacity_def)
  next
    case False
    then have "?w \<noteq> ring_slot r i" using that ring_slot_inj [of r 0 i] w by fastforce
    then show ?thesis using False by (simp add: r'_def)
  qed
  have last: "ring_slot r (ring_capacity r) = ring_slot r 0" by (simp add: ring_slot_def)
  have live: "ring_cells r' ! ring_slot r' i \<noteq> None \<longleftrightarrow> i < ?n - 1" if "i < ring_capacity r" for i
  proof (cases "Suc i = ring_capacity r")
    case True
    then show ?thesis using cell [of 0] inv slot [of i] last by (auto simp: ring_inv_def)
  next
    case False
    then show ?thesis using that cell [of "Suc i"] inv slot [of i] by (auto simp: ring_inv_def)
  qed
  have w': "unat (write_index r') < ring_capacity r"
    using ring_next_index [OF inv] inv by (simp add: r'_def ring_inv_def)
  have "ring_inv r'" using inv live w' n' cap by (auto simp: ring_inv_def)
  moreover have "ring_contents r' = tl (ring_contents r)"
  proof (rule nth_equalityI)
    show "length (ring_contents r') = length (tl (ring_contents r))" by (simp add: n')
  next
    fix i assume "i < length (ring_contents r')"
    then have i: "i < ?n - 1" using n' by simp
    moreover have "?n \<le> ring_capacity r" using inv by (simp add: ring_inv_def)
    ultimately have "Suc i < ?n" "Suc i < ring_capacity r" by simp_all
    with i show "ring_contents r' ! i = tl (ring_contents r) ! i"
      using cell [of "Suc i"] by (simp add: ring_contents_def nth_tl n' slot)
  qed
  moreover have "hd (ring_contents r) = the (ring_cells r ! ?w)"
    using pos w by (simp add: ring_contents_def hd_map)
  moreover have "ring_cells r ! ?w \<noteq> None" using inv pos w by (metis ring_inv_def)
  moreover have "ring_try_pop r = (ring_cells r ! ?w, r')"
    using pos by (simp add: ring_try_pop_def r'_def Let_def word_less_nat_alt)
  ultimately show ?thesis using cap by simp
qed

lemma ring_destroy_loop_clears:
  "length (ring_destroy_loop w off n cells) = length cells
   \<and> (k < length cells \<longrightarrow> ring_destroy_loop w off n cells ! k =
        (if \<exists>i. off \<le> i \<and> i < off + n \<and> k = (w + i) mod length cells then None else cells ! k))"
proof (induction w off n cells rule: ring_destroy_loop.induct)
  case (1 w off cells)
  then show ?case by auto
next
  case (2 w off n cells)
  have "(\<exists>i. off \<le> i \<and> i < off + Suc n \<and> k = (w + i) mod length cells) \<longleftrightarrow>
      k = (w + off) mod length cells \<or>
      (\<exists>i. Suc off \<le> i \<and> i < Suc off + n \<and> k = (w + i) mod length cells)"
    by (metis add_Suc_right add_Suc Suc_le_eq less_add_Suc1 le_neq_implies_less le_refl less_imp_le)
  then show ?case using 2 by (auto simp: nth_list_update)
qed

lemma ring_slot_surj:
  assumes "k < ring_capacity r" and "unat (write_index r) < ring_capacity r"
  shows "\<exists>i < ring_capacity r. ring_slot r i = k"
proof (cases "unat (write_index r) \<le> k")
  case True
  then show ?thesis using assms
    by (intro exI [of _ "k - unat (write_index r)"]) (simp add: ring_slot_def)
next
  case False
  then have "(unat (write_index r) + (ring_capacity r - unat (write_index r) + k)) mod ring_capacity r = k"
    using assms by simp
  then show ?thesis using assms False
    by (intro exI [of _ "ring_capacity r - unat (write_index r) + k"]) (simp add: ring_slot_def)
qed

interpretation ring_queue: bounded_queue ring_try_push ring_try_pop ring_front ring_size
  ring_has_ready ring_capacity ring_contents ring_inv "\<lambda>_ _. True"
proof unfold_locales
  fix q :: "'a SingleCoreCriticalRing" and x n
  assume "ring_inv q" "length (ring_contents q) < ring_capacity q"
  then show "\<exists>q'. ring_try_push q x = (True, q') \<and> ring_inv q' \<and>
      ring_contents q' = ring_contents q @ [x] \<and> ring_capacity q' = ring_capacity q \<and> True"
    using push_observed_room [of q x] by (auto simp: ring_try_push_def)
next
  fix q :: "'a SingleCoreCriticalRing" and x
  assume "ring_inv q" "length (ring_contents q) = ring_capacity q"
  then show "\<exists>q'. ring_try_push q x = (False, q') \<and> ring_inv q' \<and>
      ring_contents q' = ring_contents q \<and> ring_capacity q' = ring_capacity q \<and> (\<forall>n. True \<longrightarrow> True)"
    using push_observed_full [of q x] by (simp add: ring_try_push_def)
next
  fix q :: "'a SingleCoreCriticalRing"
  assume "ring_contents q = []"
  then have "unat (ring_count q) = 0" using ring_length_contents [of q] by simp
  then show "ring_try_pop q = (None, q)" by (simp add: ring_try_pop_def word_less_nat_alt)
next
  fix q :: "'a SingleCoreCriticalRing" and x xs
  assume "ring_inv q" and c: "ring_contents q = x # xs"
  moreover from c have "0 < unat (ring_count q)" using ring_length_contents [of q] by simp
  ultimately show "\<exists>q'. ring_try_pop q = (Some x, q') \<and> ring_inv q' \<and> ring_contents q' = xs \<and>
      ring_capacity q' = ring_capacity q \<and> (\<forall>n. True \<longrightarrow> True)"
    using ring_try_pop_some [of q] by simp
next
  fix q :: "'a SingleCoreCriticalRing"
  assume inv: "ring_inv q"
  have "hd (ring_contents q) = the (ring_cells q ! unat (write_index q))"
    and "ring_cells q ! unat (write_index q) \<noteq> None" if "0 < unat (ring_count q)"
    using inv that by (auto simp: ring_inv_def ring_contents_def hd_map ring_slot_def)
  then show "ring_front q = (if ring_contents q = [] then None else Some (hd (ring_contents q)))"
    by (auto simp: ring_front_def word_less_nat_alt ring_contents_Nil)
next
  fix q :: "'a SingleCoreCriticalRing"
  show "unat (ring_size q) = length (ring_contents q)" by (simp add: ring_size_def)
  show "ring_has_ready q = (ring_contents q \<noteq> [])"
    by (simp add: ring_has_ready_def ring_size_def ring_contents_Nil unat_eq_zero)
  assume "ring_inv q"
  then show "length (ring_contents q) \<le> ring_capacity q" by (simp add: ring_inv_def)
qed

section \<open>Properties\<close>

text \<open>
  C22. The single-core ring behaves as a bounded first-in first-out list: every
  sequence of pushes and pops on a new ring returns what the same sequence returns on
  a list of at most \<^verbatim>\<open>Capacity\<close> elements.
\<close>
theorem ring_is_bounded_fifo:
  fixes ops :: "'a queue_op list"
  assumes "0 < c"
  shows "run_queue ring_try_push ring_try_pop ops (ring_init c) = run_fifo (unat c) ops []"
proof -
  have "ring_inv (ring_init c :: 'a SingleCoreCriticalRing)"
    and "ring_contents (ring_init c :: 'a SingleCoreCriticalRing) = []"
    using ring_inv_init [OF assms] by auto
  then show ?thesis using ring_queue.run_refines [of "ring_init c" ops]
    by (simp add: ring_capacity_def ring_init_def)
qed

theorem ring_is_bounded_fifo_witness:
  "run_queue ring_try_push ring_try_pop [QPush 1, QPush 2, QPush 3, QPop, QPush (4::nat), QPop, QPop, QPop]
     (ring_init 2)
   = [PushRes True, PushRes True, PushRes False, PopRes (Some 1), PushRes True, PopRes (Some 2),
      PopRes (Some 4), PopRes None]"
  by (subst ring_is_bounded_fifo) simp_all

text \<open>
  Object lifetimes of the ring: a push constructs its payload in raw storage only,
  a pop moves out of and destroys a live payload only, and the destructor of a ring in
  any state its operations reach leaves no live payload behind.
\<close>
lemma ring_lifetimes:
  assumes "ring_inv r"
  shows "(unat (ring_count r) < ring_capacity r \<longrightarrow>
      ring_cells r ! ((unat (write_index r) + unat (ring_count r)) mod ring_capacity r) = None)
    \<and> (0 < ring_count r \<longrightarrow> ring_cells r ! unat (write_index r) \<noteq> None)
    \<and> (\<forall>k < ring_capacity r. ring_cells (ring_destroy r) ! k = None)"
proof (intro conjI impI allI)
  show "ring_cells r ! ((unat (write_index r) + unat (ring_count r)) mod ring_capacity r) = None"
    if "unat (ring_count r) < ring_capacity r"
    using assms that by (auto simp: ring_inv_def ring_slot_def)
next
  have "ring_slot r 0 = unat (write_index r)" using assms by (simp add: ring_slot_def ring_inv_def)
  then show "ring_cells r ! unat (write_index r) \<noteq> None" if "0 < ring_count r"
    using assms that by (metis ring_inv_def unat_gt_0 word_greater_zero_iff)
next
  fix k assume k: "k < ring_capacity r"
  then obtain i where i: "i < ring_capacity r" "ring_slot r i = k"
    using ring_slot_surj assms by (metis ring_inv_def)
  have "i < unat (ring_count r) \<or> ring_cells r ! k = None" using assms i by (auto simp: ring_inv_def)
  then show "ring_cells (ring_destroy r) ! k = None"
    using ring_destroy_loop_clears [of "unat (write_index r)" 0 "unat (ring_count r)" "ring_cells r" k] i k
    by (auto simp: ring_destroy_def ring_slot_def ring_capacity_def)
qed

end
