(* ===== verification/Mpsc_Queue.thy ===== *)
theory Mpsc_Queue
  imports Queues
begin

text \<open>
  \<^verbatim>\<open>BoundedMpscQueue\<close> of queue.hpp: its operations run one at a time, their
  refinement of the bounded first-in first-out interface, and the behaviour of the
  producer scan when the 32-bit probe counter wraps around. The template accepts every
  non-zero capacity; the invariant, and with it the refinement, is for capacities that
  divide 2^32.
\<close>

section \<open>Cells and operations\<close>

datatype MpscState = kFree | kWriting | kReady | kConsuming

record 'a MpscCell =
  storage :: "'a option"
  cell_state :: MpscState
  cell_ticket :: u64

record 'a BoundedMpscQueue =
  producer_probe :: u32
  publication_ticket :: u64
  mpsc_cells :: "'a MpscCell list"

definition mpsc_capacity :: "'a BoundedMpscQueue \<Rightarrow> nat" where
  "mpsc_capacity q = length (mpsc_cells q)"

definition mpsc_init :: "u16 \<Rightarrow> 'a BoundedMpscQueue" where
  "mpsc_init capacity = \<lparr>producer_probe = 0, publication_ticket = 0,
     mpsc_cells = replicate (unat capacity) \<lparr>storage = None, cell_state = kFree, cell_ticket = 0\<rparr>\<rparr>"

text \<open>The index probed at an offset: a 32-bit sum that wraps, reduced modulo the capacity.\<close>
definition probe_index :: "nat \<Rightarrow> u32 \<Rightarrow> nat \<Rightarrow> nat" where
  "probe_index cap start offset = unat (start + of_nat offset) mod cap"

text \<open>The atomic steps of a push on one cell, in program order.\<close>
definition mpsc_set_cell :: "nat \<Rightarrow> ('a MpscCell \<Rightarrow> 'a MpscCell) \<Rightarrow> 'a BoundedMpscQueue \<Rightarrow> 'a BoundedMpscQueue" where
  "mpsc_set_cell i f q = q\<lparr>mpsc_cells := (mpsc_cells q)[i := f (mpsc_cells q ! i)]\<rparr>"

definition mpsc_try_claim :: "nat \<Rightarrow> 'a BoundedMpscQueue \<Rightarrow> bool \<times> 'a BoundedMpscQueue" where
  "mpsc_try_claim i q =
     (if cell_state (mpsc_cells q ! i) = kFree
      then (True, mpsc_set_cell i (\<lambda>c. c\<lparr>cell_state := kWriting\<rparr>) q)
      else (False, q))"

definition mpsc_construct :: "nat \<Rightarrow> 'a \<Rightarrow> 'a BoundedMpscQueue \<Rightarrow> 'a BoundedMpscQueue" where
  "mpsc_construct i v = mpsc_set_cell i (\<lambda>c. c\<lparr>storage := Some v\<rparr>)"

definition mpsc_stamp :: "nat \<Rightarrow> 'a BoundedMpscQueue \<Rightarrow> 'a BoundedMpscQueue" where
  "mpsc_stamp i q =
     (let ticket = publication_ticket q
      in mpsc_set_cell i (\<lambda>c. c\<lparr>cell_ticket := ticket\<rparr>) (q\<lparr>publication_ticket := ticket + 1\<rparr>))"

definition mpsc_publish :: "nat \<Rightarrow> 'a BoundedMpscQueue \<Rightarrow> 'a BoundedMpscQueue" where
  "mpsc_publish i = mpsc_set_cell i (\<lambda>c. c\<lparr>cell_state := kReady\<rparr>)"

text \<open>The scan of the producer, with the number of offsets left.\<close>
fun push_scan :: "'a BoundedMpscQueue \<Rightarrow> 'a \<Rightarrow> u32 \<Rightarrow> nat \<Rightarrow> nat \<Rightarrow> bool \<times> 'a BoundedMpscQueue" where
  "push_scan q v start offset 0 = (False, q)"
| "push_scan q v start offset (Suc n) =
     (let index = probe_index (mpsc_capacity q) start offset in
      case mpsc_try_claim index q of
        (False, _) \<Rightarrow> push_scan q v start (Suc offset) n
      | (True, q1) \<Rightarrow> (True, mpsc_publish index (mpsc_stamp index (mpsc_construct index v q1))))"

definition push_impl :: "'a BoundedMpscQueue \<Rightarrow> 'a \<Rightarrow> bool \<times> 'a BoundedMpscQueue" where
  "push_impl q v =
     (let start = producer_probe q
      in push_scan (q\<lparr>producer_probe := start + 1\<rparr>) v start 0 (mpsc_capacity q))"

fun oldest_ready_loop :: "nat \<Rightarrow> 'a MpscCell list \<Rightarrow> nat \<Rightarrow> nat \<Rightarrow> u64 \<Rightarrow> nat" where
  "oldest_ready_loop cap [] index oldest oldest_ticket = oldest"
| "oldest_ready_loop cap (c # cs) index oldest oldest_ticket =
     (if cell_state c \<noteq> kReady then oldest_ready_loop cap cs (Suc index) oldest oldest_ticket
      else if oldest = cap \<or> cell_ticket c < oldest_ticket
           then oldest_ready_loop cap cs (Suc index) index (cell_ticket c)
           else oldest_ready_loop cap cs (Suc index) oldest oldest_ticket)"

definition oldest_ready_index :: "'a BoundedMpscQueue \<Rightarrow> nat" where
  "oldest_ready_index q = oldest_ready_loop (mpsc_capacity q) (mpsc_cells q) 0 (mpsc_capacity q) 0"

definition pop_ready :: "'a BoundedMpscQueue \<Rightarrow> 'a option \<times> 'a BoundedMpscQueue" where
  "pop_ready q =
     (let index = oldest_ready_index q in
      if index = mpsc_capacity q then (None, q)
      else
        let q1 = mpsc_set_cell index (\<lambda>c. c\<lparr>cell_state := kConsuming\<rparr>) q;
            out = storage (mpsc_cells q1 ! index);
            q2 = mpsc_set_cell index (\<lambda>c. c\<lparr>storage := None\<rparr>) q1
        in (out, mpsc_set_cell index (\<lambda>c. c\<lparr>cell_state := kFree\<rparr>) q2))"

definition mpsc_front :: "'a BoundedMpscQueue \<Rightarrow> 'a option" where
  "mpsc_front q =
     (let index = oldest_ready_index q in
      if index = mpsc_capacity q then None else storage (mpsc_cells q ! index))"

definition mpsc_size :: "'a BoundedMpscQueue \<Rightarrow> u16" where
  "mpsc_size q = foldl (\<lambda>count c. if cell_state c \<noteq> kFree then count + 1 else count) 0 (mpsc_cells q)"

definition mpsc_has_ready :: "'a BoundedMpscQueue \<Rightarrow> bool" where
  "mpsc_has_ready q = (oldest_ready_index q \<noteq> mpsc_capacity q)"

definition destroy_live_cells :: "'a BoundedMpscQueue \<Rightarrow> 'a BoundedMpscQueue" where
  "destroy_live_cells q = q\<lparr>mpsc_cells :=
     map (\<lambda>c. if cell_state c = kFree then c else c\<lparr>storage := None\<rparr>) (mpsc_cells q)\<rparr>"

lemma mpsc_capacity_probe [simp]: "mpsc_capacity (q\<lparr>producer_probe := p\<rparr>) = mpsc_capacity q"
  by (simp add: mpsc_capacity_def)

section \<open>The producer scan\<close>

text \<open>The indices a scan probes, and whether they are all the indices.\<close>
definition probes_all :: "nat \<Rightarrow> u32 \<Rightarrow> bool" where
  "probes_all cap start \<longleftrightarrow> (\<forall>i < cap. \<exists>offset < cap. probe_index cap start offset = i)"

lemma probe_index_less: "0 < cap \<Longrightarrow> probe_index cap start offset < cap"
  by (simp add: probe_index_def)

lemma mod_start_surj:
  assumes "i < cap"
  shows "\<exists>offset < cap. (s + offset) mod cap = (i::nat)"
proof -
  have "(s + (cap - s mod cap + i) mod cap) mod cap = (s mod cap + (cap - s mod cap + i)) mod cap"
    by (metis mod_add_eq mod_mod_trivial)
  also have "\<dots> = (cap + i) mod cap"
    using assms by (metis add.assoc le_add_diff_inverse less_imp_le mod_less_divisor not_less_zero neq0_conv)
  finally show ?thesis
    using assms by (intro exI [of _ "(cap - s mod cap + i) mod cap"]) simp
qed

lemma probe_index_dvd:
  assumes "cap dvd 4294967296" and "offset < 4294967296"
  shows "probe_index cap start offset = (unat start + offset) mod cap"
  using assms by (simp add: probe_index_def unat_word_ariths unsigned_of_nat take_bit_nat_eq_self mod_mod_cancel)

lemma probe_index_no_wrap:
  assumes "unat start + offset < 4294967296"
  shows "probe_index cap start offset = (unat start + offset) mod cap"
  using assms by (simp add: probe_index_def unat_word_ariths unsigned_of_nat take_bit_nat_eq_self)

lemma probes_all_dvd:
  assumes "cap dvd 4294967296"
  shows "probes_all cap start"
proof -
  have "cap \<le> 4294967296" using assms by (simp add: dvd_imp_le)
  then show ?thesis unfolding probes_all_def
    using mod_start_surj [of _ cap "unat start"] probe_index_dvd [OF assms, of _ start]
    by (metis order_less_le_trans)
qed

lemma probes_all_no_wrap:
  assumes "unat start + cap \<le> 4294967296"
  shows "probes_all cap start"
  unfolding probes_all_def
  using mod_start_surj [of _ cap "unat start"] probe_index_no_wrap [of start _ cap] assms
  by (metis add_less_cancel_left order_less_le_trans)

text \<open>The net effect of a successful push on cell i.\<close>
definition mpsc_commit :: "nat \<Rightarrow> 'a \<Rightarrow> 'a BoundedMpscQueue \<Rightarrow> 'a BoundedMpscQueue" where
  "mpsc_commit i v q = q\<lparr>publication_ticket := publication_ticket q + 1,
     mpsc_cells := (mpsc_cells q)[i :=
       \<lparr>storage = Some v, cell_state = kReady, cell_ticket = publication_ticket q\<rparr>]\<rparr>"

lemma mpsc_cell_update_all [simp]:
  "(c :: 'a MpscCell)\<lparr>storage := a, cell_ticket := t, cell_state := s\<rparr>
     = \<lparr>storage = a, cell_state = s, cell_ticket = t\<rparr>"
  by (cases c) simp

lemma mpsc_commit_steps:
  assumes "i < mpsc_capacity q" and "mpsc_try_claim i q = (True, q1)"
  shows "mpsc_publish i (mpsc_stamp i (mpsc_construct i v q1)) = mpsc_commit i v q"
  using assms by (auto simp: mpsc_try_claim_def mpsc_publish_def mpsc_stamp_def mpsc_construct_def
      mpsc_set_cell_def mpsc_commit_def mpsc_capacity_def Let_def split: if_splits)

lemma push_scan_find:
  assumes "0 < mpsc_capacity q"
  shows "push_scan q v start offset n =
    (case find (\<lambda>k. cell_state (mpsc_cells q ! probe_index (mpsc_capacity q) start k) = kFree)
            [offset..<offset + n] of
       None \<Rightarrow> (False, q)
     | Some k \<Rightarrow> (True, mpsc_commit (probe_index (mpsc_capacity q) start k) v q))"
  using assms
proof (induction n arbitrary: offset)
  case 0
  then show ?case by simp
next
  case (Suc n)
  let ?i = "probe_index (mpsc_capacity q) start offset"
  have i: "?i < mpsc_capacity q" using Suc.prems by (rule probe_index_less)
  have upt: "[offset..<offset + Suc n] = offset # [Suc offset..<Suc offset + n]"
    by (simp add: upt_conv_Cons del: upt_Suc)
  show ?case
  proof (cases "cell_state (mpsc_cells q ! ?i) = kFree")
    case True
    then obtain q1 where q1: "mpsc_try_claim ?i q = (True, q1)" by (simp add: mpsc_try_claim_def)
    then show ?thesis using True mpsc_commit_steps [OF i q1, of v] unfolding upt by simp
  next
    case False
    then have "mpsc_try_claim ?i q = (False, q)" by (simp add: mpsc_try_claim_def)
    then show ?thesis using False Suc.IH [of "Suc offset"] Suc.prems unfolding upt by simp
  qed
qed

lemma push_impl_find:
  assumes "0 < mpsc_capacity q"
  shows "push_impl q v =
    (let q1 = q\<lparr>producer_probe := producer_probe q + 1\<rparr> in
     case find (\<lambda>k. cell_state (mpsc_cells q ! probe_index (mpsc_capacity q) (producer_probe q) k) = kFree)
            [0..<mpsc_capacity q] of
       None \<Rightarrow> (False, q1)
     | Some k \<Rightarrow> (True, mpsc_commit (probe_index (mpsc_capacity q) (producer_probe q) k) v q1))"
  using assms push_scan_find [of "q\<lparr>producer_probe := producer_probe q + 1\<rparr>" v "producer_probe q" 0
      "mpsc_capacity q"]
  by (simp add: push_impl_def Let_def cong: option.case_cong)

lemma push_impl_cases:
  assumes cap: "0 < mpsc_capacity q" and all: "probes_all (mpsc_capacity q) (producer_probe q)"
  obtains (full) "\<forall>i < mpsc_capacity q. cell_state (mpsc_cells q ! i) \<noteq> kFree"
      and "push_impl q v = (False, q\<lparr>producer_probe := producer_probe q + 1\<rparr>)"
  | (room) i where "i < mpsc_capacity q" and "cell_state (mpsc_cells q ! i) = kFree"
      and "push_impl q v = (True, mpsc_commit i v (q\<lparr>producer_probe := producer_probe q + 1\<rparr>))"
proof (cases "find (\<lambda>k. cell_state (mpsc_cells q ! probe_index (mpsc_capacity q) (producer_probe q) k) = kFree)
            [0..<mpsc_capacity q]")
  case None
  then have "\<forall>i < mpsc_capacity q. cell_state (mpsc_cells q ! i) \<noteq> kFree"
    using all unfolding probes_all_def find_None_iff by force
  then show thesis using None by (intro full) (simp_all add: push_impl_find [OF cap])
next
  case (Some k)
  then have "cell_state (mpsc_cells q ! probe_index (mpsc_capacity q) (producer_probe q) k) = kFree"
    by (auto simp: find_Some_iff)
  then show thesis using Some probe_index_less [OF cap, of "producer_probe q" k]
    by (intro room) (simp_all add: push_impl_find [OF cap])
qed

section \<open>Refinement of the bounded queue\<close>

definition mpsc_ready_cells :: "'a BoundedMpscQueue \<Rightarrow> 'a MpscCell list" where
  "mpsc_ready_cells q = filter (\<lambda>c. cell_state c = kReady) (mpsc_cells q)"

abbreviation ticket_nat :: "'a MpscCell \<Rightarrow> nat" where
  "ticket_nat c \<equiv> unat (cell_ticket c)"

definition mpsc_contents :: "'a BoundedMpscQueue \<Rightarrow> 'a list" where
  "mpsc_contents q = map (\<lambda>c. the (storage c)) (sort_key ticket_nat (mpsc_ready_cells q))"

definition mpsc_cell_ok :: "'a BoundedMpscQueue \<Rightarrow> 'a MpscCell \<Rightarrow> bool" where
  "mpsc_cell_ok q c \<longleftrightarrow>
     (cell_state c = kFree \<and> storage c = None)
     \<or> (cell_state c = kReady \<and> storage c \<noteq> None \<and> ticket_nat c < unat (publication_ticket q))"

definition mpsc_inv :: "'a BoundedMpscQueue \<Rightarrow> bool" where
  "mpsc_inv q \<longleftrightarrow> 0 < mpsc_capacity q \<and> mpsc_capacity q < 65536 \<and> mpsc_capacity q dvd 4294967296
     \<and> (\<forall>c \<in> set (mpsc_cells q). mpsc_cell_ok q c)
     \<and> distinct (map ticket_nat (mpsc_ready_cells q))"

text \<open>There are n publication tickets left before the 64-bit counter wraps.\<close>
definition mpsc_fresh :: "nat \<Rightarrow> 'a BoundedMpscQueue \<Rightarrow> bool" where
  "mpsc_fresh n q \<longleftrightarrow> unat (publication_ticket q) + n < 18446744073709551616"

lemma mpsc_fresh_inc:
  assumes "mpsc_fresh (Suc n) q"
  shows "unat (publication_ticket q + 1) = unat (publication_ticket q) + 1"
  using assms by (intro unat_inc) (simp add: mpsc_fresh_def)

lemma mset_filter_update:
  assumes "i < length xs"
  shows "mset (filter P (xs[i := x])) + (if P (xs ! i) then {#xs ! i#} else {#})
      = mset (filter P xs) + (if P x then {#x#} else {#})"
  using assms
proof (induction xs arbitrary: i)
  case Nil
  then show ?case by simp
next
  case (Cons y ys)
  then show ?case using Cons.IH [of "i - 1"]
    by (cases i) (auto simp: ac_simps split: if_splits)
qed

lemma mpsc_init_inv:
  assumes "0 < c" and "unat c dvd 4294967296"
  shows "mpsc_inv (mpsc_init c) \<and> mpsc_contents (mpsc_init c) = []"
  using assms by (simp add: mpsc_inv_def mpsc_init_def mpsc_capacity_def mpsc_contents_def
      mpsc_ready_cells_def mpsc_cell_ok_def word_less_nat_alt)

lemma mpsc_length_contents: "length (mpsc_contents q) = length (mpsc_ready_cells q)"
  by (simp add: mpsc_contents_def)

lemma mpsc_ready_bound: "length (mpsc_ready_cells q) \<le> mpsc_capacity q"
  by (simp add: mpsc_ready_cells_def mpsc_capacity_def)

lemma mpsc_full_iff:
  assumes "mpsc_inv q"
  shows "length (mpsc_contents q) = mpsc_capacity q \<longleftrightarrow>
    (\<forall>i < mpsc_capacity q. cell_state (mpsc_cells q ! i) \<noteq> kFree)"
proof -
  have "length (mpsc_contents q) = mpsc_capacity q \<longleftrightarrow>
      (\<forall>c \<in> set (mpsc_cells q). cell_state c = kReady)"
    by (simp add: mpsc_length_contents mpsc_ready_cells_def mpsc_capacity_def length_filter_all)
  also have "\<dots> \<longleftrightarrow> (\<forall>c \<in> set (mpsc_cells q). cell_state c \<noteq> kFree)"
    using assms unfolding mpsc_inv_def mpsc_cell_ok_def by force
  finally show ?thesis by (simp add: all_set_conv_all_nth mpsc_capacity_def)
qed

lemma sort_key_snoc_max:
  assumes "distinct (map f xs)" and "\<forall>x \<in> set xs. f x < f y"
    and "mset ys = add_mset y (mset xs)"
  shows "sort_key f ys = sort_key f xs @ [y]"
proof (rule sort_key_inj_key_eq)
  show "mset ys = mset (sort_key f xs @ [y])" using assms(3) by simp
  have "set ys = insert y (set xs)" by (metis assms(3) set_mset_mset set_mset_add_mset_insert)
  moreover have "y \<notin> set xs" using assms(2) by blast
  ultimately show "inj_on f (set ys)" using assms(1,2) by (auto simp: distinct_map inj_on_def)
  show "sorted (map f (sort_key f xs @ [y]))" using assms(2) by (auto simp: sorted_append less_imp_le)
qed

lemma sort_key_cons_min:
  assumes "distinct (map f ys)" and "\<forall>x \<in> set xs. f y \<le> f x"
    and "mset ys = add_mset y (mset xs)"
  shows "sort_key f ys = y # sort_key f xs"
proof (rule sort_key_inj_key_eq)
  show "mset ys = mset (y # sort_key f xs)" using assms(3) by simp
  show "inj_on f (set ys)" using assms(1) by (simp add: distinct_map)
  show "sorted (map f (y # sort_key f xs))" using assms(2) by simp
qed

lemma mpsc_commit_refines:
  assumes inv: "mpsc_inv q" and fresh: "mpsc_fresh (Suc n) q" and i: "i < mpsc_capacity q"
    and free: "cell_state (mpsc_cells q ! i) = kFree"
  shows "mpsc_inv (mpsc_commit i v q) \<and> mpsc_contents (mpsc_commit i v q) = mpsc_contents q @ [v]
      \<and> mpsc_capacity (mpsc_commit i v q) = mpsc_capacity q \<and> mpsc_fresh n (mpsc_commit i v q)"
proof -
  let ?c = "\<lparr>storage = Some v, cell_state = kReady, cell_ticket = publication_ticket q\<rparr>"
  let ?q = "mpsc_commit i v q"
  have cells: "mpsc_cells ?q = (mpsc_cells q)[i := ?c]"
    and ticket: "publication_ticket ?q = publication_ticket q + 1"
    by (simp_all add: mpsc_commit_def)
  have mset: "mset (mpsc_ready_cells ?q) = add_mset ?c (mset (mpsc_ready_cells q))"
    using mset_filter_update [of i "mpsc_cells q" "\<lambda>c. cell_state c = kReady" ?c] i free
    by (simp add: mpsc_ready_cells_def cells mpsc_capacity_def)
  have less: "\<forall>c \<in> set (mpsc_ready_cells q). ticket_nat c < unat (publication_ticket q)"
    using inv by (auto simp: mpsc_inv_def mpsc_ready_cells_def mpsc_cell_ok_def)
  have dist: "distinct (map ticket_nat (mpsc_ready_cells q))" using inv by (simp add: mpsc_inv_def)
  have "sort_key ticket_nat (mpsc_ready_cells ?q) = sort_key ticket_nat (mpsc_ready_cells q) @ [?c]"
    using dist less mset by (intro sort_key_snoc_max) simp_all
  then have contents: "mpsc_contents ?q = mpsc_contents q @ [v]" by (simp add: mpsc_contents_def)
  have "mset (map ticket_nat (mpsc_ready_cells ?q))
      = add_mset (unat (publication_ticket q)) (mset (map ticket_nat (mpsc_ready_cells q)))"
    using mset by simp
  moreover have "unat (publication_ticket q) \<notin> set (map ticket_nat (mpsc_ready_cells q))"
    using less by auto
  ultimately have "distinct (map ticket_nat (mpsc_ready_cells ?q))"
    using dist by (metis distinct.simps(2) mset.simps(2) mset_eq_imp_distinct_iff)
  moreover have "mpsc_cell_ok ?q c" if "c \<in> set (mpsc_cells ?q)" for c
  proof -
    have "c = ?c \<or> c \<in> set (mpsc_cells q)" using that set_update_subset_insert by (force simp: cells)
    then show ?thesis
      using inv mpsc_fresh_inc [OF fresh] by (auto simp: mpsc_inv_def mpsc_cell_ok_def ticket)
  qed
  ultimately have "mpsc_inv ?q" using inv by (simp add: mpsc_inv_def cells mpsc_capacity_def)
  then show ?thesis using contents fresh mpsc_fresh_inc [OF fresh]
    by (simp add: cells ticket mpsc_capacity_def mpsc_fresh_def)
qed

lemma mpsc_probe_inv [simp]:
  "mpsc_inv (q\<lparr>producer_probe := p\<rparr>) = mpsc_inv q"
  "mpsc_contents (q\<lparr>producer_probe := p\<rparr>) = mpsc_contents q"
  "mpsc_fresh n (q\<lparr>producer_probe := p\<rparr>) = mpsc_fresh n q"
  by (simp_all add: mpsc_inv_def mpsc_contents_def mpsc_fresh_def mpsc_ready_cells_def mpsc_cell_ok_def)

text \<open>What the consumer scan returns, from any point of its loop.\<close>
lemma oldest_ready_loop_spec:
  assumes "cap = length done + length cs" and "index = length done"
    and "oldest = cap \<longrightarrow> (\<forall>c \<in> set done. cell_state c \<noteq> kReady)"
    and "oldest \<noteq> cap \<longrightarrow> oldest < length done \<and> cell_state (done ! oldest) = kReady
      \<and> cell_ticket (done ! oldest) = t \<and> (\<forall>c \<in> set done. cell_state c = kReady \<longrightarrow> t \<le> cell_ticket c)"
  shows "let r = oldest_ready_loop cap cs index oldest t in
      (r = cap \<longrightarrow> (\<forall>c \<in> set (done @ cs). cell_state c \<noteq> kReady))
      \<and> (r \<noteq> cap \<longrightarrow> r < cap \<and> cell_state ((done @ cs) ! r) = kReady
          \<and> (\<forall>c \<in> set (done @ cs). cell_state c = kReady \<longrightarrow> cell_ticket ((done @ cs) ! r) \<le> cell_ticket c))"
  using assms
proof (induction cs arbitrary: "done" index oldest t)
  case Nil
  then show ?case by (auto simp: Let_def)
next
  case (Cons c cs)
  let ?take = "cell_state c = kReady \<and> (oldest = cap \<or> cell_ticket c < t)"
  show ?case
  proof (cases ?take)
    case True
    then have "oldest_ready_loop cap (c # cs) index oldest t
        = oldest_ready_loop cap cs (Suc index) index (cell_ticket c)" by auto
    moreover have "\<forall>d \<in> set done. cell_state d = kReady \<longrightarrow> cell_ticket c \<le> cell_ticket d"
      using True Cons.prems(3,4) by force
    ultimately show ?thesis
      using True Cons.IH [of "done @ [c]" "Suc index" index "cell_ticket c"] Cons.prems(1,2) by simp
  next
    case False
    then have "oldest_ready_loop cap (c # cs) index oldest t
        = oldest_ready_loop cap cs (Suc index) oldest t" by auto
    moreover have "oldest = cap \<longrightarrow> cell_state c \<noteq> kReady"
      and "cell_state c = kReady \<longrightarrow> t \<le> cell_ticket c" using False by auto
    moreover have "oldest \<noteq> cap \<longrightarrow> oldest < length (done @ [c])
        \<and> cell_state ((done @ [c]) ! oldest) = kReady \<and> cell_ticket ((done @ [c]) ! oldest) = t"
      using Cons.prems(4) by (auto simp add: nth_append)
    ultimately show ?thesis
      using Cons.IH [of "done @ [c]" "Suc index" oldest t] Cons.prems by simp
  qed
qed

lemma oldest_ready_index_cases:
  obtains (none) "oldest_ready_index q = mpsc_capacity q"
      and "\<forall>c \<in> set (mpsc_cells q). cell_state c \<noteq> kReady"
  | (some) "oldest_ready_index q < mpsc_capacity q"
      and "cell_state (mpsc_cells q ! oldest_ready_index q) = kReady"
      and "\<forall>c \<in> set (mpsc_cells q). cell_state c = kReady
        \<longrightarrow> cell_ticket (mpsc_cells q ! oldest_ready_index q) \<le> cell_ticket c"
  using oldest_ready_loop_spec [of "mpsc_capacity q" "[]" "mpsc_cells q" 0 "mpsc_capacity q" 0]
  unfolding oldest_ready_index_def by (fastforce simp: Let_def mpsc_capacity_def)

lemma mpsc_cell_take [simp]:
  "(c :: 'a MpscCell)\<lparr>cell_state := x, storage := None, cell_state := kFree\<rparr> =
     \<lparr>storage = None, cell_state = kFree, cell_ticket = cell_ticket c\<rparr>"
  "(c :: 'a MpscCell)\<lparr>storage := None, cell_state := kFree\<rparr> =
     \<lparr>storage = None, cell_state = kFree, cell_ticket = cell_ticket c\<rparr>"
  by (cases c; simp)+

lemma pop_ready_some:
  assumes "oldest_ready_index q = i" and "i < mpsc_capacity q"
  shows "pop_ready q = (storage (mpsc_cells q ! i), q\<lparr>mpsc_cells := (mpsc_cells q)[i :=
      \<lparr>storage = None, cell_state = kFree, cell_ticket = cell_ticket (mpsc_cells q ! i)\<rparr>]\<rparr>)"
  using assms by (simp add: pop_ready_def mpsc_set_cell_def mpsc_capacity_def Let_def)

lemma mpsc_oldest_refines:
  assumes inv: "mpsc_inv q" and i: "i < mpsc_capacity q" and r: "cell_state (mpsc_cells q ! i) = kReady"
    and least: "\<forall>c \<in> set (mpsc_cells q). cell_state c = kReady
        \<longrightarrow> cell_ticket (mpsc_cells q ! i) \<le> cell_ticket c"
    and q': "q' = q\<lparr>mpsc_cells := (mpsc_cells q)[i :=
      \<lparr>storage = None, cell_state = kFree, cell_ticket = cell_ticket (mpsc_cells q ! i)\<rparr>]\<rparr>"
  shows "mpsc_inv q' \<and> mpsc_contents q = the (storage (mpsc_cells q ! i)) # mpsc_contents q'"
proof -
  let ?c = "\<lparr>storage = None, cell_state = kFree, cell_ticket = cell_ticket (mpsc_cells q ! i)\<rparr>"
  have mset: "mset (mpsc_ready_cells q) = add_mset (mpsc_cells q ! i) (mset (mpsc_ready_cells q'))"
    using mset_filter_update [of i "mpsc_cells q" "\<lambda>c. cell_state c = kReady" ?c] i r
    by (simp add: mpsc_ready_cells_def q' mpsc_capacity_def)
  have dist: "distinct (map ticket_nat (mpsc_ready_cells q))" using inv by (simp add: mpsc_inv_def)
  have sub: "set (mpsc_ready_cells q') \<subseteq> set (mpsc_ready_cells q)"
    using mset by (metis set_mset_add_mset_insert set_mset_mset subset_insertI)
  have "sort_key ticket_nat (mpsc_ready_cells q)
      = mpsc_cells q ! i # sort_key ticket_nat (mpsc_ready_cells q')"
  proof (rule sort_key_cons_min [OF dist _ mset])
    show "\<forall>x \<in> set (mpsc_ready_cells q'). ticket_nat (mpsc_cells q ! i) \<le> ticket_nat x"
      using sub least by (auto simp: mpsc_ready_cells_def word_le_nat_alt)
  qed
  then have contents: "mpsc_contents q = the (storage (mpsc_cells q ! i)) # mpsc_contents q'"
    by (simp add: mpsc_contents_def)
  have "mset (map ticket_nat (mpsc_ready_cells q))
      = mset (ticket_nat (mpsc_cells q ! i) # map ticket_nat (mpsc_ready_cells q'))"
    using mset by simp
  then have "distinct (map ticket_nat (mpsc_ready_cells q'))"
    using dist by (metis distinct.simps(2) mset_eq_imp_distinct_iff)
  moreover have "mpsc_cell_ok q' c" if "c \<in> set (mpsc_cells q')" for c
  proof -
    have "c = ?c \<or> c \<in> set (mpsc_cells q)" using that set_update_subset_insert by (force simp: q')
    then show ?thesis using inv by (auto simp: mpsc_inv_def mpsc_cell_ok_def q')
  qed
  ultimately show ?thesis using inv contents by (simp add: mpsc_inv_def q' mpsc_capacity_def)
qed

lemma mpsc_oldest_storage:
  assumes "mpsc_inv q" and "i < mpsc_capacity q" and "cell_state (mpsc_cells q ! i) = kReady"
  shows "storage (mpsc_cells q ! i) = Some (the (storage (mpsc_cells q ! i)))"
proof -
  have "mpsc_cell_ok q (mpsc_cells q ! i)" using assms(1,2) by (simp add: mpsc_inv_def mpsc_capacity_def)
  then show ?thesis using assms(3) by (auto simp: mpsc_cell_ok_def)
qed

lemma mpsc_ready_none:
  "\<forall>c \<in> set (mpsc_cells q). cell_state c \<noteq> kReady \<Longrightarrow> mpsc_contents q = []"
  by (simp add: mpsc_contents_def mpsc_ready_cells_def)

lemma mpsc_oldest_contents:
  assumes "mpsc_inv q"
  obtains (empty) "oldest_ready_index q = mpsc_capacity q" and "mpsc_contents q = []"
    | (head) x q' where "oldest_ready_index q < mpsc_capacity q"
        and "storage (mpsc_cells q ! oldest_ready_index q) = Some x"
        and "pop_ready q = (Some x, q')" and "mpsc_inv q'" and "mpsc_contents q = x # mpsc_contents q'"
        and "mpsc_capacity q' = mpsc_capacity q" and "publication_ticket q' = publication_ticket q"
proof (cases rule: oldest_ready_index_cases [of q])
  case none
  then show ?thesis using mpsc_ready_none empty by blast
next
  case some
  let ?i = "oldest_ready_index q"
  let ?q' = "q\<lparr>mpsc_cells := (mpsc_cells q)[?i :=
      \<lparr>storage = None, cell_state = kFree, cell_ticket = cell_ticket (mpsc_cells q ! ?i)\<rparr>]\<rparr>"
  have x: "storage (mpsc_cells q ! ?i) = Some (the (storage (mpsc_cells q ! ?i)))"
    using mpsc_oldest_storage assms some(1,2) by blast
  show ?thesis
    using head [of "the (storage (mpsc_cells q ! ?i))" ?q'] x some(1)
      pop_ready_some [OF refl some(1)] mpsc_oldest_refines [OF assms some refl]
    by (simp add: mpsc_capacity_def)
qed

lemma mpsc_size_count:
  "mpsc_size q = of_nat (length (filter (\<lambda>c. cell_state c \<noteq> kFree) (mpsc_cells q)))"
proof -
  have "foldl (\<lambda>n c. if cell_state c \<noteq> kFree then n + 1 else n) k cs
      = k + of_nat (length (filter (\<lambda>c. cell_state c \<noteq> kFree) cs))"
    for k :: u16 and cs :: "'a MpscCell list"
    by (induction cs arbitrary: k) simp_all
  then show ?thesis by (simp add: mpsc_size_def)
qed

lemma mpsc_size_length:
  assumes "mpsc_inv q"
  shows "unat (mpsc_size q) = length (mpsc_contents q)"
proof -
  have "filter (\<lambda>c. cell_state c \<noteq> kFree) (mpsc_cells q) = mpsc_ready_cells q"
    using assms unfolding mpsc_ready_cells_def
    by (intro filter_cong) (auto simp: mpsc_inv_def mpsc_cell_ok_def)
  moreover have "length (mpsc_ready_cells q) < 65536"
    using assms mpsc_ready_bound [of q] by (simp add: mpsc_inv_def)
  ultimately show ?thesis by (simp add: mpsc_size_count mpsc_length_contents unat_of_nat_small)
qed

lemma push_impl_refines:
  assumes inv: "mpsc_inv q"
  shows "length (mpsc_contents q) = mpsc_capacity q \<Longrightarrow> push_impl q v =
      (False, q\<lparr>producer_probe := producer_probe q + 1\<rparr>)"
    and "\<lbrakk>mpsc_fresh (Suc n) q; length (mpsc_contents q) < mpsc_capacity q\<rbrakk> \<Longrightarrow>
      \<exists>q'. push_impl q v = (True, q') \<and> mpsc_inv q' \<and> mpsc_contents q' = mpsc_contents q @ [v]
        \<and> mpsc_capacity q' = mpsc_capacity q \<and> mpsc_fresh n q'"
proof -
  have cap: "0 < mpsc_capacity q" and all: "probes_all (mpsc_capacity q) (producer_probe q)"
    using inv by (simp_all add: mpsc_inv_def probes_all_dvd)
  note full = mpsc_full_iff [OF inv]
  show "push_impl q v = (False, q\<lparr>producer_probe := producer_probe q + 1\<rparr>)"
    if "length (mpsc_contents q) = mpsc_capacity q"
    using push_impl_cases [OF cap all] that full by metis
  show "\<exists>q'. push_impl q v = (True, q') \<and> mpsc_inv q' \<and> mpsc_contents q' = mpsc_contents q @ [v]
      \<and> mpsc_capacity q' = mpsc_capacity q \<and> mpsc_fresh n q'"
    if "mpsc_fresh (Suc n) q" "length (mpsc_contents q) < mpsc_capacity q"
  proof (cases rule: push_impl_cases [OF cap all, of v])
    case 1
    then show ?thesis using that(2) full by simp
  next
    case (2 i)
    then show ?thesis using that inv
        mpsc_commit_refines [of "q\<lparr>producer_probe := producer_probe q + 1\<rparr>" n i v]
      by simp
  qed
qed

interpretation mpsc_queue: bounded_queue push_impl pop_ready mpsc_front mpsc_size mpsc_has_ready
  mpsc_capacity mpsc_contents mpsc_inv mpsc_fresh
proof unfold_locales
  fix q :: "'a BoundedMpscQueue" and x n
  assume inv: "mpsc_inv q"
  show "\<exists>q'. push_impl q x = (True, q') \<and> mpsc_inv q' \<and> mpsc_contents q' = mpsc_contents q @ [x]
      \<and> mpsc_capacity q' = mpsc_capacity q \<and> mpsc_fresh n q'"
    if "mpsc_fresh (Suc n) q" "length (mpsc_contents q) < mpsc_capacity q"
    using that push_impl_refines(2) [OF inv] by blast
  show "\<exists>q'. push_impl q x = (False, q') \<and> mpsc_inv q' \<and> mpsc_contents q' = mpsc_contents q
      \<and> mpsc_capacity q' = mpsc_capacity q \<and> (\<forall>n. mpsc_fresh n q \<longrightarrow> mpsc_fresh n q')"
    if "length (mpsc_contents q) = mpsc_capacity q"
    using that push_impl_refines(1) [OF inv] inv by simp
next
  fix q :: "'a BoundedMpscQueue" and x xs
  assume inv: "mpsc_inv q"
  show "pop_ready q = (None, q)" if "mpsc_contents q = []"
    using inv that by (cases rule: mpsc_oldest_contents) (simp_all add: pop_ready_def Let_def)
  show "\<exists>q'. pop_ready q = (Some x, q') \<and> mpsc_inv q' \<and> mpsc_contents q' = xs
      \<and> mpsc_capacity q' = mpsc_capacity q \<and> (\<forall>n. mpsc_fresh n q \<longrightarrow> mpsc_fresh n q')"
    if "mpsc_contents q = x # xs"
    using inv that by (cases rule: mpsc_oldest_contents) (simp_all add: mpsc_fresh_def)
  show "mpsc_front q = (if mpsc_contents q = [] then None else Some (hd (mpsc_contents q)))"
    using inv by (cases rule: mpsc_oldest_contents) (simp_all add: mpsc_front_def Let_def)
  show "mpsc_has_ready q = (mpsc_contents q \<noteq> [])"
    using inv by (cases rule: mpsc_oldest_contents) (simp_all add: mpsc_has_ready_def)
  show "unat (mpsc_size q) = length (mpsc_contents q)" by (rule mpsc_size_length [OF inv])
  show "length (mpsc_contents q) \<le> mpsc_capacity q"
    by (simp add: mpsc_length_contents mpsc_ready_bound)
next
  fix n and q :: "'a BoundedMpscQueue"
  assume "mpsc_fresh (Suc n) q"
  then show "mpsc_fresh n q" by (simp add: mpsc_fresh_def)
qed

section \<open>Properties\<close>

text \<open>
  C23. Used by one thread at a time, the multi-producer queue behaves as a bounded
  first-in first-out list, for every capacity that divides the range of the 32-bit probe
  counter (so every power of two) and every operation sequence shorter than the
  range of the 64-bit publication ticket.
\<close>
theorem mpsc_is_bounded_fifo:
  fixes ops :: "'a queue_op list"
  assumes "0 < c" and "unat c dvd 4294967296" and "length ops < 18446744073709551616"
  shows "run_queue push_impl pop_ready ops (mpsc_init c) = run_fifo (unat c) ops []"
proof -
  have "mpsc_fresh (length ops) (mpsc_init c :: 'a BoundedMpscQueue)"
    using assms(3) by (simp add: mpsc_fresh_def mpsc_init_def)
  moreover have "mpsc_inv (mpsc_init c :: 'a BoundedMpscQueue)"
    and "mpsc_contents (mpsc_init c :: 'a BoundedMpscQueue) = []"
    using mpsc_init_inv [OF assms(1,2)] by auto
  ultimately show ?thesis
    using mpsc_queue.run_refines [of "mpsc_init c" ops]
    by (simp add: mpsc_capacity_def mpsc_init_def)
qed

theorem mpsc_is_bounded_fifo_witness:
  "run_queue push_impl pop_ready [QPush 1, QPush 2, QPush 3, QPop, QPush (4::nat), QPop, QPop, QPop] (mpsc_init 2)
   = [PushRes True, PushRes True, PushRes False, PopRes (Some 1), PushRes True, PopRes (Some 2),
      PopRes (Some 4), PopRes None]"
  by (subst mpsc_is_bounded_fifo) simp_all

text \<open>
  The producer scan probes every cell, so a push is refused only when no cell is
  free, whenever the capacity divides the range of the probe counter or the counter
  does not wrap during the scan.
\<close>
lemma push_refused_only_when_full:
  assumes "0 < mpsc_capacity q"
    and "mpsc_capacity q dvd 4294967296 \<or> unat (producer_probe q) + mpsc_capacity q \<le> 4294967296"
  shows "\<not> fst (push_impl q v) \<longleftrightarrow> (\<forall>i < mpsc_capacity q. cell_state (mpsc_cells q ! i) \<noteq> kFree)"
proof -
  have "probes_all (mpsc_capacity q) (producer_probe q)"
    using assms(2) probes_all_dvd probes_all_no_wrap by blast
  then show ?thesis using push_impl_cases [OF assms(1)] by (metis fst_conv)
qed

section \<open>Capacities that do not divide 2^32\<close>

definition mpsc_after :: "'a queue_op list \<Rightarrow> 'a BoundedMpscQueue \<Rightarrow> 'a BoundedMpscQueue" where
  "mpsc_after ops q = fold (\<lambda>op q. case op of QPush v \<Rightarrow> snd (push_impl q v) | QPop \<Rightarrow> snd (pop_ready q)) ops q"

text \<open>A full queue of three cells, the last of which is the oldest, reached by seven operations.\<close>
definition full_three :: "u32 \<Rightarrow> nat BoundedMpscQueue" where
  "full_three p = \<lparr>producer_probe = p, publication_ticket = 5,
     mpsc_cells = [\<lparr>storage = Some 3, cell_state = kReady, cell_ticket = 3\<rparr>, \<lparr>storage = Some 4, cell_state = kReady, cell_ticket = 4\<rparr>,
       \<lparr>storage = Some 2, cell_state = kReady, cell_ticket = 2\<rparr>]\<rparr>"

lemma full_three_reached:
  "mpsc_after [QPush 0, QPush 1, QPush 2, QPop, QPop, QPush 3, QPush 4] (mpsc_init 3) = full_three 5"
  by code_simp

lemma full_three_push: "push_impl (full_three p) v = (False, full_three (p + 1))"
proof -
  have "cell_state (mpsc_cells (full_three q) ! i) \<noteq> kFree" if "i < 3" for i q
    using that by (auto simp: full_three_def less_Suc_eq numeral_3_eq_3)
  then have c: "mpsc_try_claim (probe_index 3 start k) (full_three q) = (False, full_three q)" for k q start
    by (simp add: mpsc_try_claim_def probe_index_less)
  have n: "mpsc_capacity (full_three q) = 3" for q by (simp add: full_three_def mpsc_capacity_def)
  have s: "push_scan (full_three q) v start k m = (False, full_three q)" for q start k m
    by (induction m arbitrary: k) (simp_all add: c n)
  have "(full_three p)\<lparr>producer_probe := p + 1\<rparr> = full_three (p + 1)" "producer_probe (full_three p) = p" by (simp_all add: full_three_def)
  then show ?thesis by (simp add: push_impl_def s)
qed

text \<open>Pushes refused because the queue is full still advance the probe counter.\<close>
lemma full_three_advance: "mpsc_after (replicate n (QPush v)) (full_three p) = full_three (p + of_nat n)"
  by (induction n arbitrary: p) (simp_all add: mpsc_after_def full_three_push algebra_simps)

lemma full_three_pop:
  "snd (pop_ready (full_three p)) =
     (full_three p)\<lparr>mpsc_cells := take 2 (mpsc_cells (full_three p)) @ [\<lparr>storage = None, cell_state = kFree, cell_ticket = 2\<rparr>]\<rparr>"
  by (simp add: pop_ready_def full_three_def oldest_ready_index_def mpsc_capacity_def Let_def mpsc_set_cell_def)

lemma full_three_wrapped: "\<not> fst (push_impl (snd (pop_ready (full_three 4294967295))) v)"
proof -
  let ?three = "Suc (Suc (Suc 0))"
  have "probe_index ?three 4294967295 0 = 0" "probe_index ?three 4294967295 (Suc 0) = 0"
    "probe_index ?three 4294967295 (Suc (Suc 0)) = Suc 0"
    by (simp_all add: probe_index_def)
  then show ?thesis
    by (subst full_three_pop) (simp add: full_three_def push_impl_find mpsc_capacity_def upt_rec)
qed

text \<open>
  C26. For a capacity that does not divide the range of the probe counter the scan can
  miss a cell when the counter wraps: some sequence of pushes and pops on a queue of three
  cells, used by one thread, ends with the counter at its largest value and cell 2 free; the
  indices probed are then 0, 0 and 1, and the push is refused. The class comment promises
  refusal only for a full queue, and the template accepts every non-zero capacity.
\<close>
theorem push_refused_with_free_cell:
  "\<exists>ops. mpsc_capacity (mpsc_after ops (mpsc_init 3)) = 3
     \<and> cell_state (mpsc_cells (mpsc_after ops (mpsc_init 3)) ! 2) = kFree
     \<and> \<not> fst (push_impl (mpsc_after ops (mpsc_init 3)) (v :: nat))"
proof -
  define n :: nat where "n = 4294967290"
  then have n: "of_nat n = (4294967290 :: u32)" by simp
  let ?ops = "[QPush 0, QPush 1, QPush 2, QPop, QPop, QPush 3, QPush 4] @ replicate n (QPush v) @ [QPop]"
  have "mpsc_after (xs @ ys) q = mpsc_after ys (mpsc_after xs q)" for xs ys and q :: "nat BoundedMpscQueue"
    by (simp add: mpsc_after_def)
  then have "mpsc_after ?ops (mpsc_init 3) = snd (pop_ready (full_three (5 + of_nat n)))"
    using full_three_reached full_three_advance [of n v 5] by (simp add: mpsc_after_def)
  then have "mpsc_after ?ops (mpsc_init 3) = snd (pop_ready (full_three 4294967295))" using n by simp
  then show ?thesis using full_three_wrapped [of v]
    by (intro exI [of _ ?ops]) (simp add: full_three_pop mpsc_capacity_def, simp add: full_three_def)
qed

end
