(* ===== verification/Event_Pool.thy ===== *)
theory Event_Pool
  imports Coact_Config
begin

text \<open>
  Events, the pool registry (event.hpp), the fixed-capacity event pool, the
  reference count operations and the two reclaim strategies (pool.hpp).

  \<^item> Memory holds one 32-bit word per block address. A live block keeps its
    \<^verbatim>\<open>Event\<close> header in that word (signal in bits 0-15, pool id in bits 16-23,
    reference count in bits 24-31, the little-endian layout of the struct); a
    free block keeps the free-list \<^verbatim>\<open>next\<close> index in the same word, as the code
    does with \<^verbatim>\<open>memcpy\<close>.
  \<^item> Addresses are natural numbers that do not wrap, 0 is the null pointer, and a
    pool object is named by a number, which the registry stores. Two headers are
    the same word or independent: a partial overlap cannot be expressed.
  \<^item> Every read-modify-write of a pool runs inside its critical section. A
    weak compare-exchange that fails spuriously there retries with the values it
    read before, so it is modelled by its successful attempt.
\<close>

section \<open>Event headers\<close>

record Event =
  signal :: u16
  ev_pool_id :: u8
  ref_ctr :: u8

definition event_of_word :: "u32 \<Rightarrow> Event" where
  "event_of_word w = \<lparr>signal = ucast w, ev_pool_id = ucast (drop_bit 16 w), ref_ctr = ucast (drop_bit 24 w)\<rparr>"

definition word_of_event :: "Event \<Rightarrow> u32" where
  "word_of_event e = ucast (signal e) OR push_bit 16 (ucast (ev_pool_id e)) OR push_bit 24 (ucast (ref_ctr e))"

section \<open>Packed free-list head\<close>

definition pool_index_invalid :: u32 where "pool_index_invalid = 0xFFFF"

definition kReclaimBatchCap :: u16 where "kReclaimBatchCap = 16"

definition kMaxEventPools :: u8 where "kMaxEventPools = 16"

definition pool_pack_head :: "u32 \<Rightarrow> u32 \<Rightarrow> u32" where
  "pool_pack_head index tag = push_bit 16 (tag AND 0xFFFF) OR (index AND 0xFFFF)"

definition pool_head_index :: "u32 \<Rightarrow> u32" where
  "pool_head_index head = head AND 0xFFFF"

definition pool_head_tag :: "u32 \<Rightarrow> u32" where
  "pool_head_tag head = drop_bit 16 head AND 0xFFFF"

definition pool_block_base :: "nat \<Rightarrow> u32 \<Rightarrow> u32 \<Rightarrow> nat" where
  "pool_block_base base index stride = base + unat index * unat stride"

text \<open>Rounding up to a power of two, by the mask the code uses.\<close>
definition align_up :: "nat \<Rightarrow> nat \<Rightarrow> nat" where
  "align_up align x = nat (int (x + align - 1) AND NOT (int (align - 1)))"

definition pool_block_align :: "nat \<Rightarrow> nat \<Rightarrow> nat" where
  "pool_block_align align sz = align_up align sz"

definition reclaimer_pool_capacity :: "Config \<Rightarrow> u16" where
  "reclaimer_pool_capacity cfg =
     (let batch = ucast (kBatchSizeMax cfg) :: u16; pools = ucast kMaxEventPools :: u16
      in if batch < pools then batch else pools)"

section \<open>Pools and the registry\<close>

text \<open>
  The fields of \<^verbatim>\<open>PoolRecord\<close> and of the \<^verbatim>\<open>EventPool\<close> that owns it; the last
  field is the synchronization profile, a template argument.
\<close>
record EventPool =
  free_head :: u32
  base :: nat
  block_size :: u16
  capacity :: u16
  used :: u16
  high_watermark :: u16
  pool_id :: u8
  cs_bound :: bool
  single_core :: bool

record PoolWorld =
  mem :: "nat \<Rightarrow> u32"
  registry :: "nat option list"
  pools :: "nat \<Rightarrow> EventPool"

definition event_at :: "PoolWorld \<Rightarrow> nat \<Rightarrow> Event" where
  "event_at w e = event_of_word (mem w e)"

definition set_event :: "nat \<Rightarrow> Event \<Rightarrow> PoolWorld \<Rightarrow> PoolWorld" where
  "set_event a e w = w\<lparr>mem := (mem w)(a := word_of_event e)\<rparr>"

definition upd_pool :: "nat \<Rightarrow> (EventPool \<Rightarrow> EventPool) \<Rightarrow> PoolWorld \<Rightarrow> PoolWorld" where
  "upd_pool r f w = w\<lparr>pools := (pools w)(r := f (pools w r))\<rparr>"

definition pool_record :: "PoolWorld \<Rightarrow> u8 \<Rightarrow> nat option" where
  "pool_record w pid =
     (if pid = 0 \<or> pid > kMaxEventPools then None else registry w ! (unat pid - 1))"

text \<open>The first loop looks for the record itself, the second for an empty slot.\<close>
fun registry_find :: "nat option \<Rightarrow> nat option list \<Rightarrow> nat \<Rightarrow> nat option" where
  "registry_find x [] i = None"
| "registry_find x (y # ys) i = (if y = x then Some i else registry_find x ys (Suc i))"

definition register_pool :: "nat \<Rightarrow> PoolWorld \<Rightarrow> u8 \<times> PoolWorld" where
  "register_pool r w =
     (case registry_find (Some r) (registry w) 0 of
        Some i \<Rightarrow> (of_nat (i + 1), w)
      | None \<Rightarrow>
         (case registry_find None (registry w) 0 of
            Some i \<Rightarrow> (of_nat (i + 1), w\<lparr>registry := (registry w)[i := Some r]\<rparr>)
          | None \<Rightarrow> (0, w)))"

definition unregister_pool :: "nat \<Rightarrow> PoolWorld \<Rightarrow> PoolWorld" where
  "unregister_pool r w =
     (case registry_find (Some r) (registry w) 0 of
        Some i \<Rightarrow> w\<lparr>registry := (registry w)[i := None]\<rparr>
      | None \<Rightarrow> w)"

definition pool_shutdown :: "nat \<Rightarrow> PoolWorld \<Rightarrow> PoolWorld" where
  "pool_shutdown self w =
     (if pool_id (pools w self) \<noteq> 0
      then upd_pool self (\<lambda>p. p\<lparr>pool_id := 0\<rparr>) (unregister_pool self w)
      else w)"

section \<open>Free-list access\<close>

definition block_addr :: "EventPool \<Rightarrow> u32 \<Rightarrow> nat" where
  "block_addr p idx = pool_block_base (base p) idx (ucast (block_size p))"

definition load_next :: "PoolWorld \<Rightarrow> EventPool \<Rightarrow> u32 \<Rightarrow> u32" where
  "load_next w p idx = mem w (block_addr p idx)"

definition store_next :: "nat \<Rightarrow> u32 \<Rightarrow> PoolWorld \<Rightarrow> PoolWorld" where
  "store_next addr nxt w = w\<lparr>mem := (mem w)(addr := nxt)\<rparr>"

section \<open>Initialisation\<close>

text \<open>The template arguments of a pool instance.\<close>
record PoolParams =
  BlockSize :: u16
  Capacity :: u16
  SingleCore :: bool
  BlockAlign :: nat

text \<open>Chaining the blocks by index, the last one to the invalid index.\<close>
fun init_chain :: "nat \<Rightarrow> u32 \<Rightarrow> nat \<Rightarrow> nat \<Rightarrow> (nat \<Rightarrow> u32) \<Rightarrow> (nat \<Rightarrow> u32)" where
  "init_chain bgn stride i 0 m = m"
| "init_chain bgn stride i (Suc left) m =
     init_chain bgn stride (Suc i) left
       (m(pool_block_base bgn (of_nat i) stride :=
            (if 0 < left then of_nat (i + 1) else pool_index_invalid)))"

definition pool_init :: "PoolParams \<Rightarrow> nat \<Rightarrow> nat \<Rightarrow> nat \<Rightarrow> bool \<Rightarrow> PoolWorld \<Rightarrow> bool \<times> PoolWorld" where
  "pool_init prm self raw_base bytes cs_ok w =
     (if pool_id (pools w self) \<noteq> 0 \<or> raw_base = 0 \<or> \<not> cs_ok then (False, w)
      else
        let stride = pool_block_align (BlockAlign prm) (unat (BlockSize prm));
            bgn = align_up (BlockAlign prm) raw_base;
            lim = raw_base + bytes;
            count = (if bgn \<le> lim then min ((lim - bgn) div stride) (unat (Capacity prm)) else 0)
        in if count = 0 then (False, w)
           else
             let w1 = w\<lparr>mem := init_chain bgn (of_nat stride) 0 count (mem w)\<rparr>;
                 w2 = upd_pool self (\<lambda>p. p\<lparr>free_head := pool_pack_head 0 0, base := bgn,
                        block_size := of_nat stride, capacity := of_nat count, used := 0,
                        high_watermark := 0, cs_bound := True, single_core := SingleCore prm\<rparr>) w1
             in case register_pool self w2 of
                  (pid, w3) \<Rightarrow> (pid \<noteq> 0, upd_pool self (\<lambda>p. p\<lparr>pool_id := pid\<rparr>) w3))"

section \<open>Allocation\<close>

definition bump_watermark :: "u16 \<Rightarrow> EventPool \<Rightarrow> EventPool" where
  "bump_watermark u p = (if u > high_watermark p then p\<lparr>high_watermark := u\<rparr> else p)"

text \<open>The plain pop of the single-core profile.\<close>
definition claim_single_core :: "nat \<Rightarrow> u16 \<Rightarrow> PoolWorld \<Rightarrow> u32 \<times> PoolWorld" where
  "claim_single_core self margin w =
     (let p = pools w self; idx = pool_head_index (free_head p) in
      if pool_index_invalid \<noteq> idx \<and> unat (used p) + unat margin < unat (capacity p)
      then let u = used p + 1
           in (idx, upd_pool self (\<lambda>p. bump_watermark u
                 (p\<lparr>free_head := pool_pack_head (load_next w p idx) 0, used := u\<rparr>)) w)
      else (pool_index_invalid, w))"

text \<open>The tagged pop of the host profile: reserve a unit of \<^verbatim>\<open>used\<close>, then pop, or undo.\<close>
definition claim_smp :: "nat \<Rightarrow> u16 \<Rightarrow> PoolWorld \<Rightarrow> u32 \<times> PoolWorld" where
  "claim_smp self margin w =
     (let p = pools w self in
      if unat (used p) + unat margin < unat (capacity p)
      then let next_used = used p + 1;
               head = free_head p; idx = pool_head_index head
           in if pool_index_invalid = idx
              then (pool_index_invalid, upd_pool self (\<lambda>p. p\<lparr>used := next_used - 1\<rparr>) w)
              else (idx, upd_pool self (\<lambda>p. bump_watermark next_used
                     (p\<lparr>free_head := pool_pack_head (load_next w p idx) (pool_head_tag head + 1),
                        used := next_used\<rparr>)) w)
      else (pool_index_invalid, w))"

definition claim_raw_block :: "nat \<Rightarrow> u16 \<Rightarrow> PoolWorld \<Rightarrow> nat option \<times> PoolWorld" where
  "claim_raw_block self margin w =
     (let p = pools w self in
      if pool_id p = 0 \<or> capacity p = 0 \<or> \<not> cs_bound p then (None, w)
      else case (if single_core p then claim_single_core self margin w else claim_smp self margin w) of
             (claimed, w1) \<Rightarrow>
               (if pool_index_invalid \<noteq> claimed then Some (block_addr (pools w1 self) claimed) else None, w1))"

definition alloc_with_margin :: "nat \<Rightarrow> u16 \<Rightarrow> u16 \<Rightarrow> PoolWorld \<Rightarrow> nat option \<times> PoolWorld" where
  "alloc_with_margin self sig margin w =
     (case claim_raw_block self margin w of
        (None, w1) \<Rightarrow> (None, w1)
      | (Some block, w1) \<Rightarrow>
          (Some block, set_event block \<lparr>signal = sig, ev_pool_id = pool_id (pools w1 self), ref_ctr = 1\<rparr> w1))"

definition alloc :: "nat \<Rightarrow> u16 \<Rightarrow> PoolWorld \<Rightarrow> nat option \<times> PoolWorld" where
  "alloc self sig w = alloc_with_margin self sig 0 w"

section \<open>Reference counts and reclaim\<close>

definition event_ref_inc :: "nat \<Rightarrow> PoolWorld \<Rightarrow> PoolWorld option" where
  "event_ref_inc e w = do {
     coact_assert (e \<noteq> 0);
     if ev_pool_id (event_at w e) \<noteq> 0 then do {
       coact_assert (pool_record w (ev_pool_id (event_at w e)) \<noteq> None);
       coact_assert (ref_ctr (event_at w e) < 0xFF);
       Some (set_event e ((event_at w e)\<lparr>ref_ctr := ref_ctr (event_at w e) + 1\<rparr>) w)
     } else Some w
   }"

text \<open>\<^verbatim>\<open>EventPool::reclaim\<close>: the pool is found through the event's own pool id.\<close>
definition reclaim :: "nat \<Rightarrow> PoolWorld \<Rightarrow> PoolWorld option" where
  "reclaim e w = do {
     coact_assert (e \<noteq> 0);
     r \<leftarrow> pool_record w (ev_pool_id (event_at w e));
     let p = pools w r;
     coact_assert (e \<ge> base p);
     let idx = of_nat ((e - base p) div unat (block_size p));
     let w1 = store_next e (pool_head_index (free_head p)) w;
     let tag = (if single_core p then 0 else pool_head_tag (free_head p) + 1);
     Some (upd_pool r (\<lambda>p. p\<lparr>free_head := pool_pack_head idx tag, used := used p - 1\<rparr>) w1)
   }"

definition event_gc :: "nat \<Rightarrow> PoolWorld \<Rightarrow> PoolWorld option" where
  "event_gc e w = do {
     coact_assert (e \<noteq> 0);
     if ev_pool_id (event_at w e) = 0 then Some w
     else do {
       coact_assert (pool_record w (ev_pool_id (event_at w e)) \<noteq> None);
       coact_assert (ref_ctr (event_at w e) \<noteq> 0);
       let w1 = set_event e ((event_at w e)\<lparr>ref_ctr := ref_ctr (event_at w e) - 1\<rparr>) w;
       if ref_ctr (event_at w1 e) = 0 then reclaim e w1 else Some w1
     }
   }"

text \<open>Splicing a chain linked by the caller onto the free list.\<close>
definition pool_reclaim_chain :: "nat \<Rightarrow> u32 \<Rightarrow> u32 \<Rightarrow> u16 \<Rightarrow> PoolWorld \<Rightarrow> PoolWorld" where
  "pool_reclaim_chain r fst_idx lst_idx n w =
     (let p = pools w r; head = free_head p;
          w1 = store_next (block_addr p lst_idx) (pool_head_index head) w
      in upd_pool r (\<lambda>p. p\<lparr>free_head := pool_pack_head fst_idx (pool_head_tag head + 1),
                          used := used p - n\<rparr>) w1)"

section \<open>The batched reclaimer\<close>

record Pending =
  pd_rec :: nat
  pd_first :: u32
  pd_last :: u32
  pd_count :: u16

text \<open>The per-batch table has \<^verbatim>\<open>kMaxPending\<close> entries, of which the active ones are in use.\<close>
record ReclaimBatcher =
  pending :: "Pending list"
  active_count :: u8

definition batcher_init :: "u16 \<Rightarrow> ReclaimBatcher" where
  "batcher_init max_pending =
     \<lparr>pending = replicate (unat max_pending) \<lparr>pd_rec = 0, pd_first = 0, pd_last = 0, pd_count = 0\<rparr>, active_count = 0\<rparr>"

definition batcher_begin :: "ReclaimBatcher \<Rightarrow> ReclaimBatcher" where
  "batcher_begin b = b\<lparr>active_count := 0\<rparr>"

fun flush_loop :: "nat \<Rightarrow> nat \<Rightarrow> ReclaimBatcher \<Rightarrow> PoolWorld \<Rightarrow> ReclaimBatcher \<times> PoolWorld" where
  "flush_loop i 0 b w = (b, w)"
| "flush_loop i (Suc n) b w =
     (let p = pending b ! i in
      if pd_count p > 0
      then flush_loop (Suc i) n (b\<lparr>pending := (pending b)[i := p\<lparr>pd_count := 0\<rparr>]\<rparr>)
             (pool_reclaim_chain (pd_rec p) (pd_first p) (pd_last p) (pd_count p) w)
      else flush_loop (Suc i) n b w)"

definition batcher_flush :: "ReclaimBatcher \<Rightarrow> PoolWorld \<Rightarrow> ReclaimBatcher \<times> PoolWorld" where
  "batcher_flush b w =
     (case flush_loop 0 (unat (active_count b)) b w of (b1, w1) \<Rightarrow> (b1\<lparr>active_count := 0\<rparr>, w1))"

text \<open>The entry of a pool: an active one, a new one, or none when the table is full.\<close>
fun pending_scan :: "nat \<Rightarrow> Pending list \<Rightarrow> nat \<Rightarrow> nat \<Rightarrow> nat option" where
  "pending_scan r ps i 0 = None"
| "pending_scan r ps i (Suc n) = (if pd_rec (ps ! i) = r then Some i else pending_scan r ps (Suc i) n)"

definition pending_of :: "nat \<Rightarrow> ReclaimBatcher \<Rightarrow> nat option \<times> ReclaimBatcher" where
  "pending_of r b =
     (case pending_scan r (pending b) 0 (unat (active_count b)) of
        Some i \<Rightarrow> (Some i, b)
      | None \<Rightarrow>
          if unat (active_count b) \<ge> length (pending b) then (None, b)
          else let i = unat (active_count b)
               in (Some i, b\<lparr>pending := (pending b)[i := (pending b ! i)\<lparr>pd_rec := r, pd_count := 0\<rparr>],
                             active_count := active_count b + 1\<rparr>))"

text \<open>
  \<^verbatim>\<open>splice_locked\<close> has the body of \<^verbatim>\<open>pool_reclaim_chain\<close> without entering the
  critical section again.
\<close>
definition splice_locked :: "nat \<Rightarrow> u32 \<Rightarrow> u32 \<Rightarrow> u16 \<Rightarrow> PoolWorld \<Rightarrow> PoolWorld" where
  "splice_locked = pool_reclaim_chain"

text \<open>The part of a release after the last reference: link the block, or splice at once.\<close>
definition batcher_defer :: "nat \<Rightarrow> nat \<Rightarrow> u32 \<Rightarrow> ReclaimBatcher \<Rightarrow> PoolWorld \<Rightarrow> ReclaimBatcher \<times> PoolWorld" where
  "batcher_defer e r idx b w =
     (case pending_of r b of
        (None, b1) \<Rightarrow> (b1, splice_locked r idx idx 1 w)
      | (Some i, b1) \<Rightarrow>
          let q = pending b1 ! i;
              (q1, w1) = (if pd_count q = 0 then (q\<lparr>pd_first := idx, pd_last := idx\<rparr>, w)
                          else (q\<lparr>pd_first := idx\<rparr>, store_next e (pd_first q) w));
              q2 = q1\<lparr>pd_count := pd_count q1 + 1\<rparr>
          in if pd_count q2 \<ge> kReclaimBatchCap
             then (b1\<lparr>pending := (pending b1)[i := q2\<lparr>pd_count := 0\<rparr>]\<rparr>,
                   splice_locked (pd_rec q2) (pd_first q2) (pd_last q2) (pd_count q2) w1)
             else (b1\<lparr>pending := (pending b1)[i := q2]\<rparr>, w1))"

definition batcher_release :: "nat \<Rightarrow> ReclaimBatcher \<Rightarrow> PoolWorld \<Rightarrow> (ReclaimBatcher \<times> PoolWorld) option" where
  "batcher_release e b w = do {
     coact_assert (e \<noteq> 0);
     let ev = event_at w e;
     if ev_pool_id ev = 0 then Some (b, w)
     else do {
       r \<leftarrow> pool_record w (ev_pool_id ev);
       let w1 = (if ref_ctr ev > 0 then set_event e (ev\<lparr>ref_ctr := ref_ctr ev - 1\<rparr>) w else w);
       if \<not> (ref_ctr ev > 0 \<and> ref_ctr ev - 1 = 0) then Some (b, w1)
       else do {
         let p = pools w1 r;
         coact_assert (e \<ge> base p);
         let idx = of_nat ((e - base p) div unat (block_size p));
         Some (batcher_defer e r idx b w1)
       }
     }
   }"

end
