(* ===== verification/Pool_Invariant.thy ===== *)
theory Pool_Invariant
  imports Event_Pool
begin

text \<open>
  Correctness of the event pool: word-level facts of the packed head and of the
  event header, the free-list invariant of one pool, the invariant of the whole
  registry, and the abstract view of a pool world as a partial map from addresses
  to live event headers, on which allocation inserts, \<^verbatim>\<open>event_ref_inc\<close> and
  \<^verbatim>\<open>event_gc\<close> update, and the last release deletes.
\<close>

section \<open>Words\<close>

lemma and_ffff [word_facts]: "(x :: u32) AND 0xFFFF = take_bit 16 x"
  by (simp add: take_bit_eq_mask mask_eq_exp_minus_1)

lemma unat_and_ffff: "unat ((x :: u32) AND 0xFFFF) = unat x mod 65536"
  by (simp add: and_ffff unsigned_take_bit_eq take_bit_eq_mod [where 'a = nat])

lemma and_ffff_small: "unat (x :: u32) < 65536 \<Longrightarrow> x AND 0xFFFF = x"
  by (simp add: word_unat_eq_iff unat_and_ffff)

lemma head_index_pack [simp]: "pool_head_index (pool_pack_head i t) = i AND 0xFFFF"
  unfolding pool_head_index_def pool_pack_head_def
  by (rule bit_eqI) (auto simp: bit_simps and_ffff)

lemma head_tag_pack [simp]: "pool_head_tag (pool_pack_head i t) = t AND 0xFFFF"
  unfolding pool_head_tag_def pool_pack_head_def
  by (rule bit_eqI) (auto simp: bit_simps and_ffff)

lemma event_of_word_of_event [simp]: "event_of_word (word_of_event e) = e"
proof (cases e)
  case (fields s p c)
  show ?thesis unfolding fields event_of_word_def word_of_event_def
    by (simp; intro conjI; rule bit_eqI; auto simp: bit_simps dest: bit_imp_le_length)
qed

lemma word_of_event_of_word [simp]: "word_of_event (event_of_word w) = w"
proof (rule bit_eqI)
  fix n
  show "bit (word_of_event (event_of_word w)) n = bit w n"
    by (cases "n < 16"; cases "n < 24")
       (auto simp: event_of_word_def word_of_event_def bit_simps dest: bit_imp_le_length)
qed

lemma align_up_pow2: "align_up (2 ^ k) x = (x + 2 ^ k - 1) div 2 ^ k * 2 ^ k"
proof -
  have "int (2 ^ k - 1) = mask k" by (simp add: mask_eq_exp_minus_1 of_nat_diff)
  then have "align_up (2 ^ k) x = nat (int (x + 2 ^ k - 1) AND NOT (mask k))"
    by (simp add: align_up_def)
  also have "int (x + 2 ^ k - 1) AND NOT (mask k) = push_bit k (drop_bit k (int (x + 2 ^ k - 1)))"
    by (rule bit_eqI) (auto simp: bit_simps)
  also have "\<dots> = int ((x + 2 ^ k - 1) div 2 ^ k * 2 ^ k)"
    by (simp add: push_bit_eq_mult drop_bit_eq_div zdiv_int)
  finally show ?thesis by (simp only: nat_int)
qed

lemma align_up_bounds:
  assumes "align = 2 ^ k"
  shows "x \<le> align_up align x" and "align_up align x < x + align" and "align dvd align_up align x"
proof -
  let ?y = "x + align - 1"
  have eq: "align_up align x = ?y div align * align" using align_up_pow2 [of k x] assms by simp
  have pos: "0 < align" using assms by simp
  have "?y div align * align + ?y mod align = ?y" "?y mod align < align"
    using pos by simp_all
  then show "x \<le> align_up align x" "align_up align x < x + align"
    unfolding eq using pos by linarith+
  show "align dvd align_up align x" unfolding eq by simp
qed

lemma last_notin_butlast: "distinct xs \<Longrightarrow> xs \<noteq> [] \<Longrightarrow> last xs \<notin> set (butlast xs)"
  by (induction xs) (auto split: if_splits)

section \<open>One pool\<close>

definition blk :: "EventPool \<Rightarrow> nat \<Rightarrow> nat" where
  "blk p i = base p + i * unat (block_size p)"

lemma block_addr_blk: "block_addr p idx = blk p (unat idx)"
  by (simp add: block_addr_def pool_block_base_def blk_def unat_ucast_up)

definition pool_wf :: "EventPool \<Rightarrow> bool" where
  "pool_wf p \<longleftrightarrow> 0 < base p \<and> 4 \<le> unat (block_size p) \<and> 0 < unat (capacity p)
     \<and> unat (capacity p) < 0xFFFF \<and> pool_id p \<noteq> 0 \<and> cs_bound p"

lemma blk_inj: "\<lbrakk>pool_wf p; blk p i = blk p j\<rbrakk> \<Longrightarrow> i = j"
  by (auto simp: pool_wf_def blk_def)

lemma blk_eq_iff: "pool_wf p \<Longrightarrow> blk p i = blk p j \<longleftrightarrow> i = j"
  using blk_inj by blast

lemma blk_pos: "pool_wf p \<Longrightarrow> 0 < blk p i \<and> base p \<le> blk p i"
  by (simp add: pool_wf_def blk_def)

lemma blk_index: "pool_wf p \<Longrightarrow> (blk p i - base p) div unat (block_size p) = i"
  by (auto simp: pool_wf_def blk_def)

text \<open>The free list from an index, and a caller-linked segment between two indices.\<close>
fun free_chain :: "(nat \<Rightarrow> u32) \<Rightarrow> EventPool \<Rightarrow> u32 \<Rightarrow> nat list \<Rightarrow> bool" where
  "free_chain m p idx [] \<longleftrightarrow> idx = pool_index_invalid"
| "free_chain m p idx (i # is) \<longleftrightarrow> i < unat (capacity p) \<and> idx = of_nat i \<and> free_chain m p (m (blk p i)) is"

fun segment :: "(nat \<Rightarrow> u32) \<Rightarrow> EventPool \<Rightarrow> u32 \<Rightarrow> u32 \<Rightarrow> nat list \<Rightarrow> bool" where
  "segment m p f l [] \<longleftrightarrow> False"
| "segment m p f l [i] \<longleftrightarrow> i < unat (capacity p) \<and> f = of_nat i \<and> l = of_nat i"
| "segment m p f l (i # j # is) \<longleftrightarrow>
     i < unat (capacity p) \<and> f = of_nat i \<and> segment m p (m (blk p i)) l (j # is)"

definition live_word :: "EventPool \<Rightarrow> u32 \<Rightarrow> bool" where
  "live_word p v \<longleftrightarrow> ev_pool_id (event_of_word v) = pool_id p \<and> ref_ctr (event_of_word v) \<noteq> 0"

text \<open>
  The invariant of a pool with free blocks \<^verbatim>\<open>fr\<close> (in list order) and blocks
  \<^verbatim>\<open>pd\<close> that were released to a batched reclaimer and not yet spliced back.
\<close>
definition pool_state :: "(nat \<Rightarrow> u32) \<Rightarrow> EventPool \<Rightarrow> nat list \<Rightarrow> nat list \<Rightarrow> bool" where
  "pool_state m p fr pd \<longleftrightarrow> pool_wf p
     \<and> free_chain m p (pool_head_index (free_head p)) fr
     \<and> distinct (fr @ pd) \<and> (\<forall>i \<in> set pd. i < unat (capacity p))
     \<and> unat (used p) + length fr = unat (capacity p)
     \<and> (\<forall>i < unat (capacity p). i \<notin> set fr \<and> i \<notin> set pd \<longrightarrow> live_word p (m (blk p i)))"

lemma free_chain_bound: "free_chain m p idx fr \<Longrightarrow> \<forall>i \<in> set fr. i < unat (capacity p)"
  by (induction fr arbitrary: idx) auto

lemma free_chain_cong:
  assumes "\<forall>i \<in> set fr. m' (blk p i) = m (blk p i)"
    and "base p' = base p" "block_size p' = block_size p" "capacity p' = capacity p"
  shows "free_chain m' p' idx fr = free_chain m p idx fr"
proof -
  have "blk p' = blk p" using assms(2,3) by (simp add: blk_def fun_eq_iff)
  then show ?thesis using assms(1,4) by (induction fr arbitrary: idx) auto
qed

lemma free_chain_write:
  "\<lbrakk>pool_wf p; i \<notin> set fr\<rbrakk> \<Longrightarrow> free_chain (m(blk p i := v)) p idx fr = free_chain m p idx fr"
  by (rule free_chain_cong) (auto simp: blk_eq_iff)

lemma free_chain_small:
  "\<lbrakk>pool_wf p; free_chain m p idx fr\<rbrakk> \<Longrightarrow> unat idx < 65536 \<and> idx AND 0xFFFF = idx"
  by (cases fr) (auto simp: pool_index_invalid_def pool_wf_def unat_of_nat_small intro!: and_ffff_small)

lemma free_chain_index:
  assumes "pool_wf p" and "free_chain m p idx fr"
  shows "idx \<noteq> pool_index_invalid \<longleftrightarrow> fr \<noteq> []"
    and "fr \<noteq> [] \<Longrightarrow> unat idx = hd fr \<and> hd fr < unat (capacity p)"
proof -
  have "of_nat i \<noteq> pool_index_invalid" if "i < unat (capacity p)" for i
    using that assms(1) unat_of_nat_small [of i, where 'a = 32]
    by (auto simp: pool_index_invalid_def pool_wf_def)
  then show "idx \<noteq> pool_index_invalid \<longleftrightarrow> fr \<noteq> []" using assms(2) by (cases fr) auto
  show "fr \<noteq> [] \<Longrightarrow> unat idx = hd fr \<and> hd fr < unat (capacity p)"
    using assms by (cases fr) (auto simp: unat_of_nat_small pool_wf_def)
qed

lemma segment_cong:
  assumes "\<forall>i \<in> set (butlast xs). m' (blk p i) = m (blk p i)"
    and "base p' = base p" "block_size p' = block_size p" "capacity p' = capacity p"
  shows "segment m' p' f l xs = segment m p f l xs"
proof -
  have "blk p' = blk p" using assms(2,3) by (simp add: blk_def fun_eq_iff)
  then show ?thesis using assms(1,4) by (induction m p f l xs rule: segment.induct) auto
qed

lemma segment_write:
  "\<lbrakk>pool_wf p; i \<notin> set (butlast xs)\<rbrakk> \<Longrightarrow> segment (m(blk p i := v)) p f l xs = segment m p f l xs"
  by (rule segment_cong) (auto simp: blk_eq_iff)

lemma segment_last: "segment m p f l xs \<Longrightarrow> xs \<noteq> [] \<and> l = of_nat (last xs) \<and> last xs < unat (capacity p)
    \<and> f = of_nat (hd xs)"
  by (induction m p f l xs rule: segment.induct) auto

lemma segment_append_chain:
  assumes "segment m p f l xs" and "free_chain m p (m (blk p (last xs))) fr"
  shows "free_chain m p f (xs @ fr)"
  using assms by (induction m p f l xs rule: segment.induct) auto

subsection \<open>Steps on one pool\<close>

lemma pool_stateD:
  assumes "pool_state m p fr pd"
  shows "pool_wf p" "free_chain m p (pool_head_index (free_head p)) fr" "distinct (fr @ pd)"
    "\<forall>i \<in> set pd. i < unat (capacity p)" "\<forall>i \<in> set fr. i < unat (capacity p)"
    "unat (used p) + length fr = unat (capacity p)"
    "\<lbrakk>i < unat (capacity p); i \<notin> set fr; i \<notin> set pd\<rbrakk> \<Longrightarrow> live_word p (m (blk p i))"
  using assms free_chain_bound [of m p _ fr] by (auto simp: pool_state_def)

lemma pool_state_frame_imp:
  assumes "\<forall>i < unat (capacity p). m' (blk p i) = m (blk p i)" and st: "pool_state m p fr pd"
  shows "pool_state m' p fr pd"
proof -
  note D = pool_stateD [OF st]
  have "free_chain m' p (pool_head_index (free_head p)) fr"
    using D(2,5) assms(1) by (subst free_chain_cong [of fr m' p m p]) auto
  then show ?thesis using D assms(1) by (simp add: pool_state_def)
qed

lemma pool_state_frame:
  assumes "\<forall>i < unat (capacity p). m' (blk p i) = m (blk p i)"
  shows "pool_state m' p fr pd = pool_state m p fr pd"
  using pool_state_frame_imp [of p m' m] pool_state_frame_imp [of p m m'] assms by auto

text \<open>Writing the word of a block that is not in the free list.\<close>
lemma pool_state_write:
  assumes st: "pool_state m p fr pd" and i: "i < unat (capacity p)" "i \<notin> set fr"
    and v: "i \<in> set pd \<or> live_word p v"
  shows "pool_state (m(blk p i := v)) p fr pd"
proof -
  note D = pool_stateD [OF st]
  have ne: "blk p j \<noteq> blk p i" if "j \<noteq> i" for j using that blk_inj D(1) by blast
  have "free_chain (m(blk p i := v)) p (pool_head_index (free_head p)) fr"
    using D(1,2) i(2) by (simp add: free_chain_write)
  moreover have "live_word p ((m(blk p i := v)) (blk p j))"
    if "j < unat (capacity p)" "j \<notin> set fr" "j \<notin> set pd" for j
    using that D(7) [of j] ne [of j] v by (cases "j = i") auto
  ultimately show ?thesis using D by (simp add: pool_state_def)
qed

lemma pool_state_pend:
  assumes st: "pool_state m p fr pd" and i: "i < unat (capacity p)" "i \<notin> set fr" "i \<notin> set pd"
  shows "pool_state m p fr (i # pd)"
  using pool_stateD [OF st] i by (auto simp: pool_state_def)

lemma pool_state_take:
  assumes st: "pool_state m p (i # fr) pd" and v: "live_word p v"
    and p': "free_head p' = pool_pack_head (m (blk p i)) t" "used p' = used p + 1"
      "base p' = base p" "block_size p' = block_size p" "capacity p' = capacity p"
      "pool_id p' = pool_id p" "cs_bound p' = cs_bound p"
  shows "pool_state (m(blk p i := v)) p' fr pd"
proof -
  note D = pool_stateD [OF st]
  have blk: "blk p' = blk p" using p' by (simp add: blk_def fun_eq_iff)
  have wf: "pool_wf p'" using D(1) p' by (simp add: pool_wf_def)
  have ne: "blk p j \<noteq> blk p i" if "j \<noteq> i" for j using that blk_inj D(1) by blast
  have ch: "free_chain m p (m (blk p i)) fr" and ifr: "i \<notin> set fr" using D(2,3) by auto
  have "m (blk p i) AND 0xFFFF = m (blk p i)" using free_chain_small [OF D(1) ch] by simp
  then have "free_chain (m(blk p i := v)) p (pool_head_index (free_head p')) fr"
    using ch D(1) ifr p'(1) by (simp add: free_chain_write)
  then have "free_chain (m(blk p i := v)) p' (pool_head_index (free_head p')) fr"
    using p' free_chain_cong [of fr _ p _ p'] by blast
  moreover have "unat (used p') = unat (used p) + 1"
    using D(1,6) p'(2) by (simp add: unat_inc pool_wf_def)
  moreover have "live_word p' ((m(blk p i := v)) (blk p' j))"
    if "j < unat (capacity p)" "j \<notin> set fr" "j \<notin> set pd" for j
    using that D(7) [of j] ne [of j] v p'(6) by (cases "j = i") (auto simp: blk live_word_def)
  ultimately show ?thesis using D wf p' by (simp add: pool_state_def)
qed

text \<open>Splicing a segment of released blocks back; a single block is a segment of one.\<close>
lemma pool_state_splice:
  assumes st: "pool_state m p fr (xs @ pd)" and seg: "segment m p f l xs"
    and p': "free_head p' = pool_pack_head f t" "used p' = used p - of_nat (length xs)"
      "base p' = base p" "block_size p' = block_size p" "capacity p' = capacity p"
      "pool_id p' = pool_id p" "cs_bound p' = cs_bound p"
  shows "pool_state (m(blk p (last xs) := pool_head_index (free_head p))) p' (xs @ fr) pd"
proof -
  note D = pool_stateD [OF st]
  let ?m = "m(blk p (last xs) := pool_head_index (free_head p))"
  have L: "xs \<noteq> []" "f = of_nat (hd xs)" using segment_last [OF seg] by auto
  have blk: "blk p' = blk p" using p' by (simp add: blk_def fun_eq_iff)
  have dist: "distinct xs" "distinct fr" "set fr \<inter> set xs = {}" using D(3) by auto
  have lastnot: "last xs \<notin> set (butlast xs)" "last xs \<notin> set fr"
    using dist L(1) last_notin_butlast [of xs] last_in_set [of xs] by auto
  have "segment ?m p f l xs" using seg lastnot(1) D(1) by (simp add: segment_write)
  moreover have "free_chain ?m p (?m (blk p (last xs))) fr"
    using D(1,2) lastnot(2) by (simp add: free_chain_write)
  ultimately have c: "free_chain ?m p f (xs @ fr)" by (rule segment_append_chain)
  then have "free_chain ?m p (pool_head_index (free_head p')) (xs @ fr)"
    using free_chain_small [OF D(1) c] p'(1) by simp
  then have chain: "free_chain ?m p' (pool_head_index (free_head p')) (xs @ fr)"
    using p' free_chain_cong [of "xs @ fr" _ p _ p'] by blast
  have "card (set (fr @ xs)) \<le> card {..< unat (capacity p)}"
    using D(4,5) by (intro card_mono) auto
  then have len: "length fr + length xs \<le> unat (capacity p)"
    using distinct_card [of "fr @ xs"] dist by simp
  have lenw: "unat (of_nat (length xs) :: u16) = length xs"
    using len D(1) by (intro unat_of_nat_small) (simp add: pool_wf_def)
  have "unat (used p') + length (xs @ fr) = unat (capacity p)"
    using D(6) len lenw p'(2) by (simp add: unat_sub word_le_nat_alt)
  moreover have "live_word p' (?m (blk p' j))"
    if "j < unat (capacity p)" "j \<notin> set (xs @ fr)" "j \<notin> set pd" for j
  proof -
    have "j \<noteq> last xs" using that(2) L(1) by auto
    then show ?thesis using that D(1) D(7) [of j] p'(6) by (simp add: blk live_word_def blk_eq_iff)
  qed
  moreover have "pool_wf p'" using D(1) p' by (simp add: pool_wf_def)
  moreover have "distinct ((xs @ fr) @ pd)" using D(3) by auto
  ultimately show ?thesis using D(4) chain p'(5) by (simp add: pool_state_def)
qed

lemma pool_state_put:
  assumes st: "pool_state m p fr pd" and i: "i < unat (capacity p)" "i \<notin> set fr" "i \<notin> set pd"
    and p': "free_head p' = pool_pack_head (of_nat i) t" "used p' = used p - 1"
      "base p' = base p" "block_size p' = block_size p" "capacity p' = capacity p"
      "pool_id p' = pool_id p" "cs_bound p' = cs_bound p"
  shows "pool_state (m(blk p i := pool_head_index (free_head p))) p' (i # fr) pd"
  using pool_state_splice [of m p fr "[i]" pd "of_nat i" "of_nat i" p' t]
    pool_state_pend [OF st i] i(1) p' by simp

section \<open>All registered pools\<close>

definition registered :: "PoolWorld \<Rightarrow> nat \<Rightarrow> bool" where
  "registered w r \<longleftrightarrow> Some r \<in> set (registry w)"

definition world_inv :: "PoolWorld \<Rightarrow> (nat \<Rightarrow> nat list) \<Rightarrow> (nat \<Rightarrow> nat list) \<Rightarrow> bool" where
  "world_inv w F P \<longleftrightarrow> length (registry w) = 16
     \<and> (\<forall>r. registered w r \<longrightarrow> pool_record w (pool_id (pools w r)) = Some r
            \<and> pool_state (mem w) (pools w r) (F r) (P r))
     \<and> (\<forall>r s i j. registered w r \<and> registered w s \<and> r \<noteq> s
            \<and> i < unat (capacity (pools w r)) \<and> j < unat (capacity (pools w s))
            \<longrightarrow> blk (pools w r) i \<noteq> blk (pools w s) j)"

text \<open>Block i of pool r is in use by the application.\<close>
definition live :: "PoolWorld \<Rightarrow> (nat \<Rightarrow> nat list) \<Rightarrow> (nat \<Rightarrow> nat list) \<Rightarrow> nat \<Rightarrow> nat \<Rightarrow> nat \<Rightarrow> bool" where
  "live w F P e r i \<longleftrightarrow> registered w r \<and> i < unat (capacity (pools w r))
     \<and> i \<notin> set (F r) \<and> i \<notin> set (P r) \<and> e = blk (pools w r) i"

text \<open>The abstract state: the headers of the live events by address.\<close>
definition live_map :: "PoolWorld \<Rightarrow> (nat \<Rightarrow> nat list) \<Rightarrow> (nat \<Rightarrow> nat list) \<Rightarrow> nat \<Rightarrow> Event option" where
  "live_map w F P e = (if \<exists>r i. live w F P e r i then Some (event_at w e) else None)"

lemma world_invD:
  assumes "world_inv w F P" and "registered w r"
  shows "pool_record w (pool_id (pools w r)) = Some r" "pool_state (mem w) (pools w r) (F r) (P r)"
    "pool_wf (pools w r)"
  using assms pool_stateD(1) by (auto simp: world_inv_def)

lemma blk_unique:
  assumes "world_inv w F P" "registered w r" "registered w s"
    "i < unat (capacity (pools w r))" "j < unat (capacity (pools w s))"
    "blk (pools w r) i = blk (pools w s) j"
  shows "r = s \<and> i = j"
  using assms blk_inj [OF world_invD(3) [OF assms(1,2)]] by (metis world_inv_def)

lemma pool_record_registered:
  assumes "length (registry w) = 16" "pool_record w pid = Some r"
  shows "registered w r"
proof -
  have "unat pid \<le> 16" "0 < unat pid"
    using assms(2) by (auto simp: pool_record_def kMaxEventPools_def word_le_nat_alt word_less_nat_alt
        unat_gt_0 split: if_splits)
  then have "unat pid - 1 < length (registry w)" using assms(1) by simp
  then show ?thesis using assms(2) unfolding registered_def
    by (auto simp: pool_record_def split: if_splits) (metis nth_mem)
qed

lemma live_map_block:
  assumes "world_inv w F P" "registered w r" "i < unat (capacity (pools w r))"
  shows "live_map w F P (blk (pools w r) i)
    = (if i \<in> set (F r) \<union> set (P r) then None else Some (event_at w (blk (pools w r) i)))"
proof -
  have "(\<exists>s j. live w F P (blk (pools w r) i) s j) \<longleftrightarrow> i \<notin> set (F r) \<union> set (P r)"
    using blk_unique [OF assms(1,2) _ assms(3)] assms(2,3) unfolding live_def by (metis UnE UnI1 UnI2)
  then show ?thesis by (simp add: live_map_def)
qed

lemma live_map_None:
  assumes "\<And>r i. \<lbrakk>registered w r; i < unat (capacity (pools w r))\<rbrakk> \<Longrightarrow> e \<noteq> blk (pools w r) i"
  shows "live_map w F P e = None"
  using assms by (auto simp: live_map_def live_def)

lemma live_map_Some:
  assumes "live w F P e r i"
  shows "live_map w F P e = Some (event_at w e)"
  using assms by (auto simp: live_map_def)

lemma live_header:
  assumes "world_inv w F P" "live w F P e r i"
  shows "ev_pool_id (event_at w e) = pool_id (pools w r)" "ref_ctr (event_at w e) \<noteq> 0"
    "pool_record w (ev_pool_id (event_at w e)) = Some r" "pool_id (pools w r) \<noteq> 0" "e \<noteq> 0"
proof -
  have r: "registered w r" using assms(2) by (simp add: live_def)
  note W = world_invD [OF assms(1) r]
  have "live_word (pools w r) (mem w e)"
    using pool_stateD(7) [OF W(2), of i] assms(2) by (simp add: live_def)
  then show "ev_pool_id (event_at w e) = pool_id (pools w r)" "ref_ctr (event_at w e) \<noteq> 0"
    by (simp_all add: live_word_def event_at_def)
  then show "pool_record w (ev_pool_id (event_at w e)) = Some r" using W(1) by simp
  show "pool_id (pools w r) \<noteq> 0" using W(3) by (simp add: pool_wf_def)
  show "e \<noteq> 0" using blk_pos [OF W(3), of i] assms(2) by (simp add: live_def)
qed

text \<open>A world step that touches one registered pool only.\<close>
definition pool_update :: "PoolWorld \<Rightarrow> nat \<Rightarrow> PoolWorld \<Rightarrow> bool" where
  "pool_update w r w' \<longleftrightarrow> registry w' = registry w \<and> (\<forall>s. s \<noteq> r \<longrightarrow> pools w' s = pools w s)
     \<and> base (pools w' r) = base (pools w r) \<and> block_size (pools w' r) = block_size (pools w r)
     \<and> capacity (pools w' r) = capacity (pools w r) \<and> pool_id (pools w' r) = pool_id (pools w r)
     \<and> (\<forall>a. (\<forall>i < unat (capacity (pools w r)). a \<noteq> blk (pools w r) i) \<longrightarrow> mem w' a = mem w a)"

lemma pool_update_same:
  assumes "pool_update w r w'"
  shows "registered w' s = registered w s" "blk (pools w' s) i = blk (pools w s) i"
    "capacity (pools w' s) = capacity (pools w s)" "pool_id (pools w' s) = pool_id (pools w s)"
    "pool_record w' pid = pool_record w pid"
  using assms by (cases "s = r"; simp add: pool_update_def registered_def blk_def pool_record_def)+

lemma world_update:
  assumes inv: "world_inv w F P" and r: "registered w r" and up: "pool_update w r w'"
    and st: "pool_state (mem w') (pools w' r) fr pd"
  shows "world_inv w' (F(r := fr)) (P(r := pd))"
proof -
  note same = pool_update_same [OF up]
  have "pool_state (mem w') (pools w' s) ((F(r := fr)) s) ((P(r := pd)) s)" if s: "registered w s" for s
  proof (cases "s = r")
    case True
    then show ?thesis using st by simp
  next
    case False
    have "\<forall>i < unat (capacity (pools w s)). mem w' (blk (pools w s) i) = mem w (blk (pools w s) i)"
      using up False blk_unique [OF inv s r] unfolding pool_update_def by metis
    then have "pool_state (mem w') (pools w s) (F s) (P s)"
      using world_invD(2) [OF inv s] pool_state_frame by blast
    then show ?thesis using False up by (simp add: pool_update_def)
  qed
  then show ?thesis
    using inv up by (auto simp: world_inv_def same pool_update_def)
qed

lemma live_map_update_other:
  assumes up: "pool_update w r w'" and a: "\<forall>i < unat (capacity (pools w r)). a \<noteq> blk (pools w r) i"
  shows "live_map w' (F(r := fr)) (P(r := pd)) a = live_map w F P a"
proof -
  have "live w' (F(r := fr)) (P(r := pd)) a s j = live w F P a s j" for s j
    using a by (cases "s = r") (auto simp: live_def pool_update_same [OF up])
  moreover have "mem w' a = mem w a" using up a by (simp add: pool_update_def)
  ultimately show ?thesis by (simp add: live_map_def event_at_def)
qed

text \<open>
  The abstract effect of a step on one pool: when the used set and the words of
  the other blocks do not change, only the address of block i does.
\<close>
lemma live_map_step:
  assumes inv: "world_inv w F P" and r: "registered w r" and up: "pool_update w r w'"
    and st: "pool_state (mem w') (pools w' r) fr pd" and i: "i < unat (capacity (pools w r))"
    and sets: "(set fr \<union> set pd) - {i} = (set (F r) \<union> set (P r)) - {i}"
    and words: "\<And>j. \<lbrakk>j < unat (capacity (pools w r)); j \<noteq> i; j \<notin> set fr; j \<notin> set pd\<rbrakk>
        \<Longrightarrow> mem w' (blk (pools w r) j) = mem w (blk (pools w r) j)"
  shows "live_map w' (F(r := fr)) (P(r := pd))
    = (live_map w F P)(blk (pools w r) i :=
         (if i \<in> set fr \<union> set pd then None else Some (event_at w' (blk (pools w r) i))))"
proof
  fix a
  note inv' = world_update [OF inv r up st]
  note same = pool_update_same [OF up]
  show "live_map w' (F(r := fr)) (P(r := pd)) a
    = ((live_map w F P)(blk (pools w r) i :=
         (if i \<in> set fr \<union> set pd then None else Some (event_at w' (blk (pools w r) i))))) a"
  proof (cases "\<exists>j < unat (capacity (pools w r)). a = blk (pools w r) j")
    case False
    then show ?thesis using live_map_update_other [OF up, of a] i by auto
  next
    case True
    then obtain j where j: "j < unat (capacity (pools w r))" "a = blk (pools w r) j" by blast
    have "live_map w' (F(r := fr)) (P(r := pd)) a
        = (if j \<in> set fr \<union> set pd then None else Some (event_at w' a))"
      using live_map_block [OF inv', of r j] j r by (simp add: same)
    moreover have "live_map w F P a = (if j \<in> set (F r) \<union> set (P r) then None else Some (event_at w a))"
      using live_map_block [OF inv r j(1)] j(2) by simp
    moreover have "a = blk (pools w r) i \<longleftrightarrow> j = i"
      unfolding j(2) by (rule blk_eq_iff [OF world_invD(3) [OF inv r]])
    moreover have "j \<in> set fr \<union> set pd \<longleftrightarrow> j \<in> set (F r) \<union> set (P r)" if "j \<noteq> i"
      using sets that by (metis Diff_iff singletonD)
    moreover have "event_at w' a = event_at w a" if "j \<noteq> i" "j \<notin> set fr \<union> set pd"
      using words [OF j(1) that(1)] that(2) j(2) by (simp add: event_at_def)
    ultimately show ?thesis by (cases "j = i") simp_all
  qed
qed

end
