(* ===== verification/Pool_Refinement.thy ===== *)
theory Pool_Refinement
  imports Pool_Invariant
begin

text \<open>
  The pool operations refine operations on the map of live events: allocation
  inserts a fresh address, reference count operations change one header, the last
  release deletes the address. The batched reclaimer has the same abstract effect
  per release, and flushing it changes nothing abstractly while it returns every
  deferred block to the free lists.
\<close>

section \<open>Abstract operations\<close>

definition spec_gc :: "nat \<Rightarrow> (nat \<Rightarrow> Event option) \<Rightarrow> nat \<Rightarrow> Event option" where
  "spec_gc e L =
     (case L e of
        None \<Rightarrow> L
      | Some ev \<Rightarrow> if ref_ctr ev = 1 then L(e := None) else L(e := Some (ev\<lparr>ref_ctr := ref_ctr ev - 1\<rparr>)))"

definition spec_ref_inc :: "nat \<Rightarrow> (nat \<Rightarrow> Event option) \<Rightarrow> nat \<Rightarrow> Event option" where
  "spec_ref_inc e L =
     (case L e of None \<Rightarrow> L | Some ev \<Rightarrow> L(e := Some (ev\<lparr>ref_ctr := ref_ctr ev + 1\<rparr>)))"

text \<open>A static event: pool id zero, outside every registered pool.\<close>
definition static_event :: "PoolWorld \<Rightarrow> nat \<Rightarrow> bool" where
  "static_event w e \<longleftrightarrow> e \<noteq> 0 \<and> ev_pool_id (event_at w e) = 0
     \<and> (\<forall>r i. registered w r \<and> i < unat (capacity (pools w r)) \<longrightarrow> e \<noteq> blk (pools w r) i)"

text \<open>What a caller may hand to a reference count operation.\<close>
definition event_ok :: "PoolWorld \<Rightarrow> (nat \<Rightarrow> nat list) \<Rightarrow> (nat \<Rightarrow> nat list) \<Rightarrow> nat \<Rightarrow> bool" where
  "event_ok w F P e \<longleftrightarrow> static_event w e \<or> (\<exists>r i. live w F P e r i)"

lemma static_live_map: "static_event w e \<Longrightarrow> live_map w F P e = None"
  by (rule live_map_None) (auto simp: static_event_def)

lemma pool_update_static:
  assumes "pool_update w r w'" "registered w r" "static_event w e"
  shows "static_event w' e"
proof -
  have "mem w' e = mem w e" using assms by (auto simp: pool_update_def static_event_def)
  then show ?thesis using assms(3)
    by (simp add: static_event_def event_at_def pool_update_same [OF assms(1)])
qed

text \<open>The two world updates every operation is made of.\<close>
lemma pool_update_write:
  assumes "i < unat (capacity (pools w r))"
  shows "pool_update w r (set_event (blk (pools w r) i) ev w)"
    "pool_update w r (store_next (blk (pools w r) i) v w)"
  using assms by (auto simp: pool_update_def set_event_def store_next_def)

lemma pool_update_pool:
  assumes "pool_update w r w1"
    and "\<And>p. base (f p) = base p" "\<And>p. block_size (f p) = block_size p"
      "\<And>p. capacity (f p) = capacity p" "\<And>p. pool_id (f p) = pool_id p"
  shows "pool_update w r (upd_pool r f w1)"
  using assms by (auto simp: pool_update_def upd_pool_def)

lemma pool_update_trans:
  assumes "pool_update w r w1" "pool_update w1 r w2"
  shows "pool_update w r w2"
  using assms unfolding pool_update_def by (simp add: blk_def)

lemma pool_update_refl: "pool_update w r w"
  by (simp add: pool_update_def)

section \<open>Reference counts\<close>

lemma set_event_refines:
  assumes inv: "world_inv w F P" and lv: "live w F P e r i"
    and ev: "ev_pool_id ev = pool_id (pools w r)" "ref_ctr ev \<noteq> 0"
  shows "world_inv (set_event e ev w) F P"
    and "live_map (set_event e ev w) F P = (live_map w F P)(e := Some ev)"
proof -
  have L: "registered w r" "i < unat (capacity (pools w r))" "i \<notin> set (F r)" "i \<notin> set (P r)"
    "e = blk (pools w r) i" using lv by (auto simp: live_def)
  let ?w = "set_event e ev w"
  have up: "pool_update w r ?w" using pool_update_write(1) [OF L(2)] L(5) by simp
  have st: "pool_state (mem ?w) (pools ?w r) (F r) (P r)"
    using pool_state_write [OF world_invD(2) [OF inv L(1)] L(2,3), of "word_of_event ev"] ev L(5)
    by (simp add: set_event_def live_word_def)
  show "world_inv ?w F P" using world_update [OF inv L(1) up st] by simp
  have "live_map ?w (F(r := F r)) (P(r := P r)) = (live_map w F P)(blk (pools w r) i := Some ev)"
    by (subst live_map_step [OF inv L(1) up st L(2)])
       (use L blk_eq_iff [OF world_invD(3) [OF inv L(1)]] in \<open>auto simp: set_event_def event_at_def\<close>)
  then show "live_map ?w F P = (live_map w F P)(e := Some ev)" using L(5) by simp
qed

lemma event_ref_inc_refines:
  assumes inv: "world_inv w F P" and lv: "live w F P e r i" and c: "ref_ctr (event_at w e) < 0xFF"
  shows "\<exists>w'. event_ref_inc e w = Some w' \<and> world_inv w' F P
      \<and> live_map w' F P = spec_ref_inc e (live_map w F P) \<and> pool_update w r w'"
proof -
  note H = live_header [OF inv lv]
  let ?ev = "(event_at w e)\<lparr>ref_ctr := ref_ctr (event_at w e) + 1\<rparr>"
  have "unat (ref_ctr (event_at w e) + 1) = unat (ref_ctr (event_at w e)) + 1"
    using c by (intro unat_inc) (simp add: word_less_nat_alt)
  then have "ref_ctr ?ev \<noteq> 0" by (auto simp: word_unat_eq_iff)
  moreover have "event_ref_inc e w = Some (set_event e ?ev w)"
    using H c by (simp add: event_ref_inc_def)
  moreover have "pool_update w r (set_event e ?ev w)"
    using lv pool_update_write(1) [of i w r ?ev] by (simp add: live_def)
  ultimately show ?thesis
    using set_event_refines [OF inv lv, of ?ev] H(1) live_map_Some [OF lv]
    by (simp add: spec_ref_inc_def)
qed

lemma reclaim_refines:
  assumes inv: "world_inv w F P" and i: "registered w r" "i < unat (capacity (pools w r))"
      "i \<notin> set (F r)" "i \<notin> set (P r)"
    and e: "e = blk (pools w r) i" and wd: "w1 = set_event e ev w" "ev_pool_id ev = pool_id (pools w r)"
  shows "\<exists>w'. reclaim e w1 = Some w' \<and> world_inv w' (F(r := i # F r)) P
      \<and> live_map w' (F(r := i # F r)) P = (live_map w F P)(e := None) \<and> pool_update w r w'"
proof -
  note W = world_invD [OF inv i(1)]
  let ?p = "pools w r"
  let ?tag = "if single_core ?p then 0 else pool_head_tag (free_head ?p) + 1"
  define w' where "w' = upd_pool r (\<lambda>p. p\<lparr>free_head := pool_pack_head (of_nat i) ?tag, used := used p - 1\<rparr>)
      (store_next e (pool_head_index (free_head ?p)) w1)"
  have pools: "pools w1 = pools w" and reg: "registry w1 = registry w" by (simp_all add: wd set_event_def)
  have ev: "ev_pool_id (event_at w1 e) = pool_id ?p" by (simp add: wd set_event_def event_at_def)
  have "pool_record w1 (ev_pool_id (event_at w1 e)) = Some r"
    using W(1) ev by (simp add: pool_record_def reg split: if_splits)
  then have rc: "reclaim e w1 = Some w'"
    using blk_pos [OF W(3), of i] blk_index [OF W(3), of i]
    by (simp add: reclaim_def pools e Let_def w'_def)
  have mem: "mem w' = (mem w)(blk ?p i := pool_head_index (free_head ?p))"
    by (simp add: wd set_event_def store_next_def upd_pool_def w'_def e)
  have up: "pool_update w r w'" unfolding w'_def
    using i(2) e by (intro pool_update_pool pool_update_trans [OF pool_update_write(1) pool_update_write(2)])
       (auto simp: wd pool_update_def set_event_def store_next_def)
  have st: "pool_state (mem w') (pools w' r) (i # F r) (P r)" unfolding mem
    by (rule pool_state_put [OF W(2) i(2-4)]) (simp_all add: upd_pool_def store_next_def pools w'_def)
  have "live_map w' (F(r := i # F r)) (P(r := P r)) = (live_map w F P)(blk ?p i := None)"
    by (subst live_map_step [OF inv i(1) up st i(2)]) (use blk_eq_iff [OF W(3)] in \<open>auto simp: mem\<close>)
  then show ?thesis using rc world_update [OF inv i(1) up st] up e by simp
qed

lemma event_gc_refines:
  assumes inv: "world_inv w F P" and lv: "live w F P e r i"
  shows "\<exists>w' F'. event_gc e w = Some w' \<and> world_inv w' F' P
      \<and> live_map w' F' P = spec_gc e (live_map w F P) \<and> pool_update w r w'"
proof -
  note H = live_header [OF inv lv]
  have L: "registered w r" "i < unat (capacity (pools w r))" "i \<notin> set (F r)" "i \<notin> set (P r)"
    "e = blk (pools w r) i" using lv by (auto simp: live_def)
  let ?ev = "(event_at w e)\<lparr>ref_ctr := ref_ctr (event_at w e) - 1\<rparr>"
  have at: "event_at (set_event e ?ev w) e = ?ev" by (simp add: event_at_def set_event_def)
  have gc: "event_gc e w = (if ref_ctr ?ev = 0 then reclaim e (set_event e ?ev w)
      else Some (set_event e ?ev w))"
    using H at by (simp add: event_gc_def)
  show ?thesis
  proof (cases "ref_ctr (event_at w e) = 1")
    case True
    then show ?thesis
      using reclaim_refines [OF inv L refl, of ?ev] H(1) gc live_map_Some [OF lv]
      by (auto simp: spec_gc_def)
  next
    case False
    then have "ref_ctr ?ev \<noteq> 0" by simp
    moreover have "pool_update w r (set_event e ?ev w)"
      using pool_update_write(1) [OF L(2)] L(5) by simp
    ultimately show ?thesis
      using set_event_refines [OF inv lv, of ?ev] H(1) gc False live_map_Some [OF lv]
      by (auto simp: spec_gc_def)
  qed
qed

lemma event_gc_static: "static_event w e \<Longrightarrow> event_gc e w = Some w"
  by (simp add: event_gc_def static_event_def)

section \<open>Allocation\<close>

lemma used_less_free:
  assumes "pool_state m p fr pd"
  shows "unat (used p) < unat (capacity p) \<longleftrightarrow> fr \<noteq> []"
  using pool_stateD(6) [OF assms] by (cases fr) auto

lemma bump_watermark_simps [simp]:
  "free_head (bump_watermark u p) = free_head p" "used (bump_watermark u p) = used p"
  "base (bump_watermark u p) = base p" "block_size (bump_watermark u p) = block_size p"
  "capacity (bump_watermark u p) = capacity p" "pool_id (bump_watermark u p) = pool_id p"
  "cs_bound (bump_watermark u p) = cs_bound p" "single_core (bump_watermark u p) = single_core p"
  "high_watermark (bump_watermark u p) = max (high_watermark p) u"
  by (auto simp: bump_watermark_def max_def)

lemma claim_full:
  assumes "pool_wf (pools w r)" and "unat (capacity (pools w r)) \<le> unat (used (pools w r)) + unat margin"
  shows "claim_raw_block r margin w = (None, w)"
  using assms by (auto simp: claim_raw_block_def claim_single_core_def claim_smp_def Let_def)

text \<open>A successful claim pops the head of the free list, in either profile.\<close>
lemma claim_room:
  assumes st: "pool_state (mem w) (pools w r) (i # fr) pd"
    and room: "unat (used (pools w r)) + unat margin < unat (capacity (pools w r))"
  shows "\<exists>t. claim_raw_block r margin w = (Some (blk (pools w r) i),
      upd_pool r (\<lambda>p. bump_watermark (used p + 1)
        (p\<lparr>free_head := pool_pack_head (mem w (blk p i)) t, used := used p + 1\<rparr>)) w)"
proof -
  let ?p = "pools w r"
  note D = pool_stateD [OF st]
  have idx: "pool_head_index (free_head ?p) \<noteq> pool_index_invalid"
    and i: "unat (pool_head_index (free_head ?p)) = i"
    using free_chain_index [OF D(1,2)] by auto
  have nxt: "load_next w ?p (pool_head_index (free_head ?p)) = mem w (blk ?p i)"
    by (simp add: load_next_def block_addr_blk i)
  have "blk (p\<lparr>free_head := h, used := u\<rparr>) j = blk p j"
    and "blk (bump_watermark x p) j = blk p j" for p :: EventPool and h u x j
    by (simp_all add: blk_def)
  then show ?thesis
    using D(1) idx i room nxt
    by (auto simp: claim_raw_block_def claim_single_core_def claim_smp_def Let_def upd_pool_def
        block_addr_blk pool_wf_def fun_upd_def [symmetric])
qed

lemma alloc_refines:
  assumes inv: "world_inv w F P" and r: "registered w r"
    and room: "unat (used (pools w r)) + unat margin < unat (capacity (pools w r))"
  shows "\<exists>a w' F'. alloc_with_margin r sig margin w = (Some a, w') \<and> world_inv w' F' P
      \<and> live_map w F P a = None \<and> a \<noteq> 0
      \<and> live_map w' F' P = (live_map w F P)(a := Some \<lparr>signal = sig, ev_pool_id = pool_id (pools w r), ref_ctr = 1\<rparr>)
      \<and> used (pools w' r) = used (pools w r) + 1
      \<and> high_watermark (pools w' r) = max (high_watermark (pools w r)) (used (pools w r) + 1)
      \<and> pool_update w r w' \<and> F' = F(r := tl (F r))"
proof -
  note W = world_invD [OF inv r]
  let ?p = "pools w r"
  obtain i fr where fr: "F r = i # fr" using used_less_free [OF W(2)] room by (cases "F r") auto
  note st = W(2) [unfolded fr]
  have i: "i < unat (capacity ?p)" using pool_stateD(5) [OF st] by simp
  obtain t where cl: "claim_raw_block r margin w = (Some (blk ?p i),
      upd_pool r (\<lambda>p. bump_watermark (used p + 1)
        (p\<lparr>free_head := pool_pack_head (mem w (blk p i)) t, used := used p + 1\<rparr>)) w)"
    (is "_ = (_, ?w1)") using claim_room [OF st room] by blast
  let ?ev = "\<lparr>signal = sig, ev_pool_id = pool_id ?p, ref_ctr = 1\<rparr>"
  let ?w = "set_event (blk ?p i) ?ev ?w1"
  have al: "alloc_with_margin r sig margin w = (Some (blk ?p i), ?w)"
    by (simp add: alloc_with_margin_def cl upd_pool_def)
  have up1: "pool_update w r ?w1" by (intro pool_update_pool pool_update_refl) simp_all
  have up: "pool_update w r ?w"
    using pool_update_trans [OF up1 pool_update_write(1) [of i ?w1 r ?ev]] i
    by (simp add: upd_pool_def blk_def)
  have mem: "mem ?w = (mem w)(blk ?p i := word_of_event ?ev)" by (simp add: set_event_def upd_pool_def)
  have st': "pool_state (mem ?w) (pools ?w r) fr (P r)" unfolding mem
    by (rule pool_state_take [OF st]) (simp_all add: live_word_def set_event_def upd_pool_def)
  have d: "i \<notin> set fr" "i \<notin> set (P r)" using pool_stateD(3) [OF st] by auto
  have "live_map ?w (F(r := fr)) (P(r := P r)) = (live_map w F P)(blk ?p i := Some ?ev)"
    by (subst live_map_step [OF inv r up st' i])
       (use fr d blk_eq_iff [OF W(3)] in \<open>auto simp: mem event_at_def\<close>)
  moreover have "live_map w F P (blk ?p i) = None" using live_map_block [OF inv r i] fr by simp
  moreover have "used (pools ?w r) = used ?p + 1"
    "high_watermark (pools ?w r) = max (high_watermark ?p) (used ?p + 1)"
    by (simp_all add: set_event_def upd_pool_def)
  ultimately show ?thesis
    using al world_update [OF inv r up st'] up fr blk_pos [OF W(3), of i] by fastforce
qed

lemma alloc_full:
  assumes "world_inv w F P" "registered w r"
    and "unat (capacity (pools w r)) \<le> unat (used (pools w r)) + unat margin"
  shows "alloc_with_margin r sig margin w = (None, w)"
  using claim_full [OF world_invD(3) [OF assms(1,2)] assms(3)] by (simp add: alloc_with_margin_def)

end
