(* ===== verification/Reclaim_Batcher.thy ===== *)
theory Reclaim_Batcher
  imports Pool_Refinement
begin

text \<open>
  Correctness of the batched reclaimer of pool.hpp. Its invariant ties each active
  table entry to the chain of blocks released to that entry; every release has the
  abstract effect of \<^verbatim>\<open>event_gc\<close>, and a flush empties the table.
\<close>

section \<open>Invariant\<close>

definition active :: "ReclaimBatcher \<Rightarrow> Pending list" where
  "active b = take (unat (active_count b)) (pending b)"

definition batch_entry :: "PoolWorld \<Rightarrow> (nat \<Rightarrow> nat list) \<Rightarrow> Pending \<Rightarrow> bool" where
  "batch_entry w P q \<longleftrightarrow> registered w (pd_rec q) \<and> unat (pd_count q) < 16
     \<and> length (P (pd_rec q)) = unat (pd_count q)
     \<and> (0 < unat (pd_count q) \<longrightarrow>
          segment (mem w) (pools w (pd_rec q)) (pd_first q) (pd_last q) (P (pd_rec q)))"

definition batch_inv :: "ReclaimBatcher \<Rightarrow> PoolWorld \<Rightarrow> (nat \<Rightarrow> nat list) \<Rightarrow> bool" where
  "batch_inv b w P \<longleftrightarrow> unat (active_count b) \<le> length (pending b) \<and> length (pending b) < 256
     \<and> distinct (map pd_rec (active b)) \<and> (\<forall>q \<in> set (active b). batch_entry w P q)
     \<and> (\<forall>r. r \<notin> pd_rec ` set (active b) \<longrightarrow> P r = [])"

lemma batch_inv_init:
  assumes "unat n < 256"
  shows "batch_inv (batcher_init n) w (\<lambda>_. [])"
  using assms by (simp add: batch_inv_def batcher_init_def active_def)

lemma active_nth: "k < unat (active_count b) \<Longrightarrow> active b ! k = pending b ! k"
  by (simp add: active_def)

lemma length_active:
  "batch_inv b w P \<Longrightarrow> length (active b) = unat (active_count b)"
  by (simp add: batch_inv_def active_def)

lemma pending_scan_Some:
  "pending_scan r ps i n = Some k \<Longrightarrow> i \<le> k \<and> k < i + n \<and> pd_rec (ps ! k) = r"
  by (induction r ps i n rule: pending_scan.induct) (auto split: if_splits)

lemma pending_scan_None:
  "pending_scan r ps i n = None \<Longrightarrow> i \<le> k \<Longrightarrow> k < i + n \<Longrightarrow> pd_rec (ps ! k) \<noteq> r"
proof (induction r ps i n rule: pending_scan.induct)
  case (2 r ps i n)
  then show ?case by (cases "k = i") (auto split: if_splits)
qed simp

lemma scan_None_active:
  assumes "batch_inv b w P" and "pending_scan r (pending b) 0 (unat (active_count b)) = None"
  shows "r \<notin> pd_rec ` set (active b)"
proof
  assume "r \<in> pd_rec ` set (active b)"
  then obtain i where i: "i < unat (active_count b)" "pd_rec (active b ! i) = r"
    using length_active [OF assms(1)] by (metis imageE in_set_conv_nth)
  then show False using pending_scan_None [OF assms(2), of i] active_nth [OF i(1)] by simp
qed

text \<open>Looking up the entry of a pool keeps the invariant, also when it takes a new entry.\<close>
lemma pending_of_Some:
  assumes inv: "batch_inv b w P" and r: "registered w r" and po: "pending_of r b = (Some k, b1)"
  shows "batch_inv b1 w P \<and> k < unat (active_count b1) \<and> pd_rec (pending b1 ! k) = r"
proof (cases "pending_scan r (pending b) 0 (unat (active_count b))")
  case (Some j)
  then show ?thesis using po inv pending_scan_Some [OF Some] by (simp add: pending_of_def)
next
  case None
  let ?a = "unat (active_count b)"
  have room: "?a < length (pending b)" and k: "k = ?a"
    and b1: "b1 = b\<lparr>pending := (pending b)[?a := (pending b ! ?a)\<lparr>pd_rec := r, pd_count := 0\<rparr>],
                    active_count := active_count b + 1\<rparr>"
    using po None by (auto simp: pending_of_def Let_def split: if_splits)
  have inc: "unat (active_count b + 1) = ?a + 1"
    using room inv by (intro unat_inc) (simp add: batch_inv_def)
  have act: "active b1 = active b @ [(pending b ! ?a)\<lparr>pd_rec := r, pd_count := 0\<rparr>]"
    using room by (simp add: active_def b1 inc take_Suc_conv_app_nth)
  have "r \<notin> pd_rec ` set (active b)"
    by (rule scan_None_active [OF inv None])
  then have "P r = []" using inv by (simp add: batch_inv_def)
  then show ?thesis
    using inv act room inc k r \<open>r \<notin> pd_rec ` set (active b)\<close>
    by (auto simp: batch_inv_def b1 batch_entry_def)
qed

lemma pending_of_None:
  assumes inv: "batch_inv b w P" and po: "pending_of r b = (None, b1)"
  shows "b1 = b \<and> P r = []"
proof -
  have None: "pending_scan r (pending b) 0 (unat (active_count b)) = None" and "b1 = b"
    using po by (auto simp: pending_of_def Let_def split: option.splits if_splits)
  have "r \<notin> pd_rec ` set (active b)"
    by (rule scan_None_active [OF inv None])
  then show ?thesis using inv \<open>b1 = b\<close> by (simp add: batch_inv_def)
qed

lemma segment_other_pool:
  assumes inv: "world_inv w F P" and up: "pool_update w r w'" and rs: "registered w r" "registered w s" "s \<noteq> r"
  shows "segment (mem w') (pools w' s) f l (P s) = segment (mem w) (pools w s) f l (P s)"
proof -
  have "mem w' (blk (pools w s) i) = mem w (blk (pools w s) i)" if "i \<in> set (P s)" for i
  proof -
    have i: "i < unat (capacity (pools w s))"
      using pool_stateD(4) [OF world_invD(2) [OF inv rs(2)]] that by blast
    have "\<forall>j < unat (capacity (pools w r)). blk (pools w s) i \<noteq> blk (pools w r) j"
      using blk_unique [OF inv rs(2,1) i] rs(3) by blast
    then show ?thesis using up by (simp add: pool_update_def)
  qed
  then have "segment (mem w') (pools w s) f l (P s) = segment (mem w) (pools w s) f l (P s)"
    by (intro segment_cong) (auto dest: in_set_butlastD)
  then show ?thesis using up rs(3) by (simp add: pool_update_def)
qed

lemma batch_entry_other:
  assumes "world_inv w F P" "pool_update w r w'" "registered w r" "batch_entry w P q" "pd_rec q \<noteq> r"
  shows "batch_entry w' (P(r := pd)) q"
  using assms segment_other_pool [OF assms(1,2,3), of "pd_rec q"]
  by (auto simp: batch_entry_def pool_update_same)

text \<open>Replacing the entry of a pool after a step on that pool.\<close>
lemma batch_set_entry:
  assumes winv: "world_inv w F P" and binv: "batch_inv b w P" and up: "pool_update w r w'"
    and r: "registered w r" and k: "k < unat (active_count b)" "pd_rec (pending b ! k) = r"
    and q: "pd_rec q = r" "batch_entry w' (P(r := pd)) q"
  shows "batch_inv (b\<lparr>pending := (pending b)[k := q]\<rparr>) w' (P(r := pd))"
proof -
  let ?b = "b\<lparr>pending := (pending b)[k := q]\<rparr>"
  have act: "active ?b = (active b)[k := q]" by (simp add: active_def take_update_swap)
  have len: "k < length (active b)" using k length_active [OF binv] by simp
  have recs: "map pd_rec (active ?b) = map pd_rec (active b)"
    using len k q(1) active_nth [OF k(1)] by (simp add: act map_update list_update_id)
       (metis k(2) list_update_id nth_map)
  have dist: "distinct (map pd_rec (active b))" using binv by (simp add: batch_inv_def)
  have "batch_entry w' (P(r := pd)) x" if x: "x \<in> set (active ?b)" for x
  proof -
    obtain j where j: "j < length (active b)" "x = (active b)[k := q] ! j"
      using x by (auto simp: act in_set_conv_nth)
    show ?thesis
    proof (cases "j = k")
      case True
      then show ?thesis using j q(2) len by simp
    next
      case False
      have "pd_rec (active b ! j) \<noteq> pd_rec (active b ! k)"
        using dist False j(1) len nth_eq_iff_index_eq [OF dist, of j k] by simp
      then have "pd_rec x \<noteq> r" using j False k active_nth [OF k(1)] by simp
      moreover have "batch_entry w P x" using j False binv by (simp add: batch_inv_def)
      ultimately show ?thesis using batch_entry_other [OF winv up r] by blast
    qed
  qed
  moreover have "(P(r := pd)) s = []" if "s \<notin> pd_rec ` set (active ?b)" for s
  proof -
    have eq: "pd_rec ` set (active ?b) = pd_rec ` set (active b)" using recs by (metis set_map)
    moreover have "r \<in> pd_rec ` set (active b)" using len k active_nth [OF k(1)] by (metis image_eqI nth_mem)
    ultimately show ?thesis using that binv by (auto simp: batch_inv_def)
  qed
  ultimately show ?thesis using binv dist recs by (simp add: batch_inv_def)
qed

section \<open>Release\<close>

text \<open>Marking the block of a last reference as released, with any word in it.\<close>
lemma release_block:
  assumes inv: "world_inv w F P" and lv: "live w F P e r i"
    and w': "pools w' = pools w" "registry w' = registry w" "mem w' = (mem w)(e := v)"
  shows "world_inv w' F (P(r := i # P r))"
    and "live_map w' F (P(r := i # P r)) = (live_map w F P)(e := None)" and "pool_update w r w'"
proof -
  have L: "registered w r" "i < unat (capacity (pools w r))" "i \<notin> set (F r)" "i \<notin> set (P r)"
    "e = blk (pools w r) i" using lv by (auto simp: live_def)
  show up: "pool_update w r w'" using L w' by (auto simp: pool_update_def)
  have st: "pool_state (mem w') (pools w' r) (F r) (i # P r)"
    using pool_state_write [OF pool_state_pend [OF world_invD(2) [OF inv L(1)] L(2-4)] L(2,3)] w' L(5)
    by simp
  show "world_inv w' F (P(r := i # P r))" using world_update [OF inv L(1) up st] by simp
  have "live_map w' (F(r := F r)) (P(r := i # P r)) = (live_map w F P)(blk (pools w r) i := None)"
    by (subst live_map_step [OF inv L(1) up st L(2)])
       (use L w' blk_eq_iff [OF world_invD(3) [OF inv L(1)]] in auto)
  then show "live_map w' F (P(r := i # P r)) = (live_map w F P)(e := None)" using L(5) by simp
qed

text \<open>Splicing the whole chain of a pool.\<close>
lemma splice_refines:
  assumes inv: "world_inv w F P" and r: "registered w r"
    and seg: "segment (mem w) (pools w r) f l (P r)" and n: "unat n = length (P r)"
  shows "world_inv (pool_reclaim_chain r f l n w) (F(r := P r @ F r)) (P(r := []))"
    and "live_map (pool_reclaim_chain r f l n w) (F(r := P r @ F r)) (P(r := [])) = live_map w F P"
    and "pool_update w r (pool_reclaim_chain r f l n w)"
    and "used (pools (pool_reclaim_chain r f l n w) r) = used (pools w r) - n"
proof -
  note W = world_invD [OF inv r]
  let ?p = "pools w r"
  define w' where "w' = pool_reclaim_chain r f l n w"
  have S: "P r \<noteq> []" "l = of_nat (last (P r))" "last (P r) < unat (capacity ?p)"
    using segment_last [OF seg] by auto
  have "unat l = last (P r)"
    using S(2,3) unat_of_nat_small [of "last (P r)", where 'a = 32] W(3) by (simp add: pool_wf_def)
  then have mem: "mem w' = (mem w)(blk ?p (last (P r)) := pool_head_index (free_head ?p))"
    by (simp add: w'_def pool_reclaim_chain_def Let_def store_next_def upd_pool_def block_addr_blk)
  have n': "n = of_nat (length (P r))" unfolding n [symmetric] by simp
  have st: "pool_state (mem w') (pools w' r) (P r @ F r) []" unfolding mem
    by (rule pool_state_splice [of _ _ _ "P r" "[]" f l])
       (use W(2) seg n' in \<open>simp_all add: w'_def pool_reclaim_chain_def Let_def store_next_def upd_pool_def\<close>)
  have up: "pool_update w r w'"
    using S(3) mem by (auto simp: pool_update_def w'_def pool_reclaim_chain_def Let_def store_next_def upd_pool_def)
  have "live_map w' (F(r := P r @ F r)) (P(r := [])) = (live_map w F P)(blk ?p (last (P r)) := None)"
    by (subst live_map_step [OF inv r up st S(3)])
       (use S(1) blk_eq_iff [OF W(3)] in \<open>auto simp: mem\<close>)
  also have "\<dots> = live_map w F P"
    using live_map_block [OF inv r S(3)] S(1) by (intro fun_upd_idem) simp
  finally show "live_map (pool_reclaim_chain r f l n w) (F(r := P r @ F r)) (P(r := [])) = live_map w F P"
    by (simp add: w'_def)
  show "world_inv (pool_reclaim_chain r f l n w) (F(r := P r @ F r)) (P(r := []))"
    using world_update [OF inv r up st] by (simp add: w'_def)
  show "pool_update w r (pool_reclaim_chain r f l n w)" using up by (simp add: w'_def)
  show "used (pools (pool_reclaim_chain r f l n w) r) = used (pools w r) - n"
    by (simp add: pool_reclaim_chain_def Let_def upd_pool_def store_next_def)
qed

text \<open>
  Once the last reference is gone, the block joins the chain of its pool's table
  entry: the state of the entry and of the memory after the link.
\<close>
lemma release_link:
  assumes winv: "world_inv w F P" and binv: "batch_inv b w P" and lv: "live w F P e r i"
    and w1: "w1 = set_event e ev w" and k: "k < unat (active_count b)" "pd_rec (pending b ! k) = r"
    and link: "(q1, w2) = (if pd_count (pending b ! k) = 0
        then ((pending b ! k)\<lparr>pd_first := of_nat i, pd_last := of_nat i\<rparr>, w1)
        else ((pending b ! k)\<lparr>pd_first := of_nat i\<rparr>, store_next e (pd_first (pending b ! k)) w1))"
  shows "world_inv w2 F (P(r := i # P r))"
    and "live_map w2 F (P(r := i # P r)) = (live_map w F P)(e := None)" and "pool_update w r w2"
    and "segment (mem w2) (pools w2 r) (pd_first q1) (pd_last q1) (i # P r)"
    and "pd_rec q1 = r" "unat (pd_count q1) = length (P r)" "unat (pd_count q1) < 16"
proof -
  let ?q = "pending b ! k"
  have L: "registered w r" "i < unat (capacity (pools w r))" "i \<notin> set (P r)" "e = blk (pools w r) i"
    using lv by (auto simp: live_def)
  have "?q \<in> set (active b)"
    using k length_active [OF binv] active_nth [OF k(1)] by (metis nth_mem)
  then have E: "unat (pd_count ?q) < 16" "length (P r) = unat (pd_count ?q)"
    "0 < unat (pd_count ?q) \<Longrightarrow> segment (mem w) (pools w r) (pd_first ?q) (pd_last ?q) (P r)"
    using binv k(2) by (auto simp: batch_inv_def batch_entry_def)
  obtain v where w2: "pools w2 = pools w" "registry w2 = registry w" "mem w2 = (mem w)(e := v)"
    and v: "pd_count ?q \<noteq> 0 \<longrightarrow> v = pd_first ?q"
    using link by (cases "pd_count ?q = 0") (auto simp: w1 set_event_def store_next_def)
  show "world_inv w2 F (P(r := i # P r))" "live_map w2 F (P(r := i # P r)) = (live_map w F P)(e := None)"
    "pool_update w r w2" using release_block [OF winv lv w2] by blast+
  show "pd_rec q1 = r" "unat (pd_count q1) = length (P r)" "unat (pd_count q1) < 16"
    using link k(2) E by (auto split: if_splits)
  show "segment (mem w2) (pools w2 r) (pd_first q1) (pd_last q1) (i # P r)"
  proof (cases "pd_count ?q = 0")
    case True
    then show ?thesis using link L E(2) w2(1) by simp
  next
    case False
    then have "segment (mem w) (pools w r) (pd_first ?q) (pd_last ?q) (P r)"
      using E(3) by (simp add: unat_gt_0)
    moreover obtain j js where js: "P r = j # js" using calculation by (cases "P r") auto
    moreover have "i \<notin> set (butlast (P r))" using L(3) by (auto dest: in_set_butlastD)
    ultimately show ?thesis
      using link False L w2 v world_invD(3) [OF winv L(1)] by (simp add: segment_write)
  qed
qed

lemma pd_count_inc:
  assumes "unat (pd_count q) < 16"
  shows "unat (pd_count q + 1) = unat (pd_count q) + 1"
  using assms by (intro unat_inc) simp

lemma batch_inv_other:
  assumes "world_inv w F P" "batch_inv b w P" "pool_update w r w'" "registered w r"
    "r \<notin> pd_rec ` set (active b)"
  shows "batch_inv b w' P"
proof -
  have "batch_entry w' P q" if "q \<in> set (active b)" for q
  proof -
    have "pd_rec q \<noteq> r" using assms(5) that by blast
    moreover have "batch_entry w P q" using assms(2) that by (simp add: batch_inv_def)
    ultimately have "batch_entry w' (P(r := P r)) q" by (intro batch_entry_other [OF assms(1,3,4)])
    then show ?thesis by simp
  qed
  then show ?thesis using assms(2) by (simp add: batch_inv_def)
qed

text \<open>A release that is not the last one.\<close>
lemma batcher_release_shared:
  assumes winv: "world_inv w F P" and binv: "batch_inv b w P" and lv: "live w F P e r i"
    and c: "ref_ctr (event_at w e) \<noteq> 1"
  shows "\<exists>w'. batcher_release e b w = Some (b, w') \<and> world_inv w' F P \<and> batch_inv b w' P
      \<and> live_map w' F P = spec_gc e (live_map w F P) \<and> pool_update w r w'"
proof -
  note H = live_header [OF winv lv]
  have L: "registered w r" "i < unat (capacity (pools w r))" "i \<notin> set (P r)" "e = blk (pools w r) i"
    using lv by (auto simp: live_def)
  let ?ev = "(event_at w e)\<lparr>ref_ctr := ref_ctr (event_at w e) - 1\<rparr>"
  let ?w1 = "set_event e ?ev w"
  have up: "pool_update w r ?w1" using pool_update_write(1) [OF L(2)] L(4) by simp
  have "batch_entry ?w1 P q" if q: "batch_entry w P q" for q
  proof (cases "pd_rec q = r")
    case True
    have "i \<notin> set (butlast (P r))" using L(3) by (auto dest: in_set_butlastD)
    then show ?thesis using q True L(4) world_invD(3) [OF winv L(1)]
      by (auto simp: batch_entry_def set_event_def segment_write registered_def)
  next
    case False
    then show ?thesis using batch_entry_other [OF winv up L(1) q False, of "P r"] by simp
  qed
  then have "batch_inv b ?w1 P" using binv by (auto simp: batch_inv_def)
  moreover have "batcher_release e b w = Some (b, ?w1)"
    using H c by (simp add: batcher_release_def word_greater_zero_iff Let_def)
  ultimately show ?thesis
    using set_event_refines [OF winv lv, of ?ev] up c live_map_Some [OF lv] H(1)
    by (auto simp: spec_gc_def)
qed

text \<open>The last release hands the block over to the deferral.\<close>
lemma batcher_release_last_code:
  assumes winv: "world_inv w F P" and lv: "live w F P e r i" and c: "ref_ctr (event_at w e) = 1"
    and w1: "w1 = set_event e ((event_at w e)\<lparr>ref_ctr := 0\<rparr>) w"
  shows "batcher_release e b w = Some (batcher_defer e r (of_nat i) b w1)"
proof -
  have L: "registered w r" "e = blk (pools w r) i" using lv by (auto simp: live_def)
  note wf = world_invD(3) [OF winv L(1)]
  have "pools (set_event e ev w) = pools w" for ev by (simp add: set_event_def)
  then show ?thesis
    using live_header [OF winv lv] c blk_pos [OF wf, of i] blk_index [OF wf, of i]
    by (simp add: batcher_release_def Let_def w1 L(2))
qed

lemma batcher_defer_table_full:
  assumes winv: "world_inv w F P" and binv: "batch_inv b w P" and lv: "live w F P e r i"
    and w1: "w1 = set_event e ev w" and po: "pending_of r b = (None, b1)"
  shows "\<exists>w' F'. batcher_defer e r (of_nat i) b w1 = (b, w') \<and> world_inv w' F' P \<and> batch_inv b w' P
      \<and> live_map w' F' P = (live_map w F P)(e := None) \<and> pool_update w r w'"
proof -
  have L: "registered w r" "i < unat (capacity (pools w r))" using lv by (auto simp: live_def)
  have b1: "b1 = b" "P r = []" using pending_of_None [OF binv po] by auto
  have None: "pending_scan r (pending b) 0 (unat (active_count b)) = None"
    using po by (auto simp: pending_of_def Let_def split: option.splits if_splits)
  let ?P = "P(r := [i])"
  let ?w = "pool_reclaim_chain r (of_nat i) (of_nat i) 1 w1"
  have R: "world_inv w1 F ?P" "live_map w1 F ?P = (live_map w F P)(e := None)" "pool_update w r w1"
    using release_block [OF winv lv, of w1 "word_of_event ev"] b1(2) by (simp_all add: w1 set_event_def)
  have reg1: "registered w1 r" and seg: "segment (mem w1) (pools w1 r) (of_nat i) (of_nat i) (?P r)"
    using L by (simp_all add: w1 set_event_def registered_def)
  have one: "unat (1 :: u16) = length (?P r)" by simp
  note S = splice_refines [where P = ?P, OF R(1) reg1 seg one]
  have P: "P(r := []) = P" using b1(2) by (rule fun_upd_idem)
  have up: "pool_update w r ?w" by (rule pool_update_trans [OF R(3) S(3)])
  have "batch_inv b ?w P" by (rule batch_inv_other [OF winv binv up L(1) scan_None_active [OF binv None]])
  moreover have "world_inv ?w (F(r := i # F r)) P" "live_map ?w (F(r := i # F r)) P = (live_map w F P)(e := None)"
    using S(1,2) R(2) by (simp_all add: P)
  moreover have "batcher_defer e r (of_nat i) b w1 = (b, ?w)"
    using po b1(1) by (simp add: batcher_defer_def splice_locked_def)
  ultimately show ?thesis using up by blast
qed

lemma batcher_defer_entry:
  assumes winv: "world_inv w F P" and binv: "batch_inv b w P" and lv: "live w F P e r i"
    and w1: "w1 = set_event e ev w" and po: "pending_of r b = (Some k, b1)"
  shows "\<exists>b' w' F' P'. batcher_defer e r (of_nat i) b w1 = (b', w') \<and> world_inv w' F' P' \<and> batch_inv b' w' P'
      \<and> live_map w' F' P' = (live_map w F P)(e := None) \<and> pool_update w r w'"
proof -
  have L: "registered w r" using lv by (auto simp: live_def)
  have K: "batch_inv b1 w P" "k < unat (active_count b1)" "pd_rec (pending b1 ! k) = r"
    using pending_of_Some [OF binv L po] by auto
  let ?q = "pending b1 ! k"
  define qw where "qw = (if pd_count ?q = 0 then (?q\<lparr>pd_first := of_nat i, pd_last := of_nat i\<rparr>, w1)
        else (?q\<lparr>pd_first := of_nat i\<rparr>, store_next e (pd_first ?q) w1))"
  obtain q1 w2 where qw2: "qw = (q1, w2)" by (metis surj_pair)
  note R = release_link [OF winv K(1) lv w1 K(2,3) qw2 [symmetric, unfolded qw_def]]
  let ?q2 = "q1\<lparr>pd_count := pd_count q1 + 1\<rparr>" and ?P = "P(r := i # P r)"
  have n2: "unat (pd_count ?q2) = length (?P r)" using pd_count_inc [OF R(7)] R(6) by simp
  have reg2: "registered w2 r" using pool_update_same(1) [OF R(3)] L by simp
  have df: "batcher_defer e r (of_nat i) b w1 =
      (if pd_count ?q2 \<ge> kReclaimBatchCap
       then (b1\<lparr>pending := (pending b1)[k := ?q2\<lparr>pd_count := 0\<rparr>]\<rparr>,
             pool_reclaim_chain r (pd_first ?q2) (pd_last ?q2) (pd_count ?q2) w2)
       else (b1\<lparr>pending := (pending b1)[k := ?q2]\<rparr>, w2))"
    using po qw2 R(5) by (simp add: batcher_defer_def splice_locked_def Let_def qw_def [symmetric])
  show ?thesis
  proof (cases "pd_count ?q2 \<ge> kReclaimBatchCap")
    case True
    have seg: "segment (mem w2) (pools w2 r) (pd_first ?q2) (pd_last ?q2) (?P r)" using R(4) by simp
    note S = splice_refines [where P = ?P, OF R(1) reg2 seg n2]
    have up: "pool_update w r (pool_reclaim_chain r (pd_first ?q2) (pd_last ?q2) (pd_count ?q2) w2)"
      by (rule pool_update_trans [OF R(3) S(3)])
    have "batch_inv (b1\<lparr>pending := (pending b1)[k := ?q2\<lparr>pd_count := 0\<rparr>]\<rparr>)
        (pool_reclaim_chain r (pd_first ?q2) (pd_last ?q2) (pd_count ?q2) w2) (P(r := []))"
      by (rule batch_set_entry [OF winv K(1) up L K(2,3)])
         (use R(5) L pool_update_same(1) [OF up] in \<open>simp_all add: batch_entry_def\<close>)
    then show ?thesis using S(1,2) R(2) df True up by auto
  next
    case False
    have "unat (pd_count ?q2) < 16" using False by (simp add: kReclaimBatchCap_def word_le_nat_alt not_le)
    then have "batch_inv (b1\<lparr>pending := (pending b1)[k := ?q2]\<rparr>) w2 ?P"
      by (intro batch_set_entry [OF winv K(1) R(3) L K(2,3)])
         (use R(4,5) reg2 n2 in \<open>simp_all add: batch_entry_def\<close>)
    then show ?thesis using R(1,2,3) df False by auto
  qed
qed

lemma batcher_release_refines:
  assumes winv: "world_inv w F P" and binv: "batch_inv b w P" and lv: "live w F P e r i"
  shows "\<exists>b' w' F' P'. batcher_release e b w = Some (b', w') \<and> world_inv w' F' P' \<and> batch_inv b' w' P'
      \<and> live_map w' F' P' = spec_gc e (live_map w F P) \<and> pool_update w r w'"
proof (cases "ref_ctr (event_at w e) = 1")
  case False
  then show ?thesis using batcher_release_shared [OF winv binv lv] by blast
next
  case True
  note code = batcher_release_last_code [OF winv lv True refl, of b]
  have spec: "spec_gc e (live_map w F P) = (live_map w F P)(e := None)"
    using live_map_Some [OF lv] True by (simp add: spec_gc_def)
  obtain x b1 where po: "pending_of r b = (x, b1)" by (metis surj_pair)
  show ?thesis
  proof (cases x)
    case None
    then show ?thesis using batcher_defer_table_full [OF winv binv lv refl] po code spec by fastforce
  next
    case (Some k)
    then show ?thesis using batcher_defer_entry [OF winv binv lv refl] po code spec by metis
  qed
qed

section \<open>Flush\<close>

text \<open>What every sequence of pool steps leaves alone.\<close>
definition world_frame :: "PoolWorld \<Rightarrow> PoolWorld \<Rightarrow> bool" where
  "world_frame w w' \<longleftrightarrow> registry w' = registry w
     \<and> (\<forall>r. base (pools w' r) = base (pools w r) \<and> block_size (pools w' r) = block_size (pools w r)
           \<and> capacity (pools w' r) = capacity (pools w r) \<and> pool_id (pools w' r) = pool_id (pools w r))
     \<and> (\<forall>e. (\<forall>r i. registered w r \<and> i < unat (capacity (pools w r)) \<longrightarrow> e \<noteq> blk (pools w r) i)
           \<longrightarrow> mem w' e = mem w e)"

lemma world_frame_refl: "world_frame w w"
  by (simp add: world_frame_def)

lemma world_frame_trans: "world_frame w1 w2 \<Longrightarrow> world_frame w2 w3 \<Longrightarrow> world_frame w1 w3"
  unfolding world_frame_def registered_def blk_def by simp

lemma pool_update_frame:
  assumes "pool_update w r w'" "registered w r"
  shows "world_frame w w'"
proof -
  have "base (pools w' s) = base (pools w s) \<and> block_size (pools w' s) = block_size (pools w s)
      \<and> capacity (pools w' s) = capacity (pools w s) \<and> pool_id (pools w' s) = pool_id (pools w s)" for s
    using assms(1) by (cases "s = r") (simp_all add: pool_update_def)
  then show ?thesis using assms by (auto simp: world_frame_def pool_update_def)
qed

lemma world_frame_same:
  assumes "world_frame w w'"
  shows "registered w' r = registered w r" "blk (pools w' r) i = blk (pools w r) i"
    "capacity (pools w' r) = capacity (pools w r)" "pool_id (pools w' r) = pool_id (pools w r)"
    "static_event w e \<Longrightarrow> static_event w' e"
  using assms by (auto simp: world_frame_def registered_def blk_def static_event_def event_at_def)

lemma flush_loop_refines:
  assumes "world_inv w F P" "batch_inv b w P" "i + n = unat (active_count b)"
    and "\<forall>k < i. pd_count (pending b ! k) = 0"
  shows "\<exists>b' w' F' P'. flush_loop i n b w = (b', w') \<and> world_inv w' F' P' \<and> batch_inv b' w' P'
      \<and> (\<forall>k < unat (active_count b'). pd_count (pending b' ! k) = 0)
      \<and> live_map w' F' P' = live_map w F P \<and> world_frame w w' \<and> length (pending b') = length (pending b)"
  using assms
proof (induction i n b w arbitrary: F P rule: flush_loop.induct)
  case (1 i b w)
  then show ?case using world_frame_refl by auto
next
  case (2 i n b w)
  let ?q = "pending b ! i" and ?r = "pd_rec (pending b ! i)"
  have i: "i < unat (active_count b)" using 2 by simp
  show ?case
  proof (cases "pd_count ?q > 0")
    case False
    then have "\<forall>k < Suc i. pd_count (pending b ! k) = 0"
      using "2.prems"(4) False by (auto simp: less_Suc_eq word_greater_zero_iff)
    then show ?thesis using False "2.IH"(2) [OF refl False "2.prems"(1,2)] "2.prems"(3) by simp
  next
    case True
    have "?q \<in> set (active b)"
      using i length_active [OF "2.prems"(2)] active_nth [OF i] by (metis nth_mem)
    then have E: "registered w ?r" "length (P ?r) = unat (pd_count ?q)"
      "segment (mem w) (pools w ?r) (pd_first ?q) (pd_last ?q) (P ?r)"
      using "2.prems"(2) True by (auto simp: batch_inv_def batch_entry_def word_less_nat_alt)
    let ?w = "pool_reclaim_chain ?r (pd_first ?q) (pd_last ?q) (pd_count ?q) w"
    let ?b = "b\<lparr>pending := (pending b)[i := ?q\<lparr>pd_count := 0\<rparr>]\<rparr>"
    note S = splice_refines [OF "2.prems"(1) E(1,3) E(2) [symmetric]]
    have binv: "batch_inv ?b ?w (P(?r := []))"
      by (rule batch_set_entry [OF "2.prems"(1,2) S(3) E(1) i refl])
         (use E(1) pool_update_same(1) [OF S(3)] in \<open>simp_all add: batch_entry_def\<close>)
    have "i < length (pending b)" using i "2.prems"(2) by (simp add: batch_inv_def)
    then have zero: "\<forall>k < Suc i. pd_count (pending ?b ! k) = 0"
      using "2.prems"(4) by (auto simp: less_Suc_eq nth_list_update)
    note IH = "2.IH"(1) [where F = "F(?r := P ?r @ F ?r)" and P = "P(?r := [])",
        OF refl True S(1) binv _ zero]
    obtain b' w' F' P' where R: "flush_loop (Suc i) n ?b ?w = (b', w')" "world_inv w' F' P'" "batch_inv b' w' P'"
      "\<forall>k < unat (active_count b'). pd_count (pending b' ! k) = 0"
      "live_map w' F' P' = live_map ?w (F(?r := P ?r @ F ?r)) (P(?r := []))" "world_frame ?w w'"
      "length (pending b') = length (pending ?b)"
      using IH "2.prems"(3) by (auto simp: fun_upd_def)
    have "world_frame w w'" using world_frame_trans [OF pool_update_frame [OF S(3) E(1)] R(6)] .
    then show ?thesis using R S(2) True by (auto simp: Let_def)
  qed
qed

lemma batcher_flush_refines:
  assumes "world_inv w F P" "batch_inv b w P"
  shows "\<exists>b' w' F'. batcher_flush b w = (b', w') \<and> world_inv w' F' (\<lambda>_. []) \<and> batch_inv b' w' (\<lambda>_. [])
      \<and> live_map w' F' (\<lambda>_. []) = live_map w F P \<and> world_frame w w'"
proof -
  obtain b1 w' F' P' where R: "flush_loop 0 (unat (active_count b)) b w = (b1, w')" "world_inv w' F' P'"
    "batch_inv b1 w' P'" "\<forall>k < unat (active_count b1). pd_count (pending b1 ! k) = 0"
    "live_map w' F' P' = live_map w F P" "world_frame w w'"
    using flush_loop_refines [OF assms, of 0 "unat (active_count b)"] by auto
  have "P' r = []" for r
  proof (cases "r \<in> pd_rec ` set (active b1)")
    case True
    then obtain k where k: "k < unat (active_count b1)" "pd_rec (active b1 ! k) = r"
      using length_active [OF R(3)] by (metis imageE in_set_conv_nth)
    have "batch_entry w' P' (active b1 ! k)"
      using R(3) k(1) length_active [OF R(3)] by (simp add: batch_inv_def)
    then show ?thesis using k R(4) active_nth [OF k(1)] by (simp add: batch_entry_def)
  next
    case False
    then show ?thesis using R(3) by (simp add: batch_inv_def)
  qed
  then have P': "P' = (\<lambda>_. [])" by auto
  have "batch_inv (b1\<lparr>active_count := 0\<rparr>) w' (\<lambda>_. [])"
    using R(3) by (simp add: batch_inv_def active_def)
  then show ?thesis using R(1,2,5,6) unfolding P' by (auto simp: batcher_flush_def)
qed

section \<open>The reclaimer interface\<close>

text \<open>The immediate strategy: \<^verbatim>\<open>release\<close> is \<^verbatim>\<open>event_gc\<close>, begin and flush do nothing.\<close>
definition immediate_release :: "nat \<Rightarrow> unit \<Rightarrow> PoolWorld \<Rightarrow> (unit \<times> PoolWorld) option" where
  "immediate_release e u w = map_option (\<lambda>w'. (u, w')) (event_gc e w)"

definition immediate_begin :: "unit \<Rightarrow> unit" where
  "immediate_begin u = u"

definition immediate_flush :: "unit \<Rightarrow> PoolWorld \<Rightarrow> unit \<times> PoolWorld" where
  "immediate_flush u w = (u, w)"

text \<open>Releasing a sequence of events with one strategy.\<close>
fun release_all :: "(nat \<Rightarrow> 'r \<Rightarrow> PoolWorld \<Rightarrow> ('r \<times> PoolWorld) option) \<Rightarrow> nat list \<Rightarrow> 'r \<Rightarrow> PoolWorld
    \<Rightarrow> ('r \<times> PoolWorld) option" where
  "release_all rel [] s w = Some (s, w)"
| "release_all rel (e # es) s w = do { (s1, w1) \<leftarrow> rel e s w; release_all rel es s1 w1 }"

text \<open>Every released event is static or has at least as many references as it is released.\<close>
definition releasable :: "PoolWorld \<Rightarrow> (nat \<Rightarrow> Event option) \<Rightarrow> nat list \<Rightarrow> bool" where
  "releasable w L es \<longleftrightarrow> (\<forall>e \<in> set es. case L e of
      None \<Rightarrow> static_event w e
    | Some ev \<Rightarrow> count_list es e \<le> unat (ref_ctr ev))"

text \<open>Releasing the first keeps the rest releasable.\<close>
lemma releasable_gc:
  assumes "releasable w L (e # es)" "world_frame w w1"
  shows "releasable w1 (spec_gc e L) es"
  unfolding releasable_def
proof
  fix x assume x: "x \<in> set es"
  then have px: "case L x of None \<Rightarrow> static_event w x | Some ev \<Rightarrow> count_list (e # es) x \<le> unat (ref_ctr ev)"
    using assms(1) by (simp add: releasable_def)
  have cx: "0 < count_list es x" using x by (simp add: count_list_0_iff neq0_conv [symmetric] del: neq0_conv)
  show "case spec_gc e L x of None \<Rightarrow> static_event w1 x | Some ev \<Rightarrow> count_list es x \<le> unat (ref_ctr ev)"
  proof (cases "L x")
    case None
    then show ?thesis using px world_frame_same(5) [OF assms(2)]
      by (auto simp: spec_gc_def split: option.splits)
  next
    case (Some ev)
    then show ?thesis using px cx unat_dec [of "ref_ctr ev"]
      by (cases "x = e") (auto simp: spec_gc_def split: option.splits)
  qed
qed

lemma releasable_event_ok:
  "releasable w (live_map w F P) es \<Longrightarrow> e \<in> set es \<Longrightarrow> event_ok w F P e"
  by (auto simp: releasable_def event_ok_def live_map_def split: option.splits if_splits)

lemma releasable_mset: "\<lbrakk>releasable w L es; mset es' = mset es\<rbrakk> \<Longrightarrow> releasable w L es'"
  by (metis count_mset releasable_def set_mset_mset)

locale reclaimer =
  fixes rel :: "nat \<Rightarrow> 'r \<Rightarrow> PoolWorld \<Rightarrow> ('r \<times> PoolWorld) option"
    and start :: "'r \<Rightarrow> 'r"
    and flush :: "'r \<Rightarrow> PoolWorld \<Rightarrow> 'r \<times> PoolWorld"
    and rinv :: "'r \<Rightarrow> PoolWorld \<Rightarrow> (nat \<Rightarrow> nat list) \<Rightarrow> bool"
  assumes rel_live: "\<lbrakk>world_inv w F P; rinv s w P; live w F P e r i\<rbrakk>
      \<Longrightarrow> \<exists>s' w' F' P'. rel e s w = Some (s', w') \<and> world_inv w' F' P' \<and> rinv s' w' P'
            \<and> live_map w' F' P' = spec_gc e (live_map w F P) \<and> world_frame w w'"
    and rel_static: "static_event w e \<Longrightarrow> rel e s w = Some (s, w)"
    and start_inv: "rinv s w (\<lambda>_. []) \<Longrightarrow> rinv (start s) w (\<lambda>_. [])"
    and flush_all: "\<lbrakk>world_inv w F P; rinv s w P\<rbrakk>
      \<Longrightarrow> \<exists>s' w' F'. flush s w = (s', w') \<and> world_inv w' F' (\<lambda>_. []) \<and> rinv s' w' (\<lambda>_. [])
            \<and> live_map w' F' (\<lambda>_. []) = live_map w F P \<and> world_frame w w'"
begin

lemma rel_event_ok:
  assumes "world_inv w F P" "rinv s w P" "event_ok w F P e"
  shows "\<exists>s' w' F' P'. rel e s w = Some (s', w') \<and> world_inv w' F' P' \<and> rinv s' w' P'
      \<and> live_map w' F' P' = spec_gc e (live_map w F P) \<and> world_frame w w'"
proof (cases "static_event w e")
  case True
  then have "spec_gc e (live_map w F P) = live_map w F P"
    by (simp add: spec_gc_def static_live_map)
  then show ?thesis using rel_static [OF True] assms world_frame_refl by metis
next
  case False
  then show ?thesis using rel_live [OF assms(1,2)] assms(3) by (auto simp: event_ok_def)
qed

lemma release_all_refines:
  assumes "world_inv w F P" "rinv s w P" "releasable w (live_map w F P) es"
  shows "\<exists>s' w' F' P'. release_all rel es s w = Some (s', w') \<and> world_inv w' F' P' \<and> rinv s' w' P'
      \<and> live_map w' F' P' = fold spec_gc es (live_map w F P) \<and> world_frame w w'"
  using assms
proof (induction es arbitrary: s w F P)
  case Nil
  then show ?case using world_frame_refl by fastforce
next
  case (Cons e es)
  let ?L = "live_map w F P"
  have ok: "event_ok w F P e" using releasable_event_ok [OF Cons.prems(3)] by simp
  obtain s1 w1 F1 P1 where R: "rel e s w = Some (s1, w1)" "world_inv w1 F1 P1" "rinv s1 w1 P1"
    "live_map w1 F1 P1 = spec_gc e ?L" "world_frame w w1"
    using rel_event_ok [OF Cons.prems(1,2) ok] by blast
  have "releasable w1 (spec_gc e ?L) es" by (rule releasable_gc [OF Cons.prems(3) R(5)])
  then obtain s' w' F' P' where "release_all rel es s1 w1 = Some (s', w')" "world_inv w' F' P'" "rinv s' w' P'"
    "live_map w' F' P' = fold spec_gc es (spec_gc e ?L)" "world_frame w1 w'"
    using Cons.IH [OF R(2,3)] R(4) by metis
  then show ?case using R(1) world_frame_trans [OF R(5)] by auto
qed

end

interpretation immediate: reclaimer immediate_release immediate_begin immediate_flush
  "\<lambda>_ _ P. P = (\<lambda>_. [])"
proof unfold_locales
  fix w F P e r i and s :: unit
  assume a: "world_inv w F P" "P = (\<lambda>_. [])" "live w F P e r i"
  obtain w' F' where "event_gc e w = Some w'" "world_inv w' F' P"
    "live_map w' F' P = spec_gc e (live_map w F P)" "pool_update w r w'"
    using event_gc_refines [OF a(1,3)] by blast
  then show "\<exists>s' w' F' P'. immediate_release e s w = Some (s', w') \<and> world_inv w' F' P' \<and> P' = (\<lambda>_. [])
      \<and> live_map w' F' P' = spec_gc e (live_map w F P) \<and> world_frame w w'"
    using a pool_update_frame [of w r w'] by (auto simp: immediate_release_def live_def)
next
  fix w e and s :: unit
  assume "static_event w e"
  then show "immediate_release e s w = Some (s, w)"
    by (simp add: immediate_release_def event_gc_static)
qed (auto simp: immediate_flush_def world_frame_refl)

interpretation batched: reclaimer batcher_release batcher_begin batcher_flush batch_inv
proof unfold_locales
  fix w F P s e r i
  assume a: "world_inv w F P" "batch_inv s w P" "live w F P e r i"
  then show "\<exists>s' w' F' P'. batcher_release e s w = Some (s', w') \<and> world_inv w' F' P' \<and> batch_inv s' w' P'
      \<and> live_map w' F' P' = spec_gc e (live_map w F P) \<and> world_frame w w'"
    using batcher_release_refines [OF a] pool_update_frame [of w r] by (metis live_def)
next
  fix w e and s :: ReclaimBatcher
  assume "static_event w e"
  then show "batcher_release e s w = Some (s, w)"
    by (simp add: batcher_release_def static_event_def Let_def)
next
  fix s w
  assume "batch_inv s w (\<lambda>_. [])"
  then show "batch_inv (batcher_begin s) w (\<lambda>_. [])"
    by (simp add: batch_inv_def batcher_begin_def active_def)
next
  fix w F P s
  assume "world_inv w F P" "batch_inv s w P"
  then show "\<exists>s' w' F'. batcher_flush s w = (s', w') \<and> world_inv w' F' (\<lambda>_. []) \<and> batch_inv s' w' (\<lambda>_. [])
      \<and> live_map w' F' (\<lambda>_. []) = live_map w F P \<and> world_frame w w'"
    by (rule batcher_flush_refines)
qed

end
