(* ===== verification/Pool_Properties.thy ===== *)
theory Pool_Properties
  imports Reclaim_Batcher
begin

text \<open>
  Initialisation of a pool establishes the invariant, and the properties of the
  pool component: allocation, reference counting, equivalence of the two reclaim
  strategies, and what a second release of a returned block does.
\<close>

section \<open>Initialisation\<close>

lemma init_chain_other:
  assumes "\<And>j. i \<le> j \<Longrightarrow> j < i + n \<Longrightarrow> a \<noteq> bgn + j * unat stride" and "i + n < 4294967296"
  shows "init_chain bgn stride i n m a = m a"
  using assms
proof (induction n arbitrary: i m)
  case (Suc left)
  have "pool_block_base bgn (of_nat i) stride = bgn + i * unat stride"
    using Suc.prems(2) by (simp add: pool_block_base_def unat_of_nat_small)
  then show ?case using Suc by simp
qed simp

lemma init_chain_block:
  assumes "0 < unat stride" and "i \<le> j" and "j < i + n" and "i + n < 4294967296"
  shows "init_chain bgn stride i n m (bgn + j * unat stride) =
    (if j + 1 < i + n then of_nat (j + 1) else pool_index_invalid)"
  using assms
proof (induction n arbitrary: i m)
  case (Suc left)
  let ?v = "if 0 < left then of_nat (i + 1) else pool_index_invalid"
  have blk: "pool_block_base bgn (of_nat i) stride = bgn + i * unat stride"
    using Suc.prems(4) by (simp add: pool_block_base_def unat_of_nat_small)
  show ?case
  proof (cases "j = i")
    case True
    have "init_chain bgn stride (Suc i) left (m(bgn + i * unat stride := ?v)) (bgn + i * unat stride)
        = (m(bgn + i * unat stride := ?v)) (bgn + i * unat stride)"
      using Suc.prems(1,4) by (intro init_chain_other) auto
    then show ?thesis using True by (simp add: blk)
  next
    case False
    then show ?thesis using Suc by simp
  qed
qed simp

lemma free_chain_upto:
  assumes "\<And>j. j < n \<Longrightarrow> m (blk p j) = (if j + 1 < n then of_nat (j + 1) else pool_index_invalid)"
    and "n = unat (capacity p)" and "i < n"
  shows "free_chain m p (of_nat i) [i..<n]"
  using assms(3)
proof (induction "n - i" arbitrary: i)
  case 0
  then show ?case by simp
next
  case (Suc k)
  then have u: "[i..<n] = i # [Suc i..<n]" by (simp add: upt_conv_Cons)
  show ?case
  proof (cases "Suc i < n")
    case True
    have "free_chain m p (of_nat (Suc i)) [Suc i..<n]"
      using Suc.hyps(2) True by (intro Suc.hyps(1)) simp_all
    moreover have "m (blk p i) = of_nat (Suc i)" using assms(1) [of i] True by simp
    ultimately show ?thesis using Suc.prems assms(2) unfolding u by (simp del: of_nat_Suc)
  next
    case False
    then have "m (blk p i) = pool_index_invalid" "[Suc i..<n] = []"
      using Suc.prems assms(1) [of i] by simp_all
    then show ?thesis using Suc.prems assms(2) unfolding u by simp
  qed
qed

lemma registry_find_Some:
  "registry_find x xs i = Some k \<Longrightarrow> i \<le> k \<and> k < i + length xs \<and> xs ! (k - i) = x"
proof (induction x xs i rule: registry_find.induct)
  case (2 x y ys i)
  then show ?case by (cases "y = x") (auto simp: Suc_diff_Suc nth_Cons' split: if_splits)
qed simp

lemma registry_find_None: "registry_find x xs i = None \<longleftrightarrow> x \<notin> set xs"
  by (induction x xs i rule: registry_find.induct) auto

text \<open>The template constraints a pool instance is compiled with.\<close>
definition params_ok :: "PoolParams \<Rightarrow> bool" where
  "params_ok prm \<longleftrightarrow> 0 < unat (Capacity prm) \<and> unat (Capacity prm) < 0xFFFF \<and> 4 \<le> unat (BlockSize prm)
     \<and> (\<exists>k. BlockAlign prm = 2 ^ k) \<and> pool_block_align (BlockAlign prm) (unat (BlockSize prm)) \<le> 0xFFFF"

text \<open>The number of blocks that fit the storage, at most the template capacity.\<close>
definition pool_count :: "PoolParams \<Rightarrow> nat \<Rightarrow> nat \<Rightarrow> nat" where
  "pool_count prm raw_base bytes =
     (let bgn = align_up (BlockAlign prm) raw_base
      in if bgn \<le> raw_base + bytes
         then min ((raw_base + bytes - bgn) div pool_block_align (BlockAlign prm) (unat (BlockSize prm)))
                (unat (Capacity prm))
         else 0)"

lemma stride_bounds:
  assumes "params_ok prm"
  defines "st \<equiv> pool_block_align (BlockAlign prm) (unat (BlockSize prm))"
  shows "4 \<le> st" and "unat (of_nat st :: u16) = st" and "unat (of_nat st :: u32) = st"
proof -
  obtain k where "BlockAlign prm = 2 ^ k" using assms(1) by (auto simp: params_ok_def)
  then have "unat (BlockSize prm) \<le> st"
    unfolding st_def pool_block_align_def by (rule align_up_bounds(1))
  then show "4 \<le> st" using assms(1) by (simp add: params_ok_def)
  have "st \<le> 0xFFFF" using assms(1) by (simp add: params_ok_def st_def)
  then show "unat (of_nat st :: u16) = st" "unat (of_nat st :: u32) = st"
    by (simp_all add: unat_of_nat_small)
qed

lemma pool_count_bounds:
  assumes ok: "params_ok prm" and n: "0 < pool_count prm raw bytes" and i: "i < pool_count prm raw bytes"
  defines "st \<equiv> pool_block_align (BlockAlign prm) (unat (BlockSize prm))"
    and "bgn \<equiv> align_up (BlockAlign prm) raw"
  shows "raw \<le> bgn + i * st" and "bgn + i * st + st \<le> raw + bytes"
    and "pool_count prm raw bytes < 0xFFFF"
proof -
  obtain k where "BlockAlign prm = 2 ^ k" using ok by (auto simp: params_ok_def)
  then have "raw \<le> bgn" unfolding bgn_def by (rule align_up_bounds(1))
  then show "raw \<le> bgn + i * st" by simp
  have le: "bgn \<le> raw + bytes" and cnt: "pool_count prm raw bytes =
      min ((raw + bytes - bgn) div st) (unat (Capacity prm))"
    using n by (auto simp: pool_count_def Let_def st_def bgn_def split: if_splits)
  have "Suc i \<le> (raw + bytes - bgn) div st" using i cnt by simp
  then have "Suc i * st \<le> (raw + bytes - bgn) div st * st" by (rule mult_le_mono1)
  also have "\<dots> \<le> raw + bytes - bgn" by simp
  finally show "bgn + i * st + st \<le> raw + bytes" using le by simp
  show "pool_count prm raw bytes < 0xFFFF" using cnt ok by (auto simp: params_ok_def min_def)
qed

text \<open>The pool object that a successful initialisation leaves behind.\<close>
lemma pool_init_state:
  assumes ok: "params_ok prm" and n: "0 < pool_count prm raw bytes" and raw: "raw \<noteq> 0"
    and m: "m = init_chain (align_up (BlockAlign prm) raw)
        (of_nat (pool_block_align (BlockAlign prm) (unat (BlockSize prm)))) 0 (pool_count prm raw bytes) m0"
    and p: "free_head p = pool_pack_head 0 0" "base p = align_up (BlockAlign prm) raw"
      "block_size p = of_nat (pool_block_align (BlockAlign prm) (unat (BlockSize prm)))"
      "capacity p = of_nat (pool_count prm raw bytes)" "used p = 0" "pool_id p \<noteq> 0" "cs_bound p"
  shows "pool_state m p [0..<pool_count prm raw bytes] []"
    and "unat (capacity p) = pool_count prm raw bytes"
    and "\<And>i. i < pool_count prm raw bytes \<Longrightarrow> raw \<le> blk p i \<and> blk p i + unat (block_size p) \<le> raw + bytes"
proof -
  let ?st = "pool_block_align (BlockAlign prm) (unat (BlockSize prm))"
    and ?n = "pool_count prm raw bytes"
  note st = stride_bounds [OF ok] and B = pool_count_bounds [OF ok n]
  have bs: "unat (block_size p) = ?st" using st(2) p(3) by simp
  have small: "?n < 0xFFFF" using B(3) n by blast
  show cap: "unat (capacity p) = ?n" using small p(4) by (simp add: unat_of_nat_small)
  show "\<And>i. i < ?n \<Longrightarrow> raw \<le> blk p i \<and> blk p i + unat (block_size p) \<le> raw + bytes"
    using B(1,2) by (simp add: blk_def bs p(2))
  have "0 < base p" using B(1) [OF n] raw p(2) by simp
  then have wf: "pool_wf p" using p st(1) small n cap bs by (simp add: pool_wf_def)
  have "m (blk p j) = (if j + 1 < ?n then of_nat (j + 1) else pool_index_invalid)" if "j < ?n" for j
    using that small st(1,3) init_chain_block [of "of_nat ?st" 0 j ?n "align_up (BlockAlign prm) raw" m0]
    by (simp add: m blk_def bs p(2))
  then have "free_chain m p (of_nat 0) [0..<?n]" using cap n by (intro free_chain_upto) simp_all
  then show "pool_state m p [0..<?n] []" using wf cap p(1,5) by (simp add: pool_state_def)
qed

lemma registered_set_slot:
  assumes "registry w ! k = None" "k < length (registry w)" "registry w' = (registry w)[k := Some self]"
  shows "registered w' r \<longleftrightarrow> registered w r \<or> r = self"
proof -
  have "Some r \<in> set ((registry w)[k := Some self])" if r: "Some r \<in> set (registry w)"
  proof -
    obtain j where j: "j < length (registry w)" "registry w ! j = Some r" using r by (metis in_set_conv_nth)
    then have "j \<noteq> k" using assms(1) by auto
    then show ?thesis using j by (metis length_list_update nth_list_update_neq nth_mem)
  qed
  moreover have "Some self \<in> set ((registry w)[k := Some self])"
    using assms(2) by (simp add: set_update_memI)
  ultimately show ?thesis
    using assms(3) set_update_subset_insert [of "registry w" k "Some self"] by (auto simp: registered_def)
qed

lemma pool_record_set_slot:
  assumes "registry w ! k = None" "k < length (registry w)" "registry w' = (registry w)[k := Some self]"
    "pool_record w pid = Some r"
  shows "pool_record w' pid = Some r"
  using assms by (auto simp: pool_record_def nth_list_update split: if_splits)

text \<open>Adding a pool whose blocks are disjoint from the blocks of the registered ones.\<close>
lemma world_add_pool:
  assumes inv: "world_inv w F P" and k: "registry w ! k = None" "k < 16"
    and new: "\<not> registered w self"
    and w': "registry w' = (registry w)[k := Some self]" "\<And>r. r \<noteq> self \<Longrightarrow> pools w' r = pools w r"
      "unat (pool_id (pools w' self)) = k + 1"
    and st: "pool_state (mem w') (pools w' self) fr []"
    and sep: "\<And>r i j. \<lbrakk>registered w r; i < unat (capacity (pools w r)); j < unat (capacity (pools w' self))\<rbrakk>
        \<Longrightarrow> blk (pools w r) i \<noteq> blk (pools w' self) j"
    and memo: "\<And>a. (\<And>j. j < unat (capacity (pools w' self)) \<Longrightarrow> a \<noteq> blk (pools w' self) j)
        \<Longrightarrow> mem w' a = mem w a"
  shows "world_inv w' (F(self := fr)) (P(self := []))" and "registered w' self"
proof -
  have len: "length (registry w) = 16" using inv by (simp add: world_inv_def)
  have reg: "registered w' r \<longleftrightarrow> registered w r \<or> r = self" for r
    using registered_set_slot [OF k(1) _ w'(1)] k(2) len by simp
  then show "registered w' self" by simp
  let ?F = "F(self := fr)" and ?P = "P(self := [])"
  have "pool_record w' (pool_id (pools w' r)) = Some r
      \<and> pool_state (mem w') (pools w' r) (?F r) (?P r)" if r: "registered w' r" for r
  proof (cases "r = self")
    case True
    have "pool_id (pools w' self) \<noteq> 0" using w'(3) by (metis add_is_0 one_neq_zero unat_0)
    then have "pool_record w' (pool_id (pools w' self)) = Some self"
      using w'(1,3) k(2) len by (simp add: pool_record_def kMaxEventPools_def word_less_nat_alt)
    then show ?thesis using True st by simp
  next
    case False
    then have r0: "registered w r" using r reg by blast
    have "\<forall>i < unat (capacity (pools w r)). mem w' (blk (pools w r) i) = mem w (blk (pools w r) i)"
      using sep [OF r0] memo by blast
    then have "pool_state (mem w') (pools w r) (F r) (P r)"
      using world_invD(2) [OF inv r0] pool_state_frame by blast
    then show ?thesis
      using False w'(2) pool_record_set_slot [OF k(1) _ w'(1) world_invD(1) [OF inv r0]] k(2) len by simp
  qed
  moreover have "blk (pools w' r) i \<noteq> blk (pools w' s) j"
    if "registered w' r" "registered w' s" "r \<noteq> s" "i < unat (capacity (pools w' r))"
      "j < unat (capacity (pools w' s))" for r s i j
    using that inv sep w'(2) reg unfolding world_inv_def by metis
  ultimately show "world_inv w' ?F ?P" using len w'(1) by (auto simp: world_inv_def)
qed

lemma live_map_add_pool:
  assumes inv: "world_inv w F P" and inv': "world_inv w' (F(self := fr)) (P(self := []))"
    and new: "\<not> registered w self" and reg: "\<And>r. registered w' r \<longleftrightarrow> registered w r \<or> r = self"
    and pools: "\<And>r. r \<noteq> self \<Longrightarrow> pools w' r = pools w r"
    and all: "set fr = {..< unat (capacity (pools w' self))}"
    and same: "\<And>r i. \<lbrakk>registered w r; i < unat (capacity (pools w r))\<rbrakk>
        \<Longrightarrow> mem w' (blk (pools w r) i) = mem w (blk (pools w r) i)"
  shows "live_map w' (F(self := fr)) (P(self := [])) = live_map w F P"
proof
  fix a
  have "live w' (F(self := fr)) (P(self := [])) a r i \<longleftrightarrow> live w F P a r i" for r i
    using new all by (cases "r = self") (auto simp: live_def reg pools)
  moreover have "live w F P a r i \<Longrightarrow> mem w' a = mem w a" for r i
    using same by (auto simp: live_def)
  ultimately show "live_map w' (F(self := fr)) (P(self := [])) a = live_map w F P a"
    by (auto simp: live_map_def event_at_def)
qed

text \<open>The world after the code of a successful initialisation, slot k of the registry being free.\<close>
definition init_world :: "PoolParams \<Rightarrow> nat \<Rightarrow> nat \<Rightarrow> nat \<Rightarrow> nat \<Rightarrow> PoolWorld \<Rightarrow> PoolWorld" where
  "init_world prm self raw bytes k w =
     (let n = pool_count prm raw bytes; bgn = align_up (BlockAlign prm) raw;
          st = pool_block_align (BlockAlign prm) (unat (BlockSize prm))
      in w\<lparr>mem := init_chain bgn (of_nat st) 0 n (mem w),
           registry := (registry w)[k := Some self],
           pools := (pools w)(self := (pools w self)\<lparr>free_head := pool_pack_head 0 0, base := bgn,
             block_size := of_nat st, capacity := of_nat n, used := 0, high_watermark := 0,
             cs_bound := True, single_core := SingleCore prm, pool_id := of_nat (k + 1)\<rparr>)\<rparr>)"

lemma pool_init_code:
  assumes n: "0 < pool_count prm raw bytes" and raw: "raw \<noteq> 0"
    and self: "\<not> registered w self" "pool_id (pools w self) = 0"
    and k: "registry_find None (registry w) 0 = Some k" "k < 16"
  shows "pool_init prm self raw bytes True w = (True, init_world prm self raw bytes k w)"
proof -
  have sf: "registry_find (Some self) (registry w) 0 = None"
    using self(1) by (simp add: registry_find_None registered_def)
  have "unat (of_nat (k + 1) :: u8) = k + 1" using k by (intro unat_of_nat_small) simp
  then have idk: "(of_nat (k + 1) :: u8) \<noteq> 0" by (metis add_is_0 one_neq_zero unat_0)
  have cnt: "(if align_up (BlockAlign prm) raw \<le> raw + bytes
      then min ((raw + bytes - align_up (BlockAlign prm) raw)
          div pool_block_align (BlockAlign prm) (unat (BlockSize prm))) (unat (Capacity prm)) else 0)
      = pool_count prm raw bytes" by (simp add: pool_count_def Let_def)
  show ?thesis
    using self raw n idk sf k
    by (simp add: pool_init_def Let_def cnt register_pool_def upd_pool_def init_world_def
        del: of_nat_Suc of_nat_add)
qed

lemma pool_init_refines:
  assumes inv: "world_inv w F P" and ok: "params_ok prm" and n: "0 < pool_count prm raw bytes"
    and raw: "raw \<noteq> 0" and self: "\<not> registered w self" "pool_id (pools w self) = 0"
    and slot: "None \<in> set (registry w)"
    and disj: "\<And>r i. \<lbrakk>registered w r; i < unat (capacity (pools w r))\<rbrakk>
        \<Longrightarrow> \<not> (raw \<le> blk (pools w r) i \<and> blk (pools w r) i < raw + bytes)"
  shows "\<exists>w'. pool_init prm self raw bytes True w = (True, w')
      \<and> world_inv w' (F(self := [0..<pool_count prm raw bytes])) (P(self := []))
      \<and> registered w' self \<and> unat (capacity (pools w' self)) = pool_count prm raw bytes
      \<and> used (pools w' self) = 0
      \<and> (\<forall>i < pool_count prm raw bytes. raw \<le> blk (pools w' self) i
            \<and> blk (pools w' self) i + unat (block_size (pools w' self)) \<le> raw + bytes)
      \<and> live_map w' (F(self := [0..<pool_count prm raw bytes])) (P(self := [])) = live_map w F P"
proof -
  let ?n = "pool_count prm raw bytes"
  obtain k where k: "registry_find None (registry w) 0 = Some k"
    using slot registry_find_None [of None "registry w" 0] by (cases "registry_find None (registry w) 0") auto
  have kn: "k < 16" "registry w ! k = None"
    using registry_find_Some [OF k] inv by (auto simp: world_inv_def)
  have kid: "unat (of_nat (k + 1) :: u8) = k + 1" using kn by (intro unat_of_nat_small) simp
  define w' where "w' = init_world prm self raw bytes k w"
  note W = init_world_def [of prm self raw bytes k w] Let_def
  have idk: "(of_nat (k + 1) :: u8) \<noteq> 0" using kid by (metis add_is_0 one_neq_zero unat_0)
  have I: "pool_state (mem w') (pools w' self) [0..<?n] []" "unat (capacity (pools w' self)) = ?n"
    "\<And>i. i < ?n \<Longrightarrow> raw \<le> blk (pools w' self) i
        \<and> blk (pools w' self) i + unat (block_size (pools w' self)) \<le> raw + bytes"
    using pool_init_state [where p = "pools w' self" and ?m0.0 = "mem w", OF ok n raw refl] idk
    by (simp_all add: w'_def W del: of_nat_Suc of_nat_add)
  have st: "0 < unat (block_size (pools w' self))" using pool_stateD(1) [OF I(1)] by (simp add: pool_wf_def)
  have sep: "blk (pools w r) i \<noteq> blk (pools w' self) j"
    if "registered w r" "i < unat (capacity (pools w r))" "j < unat (capacity (pools w' self))" for r i j
    using disj [OF that(1,2)] I(3) [of j] that(3) I(2) st by auto
  have memo: "mem w' a = mem w a" if "\<And>j. j < unat (capacity (pools w' self)) \<Longrightarrow> a \<noteq> blk (pools w' self) j" for a
  proof -
    have "a \<noteq> align_up (BlockAlign prm) raw + j * unat (of_nat (pool_block_align (BlockAlign prm)
        (unat (BlockSize prm))) :: u32)" if "j < ?n" for j
      using \<open>\<And>j. j < unat (capacity (pools w' self)) \<Longrightarrow> a \<noteq> blk (pools w' self) j\<close> [of j] that I(2)
        stride_bounds(2,3) [OF ok] by (simp add: blk_def w'_def W)
    then show ?thesis using pool_count_bounds(3) [OF ok n n]
      unfolding w'_def W by (simp add: init_chain_other)
  qed
  have w': "registry w' = (registry w)[k := Some self]" "\<And>r. r \<noteq> self \<Longrightarrow> pools w' r = pools w r"
    "unat (pool_id (pools w' self)) = k + 1" "used (pools w' self) = 0"
    using kid by (simp_all add: w'_def W del: of_nat_Suc of_nat_add)
  note A = world_add_pool [OF inv kn(2,1) self(1) w'(1-3) I(1) sep memo]
  have reg: "registered w' r \<longleftrightarrow> registered w r \<or> r = self" for r
    using registered_set_slot [OF kn(2) _ w'(1)] kn(1) inv by (simp add: world_inv_def)
  have "live_map w' (F(self := [0..<?n])) (P(self := [])) = live_map w F P"
    by (rule live_map_add_pool [OF inv A(1) self(1) reg w'(2)]) (use I(2) sep memo in auto)
  then show ?thesis
    using pool_init_code [OF n raw self k kn(1)] A I(2,3) w'(4) by (simp add: w'_def)
qed

section \<open>Reclaim strategies\<close>

text \<open>Without deferred blocks the usage counter is the number of live blocks.\<close>
lemma used_card:
  assumes inv: "world_inv w F (\<lambda>_. [])" and r: "registered w r"
  shows "unat (used (pools w r))
    = card {i. i < unat (capacity (pools w r)) \<and> live_map w F (\<lambda>_. []) (blk (pools w r) i) \<noteq> None}"
proof -
  let ?c = "unat (capacity (pools w r))"
  note D = pool_stateD [OF world_invD(2) [OF inv r]]
  have "{i. i < ?c \<and> live_map w F (\<lambda>_. []) (blk (pools w r) i) \<noteq> None} = {..<?c} - set (F r)"
    using live_map_block [OF inv r] by (auto split: if_splits)
  moreover have "card ({..<?c} - set (F r)) = ?c - length (F r)"
    using D(3,5) by (subst card_Diff_subset) (auto simp: distinct_card)
  ultimately show ?thesis using D(6) by simp
qed

lemma strategies_agree:
  assumes inv: "world_inv w F (\<lambda>_. [])" and ok: "releasable w (live_map w F (\<lambda>_. [])) es"
    and n: "unat n < 256"
  shows "\<exists>w1 F1 b w2 b3 w3 F3.
      release_all immediate_release es () w = Some ((), w1) \<and> world_inv w1 F1 (\<lambda>_. [])
    \<and> release_all batcher_release es (batcher_init n) w = Some (b, w2)
    \<and> batcher_flush b w2 = (b3, w3) \<and> world_inv w3 F3 (\<lambda>_. [])
    \<and> live_map w1 F1 (\<lambda>_. []) = fold spec_gc es (live_map w F (\<lambda>_. []))
    \<and> live_map w3 F3 (\<lambda>_. []) = live_map w1 F1 (\<lambda>_. [])
    \<and> (\<forall>r. registered w r \<longrightarrow> used (pools w3 r) = used (pools w1 r))"
proof -
  let ?L = "live_map w F (\<lambda>_. [])"
  obtain w1 F1 where I: "release_all immediate_release es () w = Some ((), w1)" "world_inv w1 F1 (\<lambda>_. [])"
    "live_map w1 F1 (\<lambda>_. []) = fold spec_gc es ?L" "world_frame w w1"
    using immediate.release_all_refines [OF inv refl ok] by auto
  obtain b w2 F2 P2 where B: "release_all batcher_release es (batcher_init n) w = Some (b, w2)"
    "world_inv w2 F2 P2" "batch_inv b w2 P2" "live_map w2 F2 P2 = fold spec_gc es ?L" "world_frame w w2"
    using batched.release_all_refines [OF inv batch_inv_init [OF n] ok] by blast
  obtain b3 w3 F3 where X: "batcher_flush b w2 = (b3, w3)" "world_inv w3 F3 (\<lambda>_. [])"
    "live_map w3 F3 (\<lambda>_. []) = live_map w2 F2 P2" "world_frame w2 w3"
    using batched.flush_all [OF B(2,3)] by blast
  have eq: "live_map w3 F3 (\<lambda>_. []) = live_map w1 F1 (\<lambda>_. [])" using I(3) B(4) X(3) by simp
  note f3 = world_frame_same [OF world_frame_trans [OF B(5) X(4)]] and f1 = world_frame_same [OF I(4)]
  have "used (pools w3 r) = used (pools w1 r)" if r: "registered w r" for r
    using used_card [OF I(2), of r] used_card [OF X(2), of r] r
    by (simp add: f1 f3 eq word_unat_eq_iff)
  then show ?thesis using I B X eq by blast
qed

section \<open>A returned block\<close>

text \<open>
  The word of a returned block is a free-list index below 65536, whose byte at the
  place of the pool id is zero.
\<close>
lemma free_word_static: "ev_pool_id (event_of_word (x AND 0xFFFF)) = 0"
  unfolding event_of_word_def Event.select_convs
  by (rule bit_eqI) (auto simp: bit_simps and_ffff)

lemma returned_word:
  assumes inv: "world_inv w F P" and lv: "live w F P e r i" and c: "ref_ctr (event_at w e) = 1"
    and gc: "event_gc e w = Some w'"
  shows "mem w' e = pool_head_index (free_head (pools w r))"
proof -
  note H = live_header [OF inv lv]
  have L: "registered w r" "e = blk (pools w r) i" using lv by (auto simp: live_def)
  note wf = world_invD(3) [OF inv L(1)]
  have "pool_record (set_event e ev w) pid = pool_record w pid" "pools (set_event e ev w) = pools w"
    "event_at (set_event e ev w) e = ev" for ev pid
    by (simp_all add: pool_record_def set_event_def event_at_def)
  then show ?thesis
    using gc H c blk_pos [OF wf, of i] L(2)
    by (auto simp: event_gc_def reclaim_def Let_def upd_pool_def store_next_def)
qed

section \<open>Properties\<close>

text \<open>A concrete world for the instances below: one pool of four 16-byte blocks.\<close>
definition demo_world0 :: PoolWorld where
  "demo_world0 = \<lparr>mem = (\<lambda>_. 0), registry = replicate 16 None,
     pools = (\<lambda>_. \<lparr>free_head = 0, base = 0, block_size = 0, capacity = 0, used = 0,
                    high_watermark = 0, pool_id = 0, cs_bound = False, single_core = False\<rparr>)\<rparr>"

definition demo_params :: PoolParams where
  "demo_params = \<lparr>BlockSize = 16, Capacity = 4, SingleCore = False, BlockAlign = 8\<rparr>"

definition demo_world :: PoolWorld where
  "demo_world = snd (pool_init demo_params 7 1000 64 True demo_world0)"

abbreviation demo_free :: "nat \<Rightarrow> nat list" where
  "demo_free \<equiv> (\<lambda>_. [])(7 := [0..<4])"

lemma demo_world0_inv: "world_inv demo_world0 F P" "\<not> registered demo_world0 r"
  by (simp_all add: world_inv_def demo_world0_def registered_def)

lemma demo_count: "pool_count demo_params 1000 64 = 4"
  by code_simp

lemma demo_params_ok: "params_ok demo_params"
proof -
  have "BlockAlign demo_params = 2 ^ 3" by (simp add: demo_params_def)
  then have "\<exists>k. BlockAlign demo_params = 2 ^ k" by blast
  moreover have "pool_block_align 8 16 = 16" by code_simp
  ultimately show ?thesis by (simp add: params_ok_def demo_params_def)
qed

lemma demo_world_inv:
  "pool_init demo_params 7 1000 64 True demo_world0 = (True, demo_world)"
  "world_inv demo_world demo_free (\<lambda>_. [])" "registered demo_world 7"
  "unat (capacity (pools demo_world 7)) = 4" "used (pools demo_world 7) = 0"
  "live_map demo_world demo_free (\<lambda>_. []) = Map.empty"
proof -
  have "pool_id (pools demo_world0 7) = 0" "None \<in> set (registry demo_world0)"
    by (simp_all add: demo_world0_def)
  moreover have "live_map demo_world0 (\<lambda>_. []) (\<lambda>_. []) = Map.empty"
    using demo_world0_inv(2) by (auto simp: live_map_def live_def)
  moreover have "((\<lambda>_. [])(7 := [])) = (\<lambda>_ :: nat. [] :: nat list)" by auto
  ultimately show "pool_init demo_params 7 1000 64 True demo_world0 = (True, demo_world)"
    "world_inv demo_world demo_free (\<lambda>_. [])" "registered demo_world 7"
    "unat (capacity (pools demo_world 7)) = 4" "used (pools demo_world 7) = 0"
    "live_map demo_world demo_free (\<lambda>_. []) = Map.empty"
    using pool_init_refines [OF demo_world0_inv(1) demo_params_ok, of 1000 64 7 "\<lambda>_. []" "\<lambda>_. []"]
      demo_world0_inv(2)
    unfolding demo_count demo_world_def by force+
qed

definition demo_world1 :: PoolWorld where
  "demo_world1 = snd (alloc_with_margin 7 5 0 demo_world)"

lemma demo_live:
  "\<exists>F e r i. world_inv demo_world1 F (\<lambda>_. []) \<and> live demo_world1 F (\<lambda>_. []) e r i
     \<and> ref_ctr (event_at demo_world1 e) = 1"
proof -
  have room: "unat (used (pools demo_world 7)) + unat (0 :: u16) < unat (capacity (pools demo_world 7))"
    using demo_world_inv(4,5) by simp
  let ?ev = "\<lparr>signal = 5, ev_pool_id = pool_id (pools demo_world 7), ref_ctr = 1\<rparr>"
  obtain a F where A: "world_inv demo_world1 F (\<lambda>_. [])" "live_map demo_world1 F (\<lambda>_. []) a = Some ?ev"
    using alloc_refines [OF demo_world_inv(2,3) room, of 5] unfolding demo_world1_def by force
  then obtain r i where "live demo_world1 F (\<lambda>_. []) a r i" "event_at demo_world1 a = ?ev"
    by (auto simp: live_map_def split: if_splits)
  then show ?thesis using A(1) by fastforce
qed

text \<open>
  C18. Allocation with a margin succeeds exactly when more than \<^verbatim>\<open>margin\<close> blocks are
  free. It then returns the address of a block no live event occupies, whose header
  carries the signal, the pool id and one reference, leaves every other live event
  as it is, and counts the block in \<^verbatim>\<open>used\<close> and \<^verbatim>\<open>high_watermark\<close>; otherwise it
  returns the null pointer and changes nothing.
\<close>
theorem alloc_correct:
  assumes "world_inv w F P" and "registered w r"
  shows "if unat (used (pools w r)) + unat margin < unat (capacity (pools w r))
    then \<exists>a w' F'. alloc_with_margin r sig margin w = (Some a, w') \<and> world_inv w' F' P
        \<and> a \<noteq> 0 \<and> live_map w F P a = None
        \<and> live_map w' F' P =
            (live_map w F P)(a := Some \<lparr>signal = sig, ev_pool_id = pool_id (pools w r), ref_ctr = 1\<rparr>)
        \<and> used (pools w' r) = used (pools w r) + 1
        \<and> high_watermark (pools w' r) = max (high_watermark (pools w r)) (used (pools w r) + 1)
    else alloc_with_margin r sig margin w = (None, w)"
  using alloc_refines [OF assms, of margin sig] alloc_full [OF assms, of margin sig]
  by (auto simp: not_less)

theorem alloc_correct_witness:
  "world_inv demo_world demo_free (\<lambda>_. []) \<and> registered demo_world 7
   \<and> (\<exists>a w' F'. alloc_with_margin 7 5 0 demo_world = (Some a, w') \<and> world_inv w' F' (\<lambda>_. []))
   \<and> alloc_with_margin 7 5 4 demo_world = (None, demo_world)"
  using alloc_correct [OF demo_world_inv(2,3), of 0 5] alloc_correct [OF demo_world_inv(2,3), of 4 5]
    demo_world_inv(2-5)
  by auto

text \<open>
  C19. Releasing a reference of a live event never aborts and never disturbs another
  event: the count drops by one, and the release of the last reference returns the
  block to its own pool, keeping the invariant of every pool.
\<close>
theorem event_gc_correct:
  assumes "world_inv w F P" and "live w F P e r i"
  shows "\<exists>w' F'. event_gc e w = Some w' \<and> world_inv w' F' P
      \<and> live_map w' F' P =
          (if ref_ctr (event_at w e) = 1 then (live_map w F P)(e := None)
           else (live_map w F P)(e := Some ((event_at w e)\<lparr>ref_ctr := ref_ctr (event_at w e) - 1\<rparr>)))"
proof -
  have "live_map w F P e = Some (event_at w e)" by (rule live_map_Some [OF assms(2)])
  then show ?thesis using event_gc_refines [OF assms] by (simp add: spec_gc_def) metis
qed

theorem event_gc_correct_witness:
  "\<exists>F e r i w' F'. world_inv demo_world1 F (\<lambda>_. []) \<and> live demo_world1 F (\<lambda>_. []) e r i
     \<and> event_gc e demo_world1 = Some w' \<and> world_inv w' F' (\<lambda>_. [])
     \<and> live_map w' F' (\<lambda>_. []) e = None"
proof -
  obtain F e r i where d: "world_inv demo_world1 F (\<lambda>_. [])" "live demo_world1 F (\<lambda>_. []) e r i"
    "ref_ctr (event_at demo_world1 e) = 1" using demo_live by blast
  then show ?thesis using event_gc_correct [OF d(1,2)] by fastforce
qed

text \<open>
  C20. The two reclaim strategies are equivalent: releasing any sequence of events,
  none of them more often than it has references, one by one with \<^verbatim>\<open>event_gc\<close> or
  through \<^verbatim>\<open>ReclaimBatcher\<close> and a final \<^verbatim>\<open>flush\<close> (with any table size, so also when
  the table overflows and when a chain reaches its cap) never aborts and ends with
  the same live events and the same \<^verbatim>\<open>used\<close> counter in every pool.
\<close>
theorem reclaimers_equivalent:
  assumes "world_inv w F (\<lambda>_. [])" and "releasable w (live_map w F (\<lambda>_. [])) es" and "unat n < 256"
  shows "\<exists>w1 F1 b w2 b3 w3 F3.
      release_all immediate_release es () w = Some ((), w1) \<and> world_inv w1 F1 (\<lambda>_. [])
    \<and> release_all batcher_release es (batcher_init n) w = Some (b, w2)
    \<and> batcher_flush b w2 = (b3, w3) \<and> world_inv w3 F3 (\<lambda>_. [])
    \<and> live_map w1 F1 (\<lambda>_. []) = fold spec_gc es (live_map w F (\<lambda>_. []))
    \<and> live_map w3 F3 (\<lambda>_. []) = live_map w1 F1 (\<lambda>_. [])
    \<and> (\<forall>r. registered w r \<longrightarrow> used (pools w3 r) = used (pools w1 r))"
  using assms by (rule strategies_agree)

theorem reclaimers_equivalent_witness:
  "\<exists>F e. world_inv demo_world1 F (\<lambda>_. []) \<and> releasable demo_world1 (live_map demo_world1 F (\<lambda>_. [])) [e]
     \<and> (\<exists>w1 b w2 b3 w3. release_all immediate_release [e] () demo_world1 = Some ((), w1)
          \<and> release_all batcher_release [e] (batcher_init 4) demo_world1 = Some (b, w2)
          \<and> batcher_flush b w2 = (b3, w3)
          \<and> (\<forall>r. registered demo_world1 r \<longrightarrow> used (pools w3 r) = used (pools w1 r)))"
proof -
  obtain F e r i where d: "world_inv demo_world1 F (\<lambda>_. [])" "live demo_world1 F (\<lambda>_. []) e r i"
    "ref_ctr (event_at demo_world1 e) = 1" using demo_live by blast
  then have "releasable demo_world1 (live_map demo_world1 F (\<lambda>_. [])) [e]"
    by (simp add: releasable_def live_map_Some [OF d(2)])
  then show ?thesis using reclaimers_equivalent [OF d(1), of "[e]" 4] d(1) by fastforce
qed

text \<open>
  C21. Initialising a pool on storage that is disjoint from the blocks of the other
  registered pools succeeds when a block fits and a registry slot is free. Every
  block then lies inside the storage, all blocks are free and pairwise distinct, and
  no live event of another pool is touched.
\<close>
theorem pool_init_correct:
  assumes "world_inv w F P" and "params_ok prm" and "0 < pool_count prm raw bytes" and "raw \<noteq> 0"
    and "\<not> registered w self" and "pool_id (pools w self) = 0" and "None \<in> set (registry w)"
    and "\<And>r i. \<lbrakk>registered w r; i < unat (capacity (pools w r))\<rbrakk>
        \<Longrightarrow> \<not> (raw \<le> blk (pools w r) i \<and> blk (pools w r) i < raw + bytes)"
  shows "\<exists>w'. pool_init prm self raw bytes True w = (True, w')
      \<and> world_inv w' (F(self := [0..<pool_count prm raw bytes])) (P(self := []))
      \<and> registered w' self \<and> unat (capacity (pools w' self)) = pool_count prm raw bytes
      \<and> used (pools w' self) = 0
      \<and> (\<forall>i < pool_count prm raw bytes. raw \<le> blk (pools w' self) i
            \<and> blk (pools w' self) i + unat (block_size (pools w' self)) \<le> raw + bytes)
      \<and> live_map w' (F(self := [0..<pool_count prm raw bytes])) (P(self := [])) = live_map w F P"
  using assms by (rule pool_init_refines)

theorem pool_init_correct_witness:
  "params_ok demo_params \<and> pool_count demo_params 1000 64 = 4
   \<and> (\<exists>w'. pool_init demo_params 7 1000 64 True demo_world0 = (True, w') \<and> registered w' 7
         \<and> unat (capacity (pools w' 7)) = 4)"
  using pool_init_correct [OF demo_world0_inv(1) demo_params_ok, of 1000 64 7 "\<lambda>_. []" "\<lambda>_. []"]
    demo_world0_inv(2) demo_params_ok unfolding demo_count by (force simp: demo_world0_def)

text \<open>
  C25. A second release of a block that was already returned is not noticed: the
  free-list link that overlays the header makes the block look like a static event,
  so \<^verbatim>\<open>event_gc\<close> returns silently, although the comment in its body calls a
  double release a protocol violation that must not be ignored.
\<close>
theorem double_release_unnoticed:
  assumes "world_inv w F P" and "live w F P e r i" and "ref_ctr (event_at w e) = 1"
  shows "\<exists>w'. event_gc e w = Some w' \<and> event_gc e w' = Some w'"
proof -
  obtain w' where w': "event_gc e w = Some w'" using event_gc_refines [OF assms(1,2)] by blast
  have "ev_pool_id (event_at w' e) = 0"
    using returned_word [OF assms w'] free_word_static by (simp add: event_at_def pool_head_index_def)
  then show ?thesis using w' live_header(5) [OF assms(1,2)] by (simp add: event_gc_def)
qed

theorem double_release_unnoticed_witness:
  "\<exists>F e r i w'. world_inv demo_world1 F (\<lambda>_. []) \<and> live demo_world1 F (\<lambda>_. []) e r i
     \<and> ref_ctr (event_at demo_world1 e) = 1
     \<and> event_gc e demo_world1 = Some w' \<and> event_gc e w' = Some w'"
proof -
  obtain F e r i where d: "world_inv demo_world1 F (\<lambda>_. [])" "live demo_world1 F (\<lambda>_. []) e r i"
    "ref_ctr (event_at demo_world1 e) = 1" using demo_live by blast
  then show ?thesis using double_release_unnoticed [OF d] by blast
qed

end
