(* ===== verification/Hsm.thy ===== *)
theory Hsm
  imports Event_Pool
begin

text \<open>
  The hierarchical state machine of hsm.hpp. State and transition tables hold the
  application's callbacks, which are functions on the application context; state
  indices are the signed bytes of the tables, and the null callback is \<^verbatim>\<open>None\<close>.

  \<^item> Reading a table outside its bounds is undefined behaviour in C++; here it is the
    value \<^verbatim>\<open>None\<close>, as is a failed assertion. A result \<^verbatim>\<open>Some\<close> therefore also says that
    no read was out of bounds.
  \<^item> The loops that follow parent links end only on a valid table. They are partial
    functions, for which \<^verbatim>\<open>None\<close> also covers a loop that does not end.
\<close>

section \<open>Tables and operations\<close>

datatype TransitionKind = External | Internal | Self

record 'c StateDef =
  parent :: int
  entry_act :: "('c \<Rightarrow> 'c) option"
  exit_act :: "('c \<Rightarrow> 'c) option"
  state_name :: "string option"
  initial_child :: int

record 'c TransitionDef =
  t_source :: int
  t_signal :: u16
  t_target :: int
  t_kind :: TransitionKind
  t_guard :: "('c \<Rightarrow> Event \<Rightarrow> bool) option"
  t_action :: "('c \<Rightarrow> Event \<Rightarrow> 'c) option"

record 'c Hsm =
  states :: "'c StateDef list"
  transitions :: "'c TransitionDef list"
  initial_state :: int
  max_depth :: u8
  current :: int

definition run_act :: "('c \<Rightarrow> 'c) option \<Rightarrow> 'c \<Rightarrow> 'c" where
  "run_act f ctx = (case f of None \<Rightarrow> ctx | Some g \<Rightarrow> g ctx)"

definition run_action :: "('c \<Rightarrow> Event \<Rightarrow> 'c) option \<Rightarrow> 'c \<Rightarrow> Event \<Rightarrow> 'c" where
  "run_action f ctx evt = (case f of None \<Rightarrow> ctx | Some g \<Rightarrow> g ctx evt)"

definition state_at :: "'c Hsm \<Rightarrow> int \<Rightarrow> 'c StateDef option" where
  "state_at h s = (if 0 \<le> s \<and> s < int (length (states h)) then Some (states h ! nat s) else None)"

definition parent_of :: "'c Hsm \<Rightarrow> int \<Rightarrow> int option" where
  "parent_of h s = map_option parent (state_at h s)"

text \<open>The inner loop of the validation, with the number of hops still allowed.\<close>
fun validate_chain :: "'c StateDef list \<Rightarrow> nat \<Rightarrow> int \<Rightarrow> unit option" where
  "validate_chain sts k state =
     (if state < 0 then Some ()
      else do {
        coact_assert (state < int (length sts));
        (case k of
           0 \<Rightarrow> None
         | Suc k' \<Rightarrow> validate_chain sts k' (parent (sts ! nat state)))
      })"

definition validate_state :: "'c StateDef list \<Rightarrow> nat \<Rightarrow> unit option" where
  "validate_state sts index = do {
     let sd = sts ! index;
     coact_assert (parent sd \<ge> -1);
     let child = initial_child sd;
     coact_assert (child \<ge> -1);
     (if child \<ge> 0 then do {
        coact_assert (child < int (length sts));
        coact_assert (parent (sts ! nat child) = int index)
      } else Some ());
     validate_chain sts (length sts) (int index)
   }"

fun validate_states :: "'c StateDef list \<Rightarrow> nat list \<Rightarrow> unit option" where
  "validate_states sts [] = Some ()"
| "validate_states sts (i # is) = do { validate_state sts i; validate_states sts is }"

definition validate_topology :: "'c Hsm \<Rightarrow> unit option" where
  "validate_topology h = do {
     coact_assert (length (states h) \<le> 128);
     validate_states (states h) [0..<length (states h)]
   }"

definition hsm_new :: "'c StateDef list \<Rightarrow> 'c TransitionDef list \<Rightarrow> int \<Rightarrow> u8 \<Rightarrow> 'c Hsm option" where
  "hsm_new sts trs init depth = do {
     let h = \<lparr>states = sts, transitions = trs, initial_state = init, max_depth = depth, current = -1\<rparr>;
     validate_topology h;
     Some h
   }"

partial_function (option) chain_depth_loop :: "'c Hsm \<Rightarrow> int \<Rightarrow> nat \<Rightarrow> nat option" where
  "chain_depth_loop h state depth =
     (if state \<ge> 0 then do { p \<leftarrow> parent_of h state; chain_depth_loop h p (depth + 1) }
      else Some depth)"

definition chain_depth :: "'c Hsm \<Rightarrow> int \<Rightarrow> nat option" where
  "chain_depth h state = chain_depth_loop h state 0"

fun climb_by :: "'c Hsm \<Rightarrow> nat \<Rightarrow> int \<Rightarrow> int option" where
  "climb_by h 0 state = Some state"
| "climb_by h (Suc k) state = do { p \<leftarrow> parent_of h state; climb_by h k p }"

definition ancestor_at_depth :: "'c Hsm \<Rightarrow> int \<Rightarrow> nat \<Rightarrow> int option" where
  "ancestor_at_depth h state depth = do {
     current_depth \<leftarrow> chain_depth h state;
     climb_by h (current_depth - depth) state
   }"

partial_function (option) lca_meet :: "'c Hsm \<Rightarrow> int \<Rightarrow> int \<Rightarrow> int option" where
  "lca_meet h a b =
     (if a \<noteq> b then
        if a < 0 \<or> b < 0 then Some (-1)
        else do { a' \<leftarrow> parent_of h a; b' \<leftarrow> parent_of h b; lca_meet h a' b' }
      else Some a)"

definition find_lca :: "'c Hsm \<Rightarrow> int \<Rightarrow> int \<Rightarrow> int option" where
  "find_lca h a b = do {
     da \<leftarrow> chain_depth h a;
     db \<leftarrow> chain_depth h b;
     a' \<leftarrow> climb_by h (da - db) a;
     b' \<leftarrow> climb_by h (db - da) b;
     lca_meet h a' b'
   }"

definition find_transition :: "'c Hsm \<Rightarrow> 'c \<Rightarrow> Event \<Rightarrow> int \<Rightarrow> 'c TransitionDef option" where
  "find_transition h ctx evt source =
     find (\<lambda>tran. t_source tran = source \<and> t_signal tran = signal evt
             \<and> (case t_guard tran of None \<Rightarrow> True | Some g \<Rightarrow> g ctx evt)) (transitions h)"

partial_function (option) exit_loop :: "'c Hsm \<Rightarrow> int \<Rightarrow> int \<Rightarrow> 'c \<Rightarrow> 'c option" where
  "exit_loop h lca state ctx =
     (if state \<noteq> lca then do {
        sd \<leftarrow> state_at h state;
        exit_loop h lca (parent sd) (run_act (exit_act sd) ctx)
      } else Some ctx)"

definition exit_to_lca :: "'c Hsm \<Rightarrow> int \<Rightarrow> 'c \<Rightarrow> 'c option" where
  "exit_to_lca h lca ctx = exit_loop h lca (current h) ctx"

text \<open>The exit loop of a self transition includes the source itself.\<close>
partial_function (option) self_exit_loop :: "'c Hsm \<Rightarrow> int \<Rightarrow> int \<Rightarrow> 'c \<Rightarrow> 'c option" where
  "self_exit_loop h source state ctx = do {
     sd \<leftarrow> state_at h state;
     let ctx' = run_act (exit_act sd) ctx;
     if state = source then Some ctx' else self_exit_loop h source (parent sd) ctx'
   }"

fun enter_levels :: "'c Hsm \<Rightarrow> int \<Rightarrow> nat list \<Rightarrow> 'c \<Rightarrow> 'c option" where
  "enter_levels h target [] ctx = Some ctx"
| "enter_levels h target (level # ls) ctx = do {
     state \<leftarrow> ancestor_at_depth h target level;
     sd \<leftarrow> state_at h state;
     enter_levels h target ls (run_act (entry_act sd) ctx)
   }"

definition enter_path :: "'c Hsm \<Rightarrow> int \<Rightarrow> int \<Rightarrow> 'c \<Rightarrow> 'c option" where
  "enter_path h lca target ctx = do {
     lca_depth \<leftarrow> chain_depth h lca;
     target_depth \<leftarrow> chain_depth h target;
     enter_levels h target [lca_depth + 1..<target_depth + 1] ctx
   }"

text \<open>Descending to the initial leaf, with the number of hops the depth bound still allows.\<close>
fun enter_desc :: "'c Hsm \<Rightarrow> nat \<Rightarrow> int \<Rightarrow> 'c \<Rightarrow> (int \<times> 'c) option" where
  "enter_desc h k state ctx = do {
     sd \<leftarrow> state_at h state;
     let child = initial_child sd;
     if child < 0 then Some (state, ctx)
     else do {
       cd \<leftarrow> state_at h child;
       coact_assert (parent cd = state);
       (case k of
          0 \<Rightarrow> None
        | Suc k' \<Rightarrow> enter_desc h k' child (run_act (entry_act cd) ctx))
     }
   }"

definition enter_initial_descendants :: "'c Hsm \<Rightarrow> int \<Rightarrow> 'c \<Rightarrow> (int \<times> 'c) option" where
  "enter_initial_descendants h state ctx = enter_desc h (unat (max_depth h)) state ctx"

definition execute_transition ::
    "'c Hsm \<Rightarrow> 'c \<Rightarrow> Event \<Rightarrow> int \<Rightarrow> 'c TransitionDef \<Rightarrow> ('c Hsm \<times> 'c) option" where
  "execute_transition h ctx evt source tran =
     (case t_kind tran of
        Internal \<Rightarrow> Some (h, run_action (t_action tran) ctx evt)
      | Self \<Rightarrow> do {
          ctx1 \<leftarrow> self_exit_loop h source (current h) ctx;
          let ctx2 = run_action (t_action tran) ctx1 evt;
          sd \<leftarrow> state_at h source;
          let ctx3 = run_act (entry_act sd) ctx2;
          (leaf, ctx4) \<leftarrow> enter_initial_descendants h source ctx3;
          Some (h\<lparr>current := leaf\<rparr>, ctx4)
        }
      | External \<Rightarrow> do {
          let target = t_target tran;
          coact_assert (target \<ge> 0);
          coact_assert (target < int (length (states h)));
          lca0 \<leftarrow> find_lca h source target;
          lca \<leftarrow> (if lca0 = source \<or> lca0 = target then parent_of h lca0 else Some lca0);
          ctx1 \<leftarrow> exit_to_lca h lca ctx;
          let ctx2 = run_action (t_action tran) ctx1 evt;
          ctx3 \<leftarrow> enter_path h lca target ctx2;
          (leaf, ctx4) \<leftarrow> enter_initial_descendants h target ctx3;
          Some (h\<lparr>current := leaf\<rparr>, ctx4)
        })"

text \<open>The upward search of dispatch, with the number of hops the depth bound still allows.\<close>
fun dispatch_loop :: "'c Hsm \<Rightarrow> 'c \<Rightarrow> Event \<Rightarrow> nat \<Rightarrow> int \<Rightarrow> (bool \<times> 'c Hsm \<times> 'c) option" where
  "dispatch_loop h ctx evt k state =
     (case find_transition h ctx evt state of
        Some tran \<Rightarrow> map_option (\<lambda>(h', ctx'). (True, h', ctx')) (execute_transition h ctx evt state tran)
      | None \<Rightarrow> do {
          p \<leftarrow> parent_of h state;
          if p < 0 then Some (False, h, ctx)
          else (case k of
                  0 \<Rightarrow> Some (False, h, ctx)
                | Suc k' \<Rightarrow> dispatch_loop h ctx evt k' p)
        })"

definition hsm_dispatch :: "'c Hsm \<Rightarrow> 'c \<Rightarrow> Event \<Rightarrow> (bool \<times> 'c Hsm \<times> 'c) option" where
  "hsm_dispatch h ctx evt =
     (if current h < 0 then Some (False, h, ctx)
      else dispatch_loop h ctx evt (unat (max_depth h)) (current h))"

definition hsm_init :: "'c Hsm \<Rightarrow> 'c \<Rightarrow> ('c Hsm \<times> 'c) option" where
  "hsm_init h ctx =
     (if initial_state h < 0 \<or> initial_state h \<ge> int (length (states h)) then Some (h, ctx)
      else do {
        ctx1 \<leftarrow> enter_path h (-1) (initial_state h) ctx;
        (leaf, ctx2) \<leftarrow> enter_initial_descendants h (initial_state h) ctx1;
        Some (h\<lparr>current := leaf\<rparr>, ctx2)
      })"

definition current_state_name :: "'c Hsm \<Rightarrow> string option" where
  "current_state_name h =
     (if current h < 0 \<or> current h \<ge> int (length (states h)) then None
      else state_name (states h ! nat (current h)))"

text \<open>The equations of the loops, for evaluation.\<close>
declare chain_depth_loop.simps [code] lca_meet.simps [code] exit_loop.simps [code] self_exit_loop.simps [code]

declare validate_chain.simps [simp del] enter_desc.simps [simp del] dispatch_loop.simps [simp del]

end
