(* ===== verification/Hsm_Properties.thy ===== *)
theory Hsm_Properties
  imports Hsm "HOL-Library.Sublist"
begin

text \<open>
  Correctness of the state machine of hsm.hpp. A state of a valid table has a path to
  its root; the parent loops compute positions on paths, the least common ancestor is
  the longest common suffix of two paths, and a transition exits and enters exactly
  the states in which the paths of the old and the new leaf differ.
\<close>

section \<open>Paths to the root\<close>

definition in_range :: "'c Hsm \<Rightarrow> int \<Rightarrow> bool" where
  "in_range h s \<longleftrightarrow> 0 \<le> s \<and> s < int (length (states h))"

abbreviation st :: "'c Hsm \<Rightarrow> int \<Rightarrow> 'c StateDef" where
  "st h s \<equiv> states h ! nat s"

fun path_k :: "'c StateDef list \<Rightarrow> nat \<Rightarrow> int \<Rightarrow> int list" where
  "path_k sts 0 s = []"
| "path_k sts (Suc k) s = (if s < 0 then [] else s # path_k sts k (parent (sts ! nat s)))"

text \<open>The states from s up to its root.\<close>
definition path :: "'c Hsm \<Rightarrow> int \<Rightarrow> int list" where
  "path h s = path_k (states h) (length (states h)) s"

definition valid :: "'c Hsm \<Rightarrow> bool" where
  "valid h \<longleftrightarrow> validate_topology h = Some ()"

lemma validate_states_iff:
  "validate_states sts is = Some () \<longleftrightarrow> (\<forall>i \<in> set is. validate_state sts i = Some ())"
  by (induction sts "is" rule: validate_states.induct) (auto split: bind_splits)

lemma valid_iff:
  "valid h \<longleftrightarrow> length (states h) \<le> 128 \<and> (\<forall>i < length (states h). validate_state (states h) i = Some ())"
  by (auto simp: valid_def validate_topology_def validate_states_iff bind_assert_Some)

lemma validate_state_iff:
  "validate_state sts i = Some () \<longleftrightarrow>
     -1 \<le> parent (sts ! i) \<and> -1 \<le> initial_child (sts ! i)
     \<and> (0 \<le> initial_child (sts ! i) \<longrightarrow> initial_child (sts ! i) < int (length sts)
          \<and> parent (sts ! nat (initial_child (sts ! i))) = int i)
     \<and> validate_chain sts (length sts) (int i) = Some ()"
  by (auto simp: validate_state_def Let_def bind_assert_Some split: if_splits bind_splits)

lemma validate_chain_step:
  "\<lbrakk>validate_chain sts k s = Some (); 0 \<le> s\<rbrakk>
     \<Longrightarrow> s < int (length sts) \<and> 0 < k \<and> validate_chain sts (k - 1) (parent (sts ! nat s)) = Some ()"
  by (subst (asm) validate_chain.simps) (auto simp: bind_assert_Some split: nat.splits)

lemma path_k_fuel:
  "validate_chain sts k s = Some () \<Longrightarrow> k \<le> j \<Longrightarrow> path_k sts j s = path_k sts k s"
proof (induction k arbitrary: s j)
  case 0
  then have "\<not> 0 \<le> s" using validate_chain_step [of sts 0 s] by auto
  then show ?case by (cases j) simp_all
next
  case (Suc k)
  obtain i where j: "j = Suc i" "k \<le> i" using Suc.prems(2) by (cases j) auto
  show ?case
  proof (cases "s < 0")
    case True
    then show ?thesis by (simp add: j(1))
  next
    case False
    then have "validate_chain sts k (parent (sts ! nat s)) = Some ()"
      using validate_chain_step [OF Suc.prems(1)] by simp
    from Suc.IH [OF this j(2)] show ?thesis by (simp add: j(1))
  qed
qed

lemma in_rangeI: "0 \<le> s \<Longrightarrow> s < int (length (states h)) \<Longrightarrow> in_range h s"
  by (simp add: in_range_def)

lemma state_at_in_range: "in_range h s \<Longrightarrow> state_at h s = Some (st h s)"
  by (simp add: in_range_def state_at_def)

lemma parent_of_in_range: "in_range h s \<Longrightarrow> parent_of h s = Some (parent (st h s))"
  by (simp add: parent_of_def state_at_in_range)

lemma valid_chain:
  assumes "valid h" "in_range h s"
  shows "validate_chain (states h) (length (states h)) s = Some ()"
proof -
  have "validate_state (states h) (nat s) = Some ()" "int (nat s) = s"
    using assms by (auto simp: valid_iff in_range_def)
  then show ?thesis by (metis validate_state_iff)
qed

lemma valid_parent:
  assumes "valid h" "in_range h s"
  shows "parent (st h s) = -1 \<or> in_range h (parent (st h s))"
proof -
  have "validate_state (states h) (nat s) = Some ()" using assms by (auto simp: valid_iff in_range_def)
  then have ge: "-1 \<le> parent (st h s)" by (simp add: validate_state_iff)
  have "validate_chain (states h) (length (states h) - 1) (parent (st h s)) = Some ()"
    using validate_chain_step [OF valid_chain [OF assms]] assms(2) by (simp add: in_range_def)
  then have "in_range h (parent (st h s))" if "0 \<le> parent (st h s)"
    using validate_chain_step that by (blast intro: in_rangeI)
  then show ?thesis using ge by fastforce
qed

lemma valid_child:
  assumes "valid h" "in_range h s" "0 \<le> initial_child (st h s)"
  shows "in_range h (initial_child (st h s))" "parent (st h (initial_child (st h s))) = s"
proof -
  have "validate_state (states h) (nat s) = Some ()" "int (nat s) = s"
    using assms by (auto simp: valid_iff in_range_def)
  then show "in_range h (initial_child (st h s))" "parent (st h (initial_child (st h s))) = s"
    using assms(3) by (auto simp: validate_state_iff in_range_def)
qed

lemma path_neg [simp]: "s < 0 \<Longrightarrow> path h s = []"
  by (cases "length (states h)") (simp_all add: path_def)

lemma path_step:
  assumes "valid h" "in_range h s"
  shows "path h s = s # path h (parent (st h s))"
proof -
  let ?N = "length (states h)"
  have V: "0 < ?N" "validate_chain (states h) (?N - 1) (parent (st h s)) = Some ()"
    using validate_chain_step [OF valid_chain [OF assms]] assms(2) by (simp_all add: in_range_def)
  have "path h s = s # path_k (states h) (?N - 1) (parent (st h s))"
    using V(1) assms(2) by (cases ?N) (simp_all add: path_def in_range_def)
  also have "path_k (states h) (?N - 1) (parent (st h s)) = path h (parent (st h s))"
    unfolding path_def by (rule path_k_fuel [OF V(2), symmetric]) simp
  finally show ?thesis .
qed

text \<open>A node is the head of its path, or -1 above the root.\<close>
definition node :: "int list \<Rightarrow> int" where
  "node xs = (case xs of [] \<Rightarrow> -1 | x # _ \<Rightarrow> x)"

lemma node_simps [simp]: "node [] = -1" "node (x # xs) = x"
  by (simp_all add: node_def)

definition ok_state :: "'c Hsm \<Rightarrow> int \<Rightarrow> bool" where
  "ok_state h s \<longleftrightarrow> s = -1 \<or> in_range h s"

lemma node_path: "\<lbrakk>valid h; ok_state h s\<rbrakk> \<Longrightarrow> node (path h s) = s"
  using path_step [of h s] by (auto simp: ok_state_def)

lemma path_Cons:
  assumes "valid h" "ok_state h s" "path h s = x # xs"
  shows "x = s" "in_range h s" "xs = path h (parent (st h s))" "ok_state h (parent (st h s))"
proof -
  show r: "in_range h s" using assms by (auto simp: ok_state_def)
  show "x = s" "xs = path h (parent (st h s))" using assms(3) path_step [OF assms(1) r] by auto
  show "ok_state h (parent (st h s))" using valid_parent [OF assms(1) r] by (simp add: ok_state_def)
qed

lemma path_drop:
  assumes "valid h" "ok_state h s"
  shows "path h (node (drop k (path h s))) = drop k (path h s) \<and> ok_state h (node (drop k (path h s)))"
  using assms(2)
proof (induction k arbitrary: s)
  case 0
  then show ?case using node_path [OF assms(1)] by simp
next
  case (Suc k)
  show ?case
  proof (cases "path h s")
    case Nil
    then show ?thesis by (simp add: ok_state_def)
  next
    case (Cons x xs)
    then show ?thesis using path_Cons [OF assms(1) Suc.prems Cons] Suc.IH by simp
  qed
qed

lemma path_inj: "\<lbrakk>valid h; ok_state h a; ok_state h b; path h a = path h b\<rbrakk> \<Longrightarrow> a = b"
  by (metis node_path)

lemma suffix_path:
  assumes "valid h" "ok_state h s" "suffix xs (path h s)"
  shows "path h (node xs) = xs" "ok_state h (node xs)"
proof -
  obtain ys where "path h s = ys @ xs" using assms(3) by (auto simp: suffix_def)
  then have "xs = drop (length ys) (path h s)" by simp
  then show "path h (node xs) = xs" "ok_state h (node xs)" using path_drop [OF assms(1,2)] by metis+
qed

section \<open>The parent loops\<close>

lemma chain_depth_loop_path:
  assumes "valid h" "ok_state h s"
  shows "chain_depth_loop h s d = Some (d + length (path h s))"
  using assms(2)
proof (induction "path h s" arbitrary: s d)
  case Nil
  then have "s = -1" using path_step [OF assms(1)] by (auto simp: ok_state_def)
  then show ?case by (subst chain_depth_loop.simps) simp
next
  case (Cons x xs)
  note P = path_Cons [OF assms(1) Cons.prems Cons.hyps(2) [symmetric]]
  have "length (path h s) = Suc (length xs)" by (simp flip: Cons.hyps(2))
  then show ?case
    using Cons.hyps(1) [OF P(3,4), of "d + 1"] P(2,3) parent_of_in_range [OF P(2)]
    by (subst chain_depth_loop.simps) (simp add: in_range_def)
qed

lemma chain_depth_path:
  "\<lbrakk>valid h; ok_state h s\<rbrakk> \<Longrightarrow> chain_depth h s = Some (length (path h s))"
  by (simp add: chain_depth_def chain_depth_loop_path)

lemma climb_by_path:
  assumes "valid h" "ok_state h s" "k \<le> length (path h s)"
  shows "climb_by h k s = Some (node (drop k (path h s)))"
  using assms(2,3)
proof (induction k arbitrary: s)
  case 0
  then show ?case using node_path [OF assms(1)] by simp
next
  case (Suc k)
  then obtain x xs where c: "path h s = x # xs" by (cases "path h s") auto
  note P = path_Cons [OF assms(1) Suc.prems(1) c]
  show ?case using Suc.IH [OF P(4)] Suc.prems(2) c P(3) parent_of_in_range [OF P(2)] by simp
qed

lemma ancestor_at_depth_path:
  assumes "valid h" "ok_state h s"
  shows "ancestor_at_depth h s d = Some (node (drop (length (path h s) - d) (path h s)))"
  using assms by (simp add: ancestor_at_depth_def chain_depth_path climb_by_path)

text \<open>The longest common suffix, by dropping heads of lists of equal length.\<close>
fun common_tail :: "int list \<Rightarrow> int list \<Rightarrow> int list" where
  "common_tail (x # xs) (y # ys) = (if x = y then x # xs else common_tail xs ys)"
| "common_tail xs ys = []"

lemma lca_meet_path:
  assumes "valid h" "ok_state h a" "ok_state h b" "length (path h a) = length (path h b)"
  shows "lca_meet h a b = Some (node (common_tail (path h a) (path h b)))"
  using assms(2-4)
proof (induction "path h a" arbitrary: a b)
  case Nil
  then have "a = -1" "b = -1" using path_inj [OF assms(1)] by (metis node_path [OF assms(1)] node_simps(1)
        length_0_conv)+
  then show ?case using Nil.hyps by (subst lca_meet.simps) simp
next
  case (Cons x xs)
  then obtain y ys where y: "path h b = y # ys" by (cases "path h b") (auto simp flip: Cons.hyps(2))
  note A = path_Cons [OF assms(1) Cons.prems(1) Cons.hyps(2) [symmetric]]
    and B = path_Cons [OF assms(1) Cons.prems(2) y]
  have len: "length xs = length ys" using Cons.prems(3) y by (simp flip: Cons.hyps(2))
  show ?case
  proof (cases "a = b")
    case True
    then show ?thesis using A(1) B(1) y by (subst lca_meet.simps) (simp flip: Cons.hyps(2))
  next
    case False
    have "lca_meet h (parent (st h a)) (parent (st h b)) = Some (node (common_tail xs ys))"
      using Cons.hyps(1) [OF A(3,4) B(4)] A(3) B(3) len by simp
    then show ?thesis
      using False A(1,2) B(1,2) y
      by (subst lca_meet.simps) (simp add: parent_of_in_range in_range_def flip: Cons.hyps(2))
  qed
qed

lemma common_tail_suffix:
  assumes "length xs = length ys" and "\<And>i. i < length xs \<Longrightarrow> xs ! i = ys ! i \<Longrightarrow> drop i xs = drop i ys"
  shows "suffix (common_tail xs ys) xs \<and> suffix (common_tail xs ys) ys
    \<and> (\<forall>zs. suffix zs xs \<and> suffix zs ys \<longrightarrow> suffix zs (common_tail xs ys))"
  using assms
proof (induction xs ys rule: common_tail.induct)
  case (1 x xs y ys)
  show ?case
  proof (cases "x = y")
    case True
    then have "x # xs = y # ys" using "1.prems"(2) [of 0] by simp
    then show ?thesis by (simp add: True)
  next
    case False
    have "drop i xs = drop i ys" if "i < length xs" "xs ! i = ys ! i" for i
      using "1.prems"(2) [of "Suc i"] that by simp
    then have IH: "suffix (common_tail xs ys) xs" "suffix (common_tail xs ys) ys"
      "\<And>zs. \<lbrakk>suffix zs xs; suffix zs ys\<rbrakk> \<Longrightarrow> suffix zs (common_tail xs ys)"
      using "1.IH" [OF False] "1.prems"(1) by auto
    have "suffix zs (common_tail xs ys)" if "suffix zs (x # xs)" "suffix zs (y # ys)" for zs
      using that IH(3) False "1.prems"(1) by (auto simp: suffix_Cons dest: suffix_length_le)
    then show ?thesis using IH(1,2) False by (auto simp: suffix_Cons)
  qed
qed auto

lemma node_drop: "i < length xs \<Longrightarrow> node (drop i xs) = xs ! i"
  using hd_drop_conv_nth [of i xs] by (cases "drop i xs") auto

lemma path_eq_from:
  assumes "valid h" "ok_state h a" "ok_state h b" "path h a ! i = path h b ! j"
    "i < length (path h a)" "j < length (path h b)"
  shows "drop i (path h a) = drop j (path h b)"
proof -
  have "node (drop i (path h a)) = node (drop j (path h b))"
    using assms(4-6) by (simp add: node_drop)
  then show ?thesis using path_drop [OF assms(1,2), of i] path_drop [OF assms(1,3), of j] by metis
qed

text \<open>\<^verbatim>\<open>find_lca\<close> returns the node of the longest common suffix of the two paths.\<close>
lemma find_lca_suffix:
  assumes V: "valid h" "ok_state h a" "ok_state h b"
  shows "\<exists>l. find_lca h a b = Some l \<and> ok_state h l \<and> suffix (path h l) (path h a) \<and> suffix (path h l) (path h b)
      \<and> (\<forall>zs. suffix zs (path h a) \<and> suffix zs (path h b) \<longrightarrow> suffix zs (path h l))"
proof -
  let ?A = "path h a" and ?B = "path h b"
  let ?a = "drop (length ?A - length ?B) ?A" and ?b = "drop (length ?B - length ?A) ?B"
  note A = path_drop [OF V(1,2), of "length ?A - length ?B"]
    and B = path_drop [OF V(1,3), of "length ?B - length ?A"]
  let ?t = "common_tail ?a ?b"
  have len: "length ?a = length ?b" by simp
  have lca: "find_lca h a b = Some (node ?t)"
    using V A B lca_meet_path [OF V(1), of "node ?a" "node ?b"]
    by (simp add: find_lca_def chain_depth_path climb_by_path)
  have eq: "drop i ?a = drop i ?b" if "i < length ?a" "?a ! i = ?b ! i" for i
    using path_eq_from [OF V, of "length ?A - length ?B + i" "length ?B - length ?A + i"] that
    by (simp add: add.commute [of i])
  note C = common_tail_suffix [OF len eq]
  have sa: "suffix ?t ?A" "suffix ?t ?B"
    using C suffix_drop suffix_order.trans by blast+
  have best: "suffix zs ?t" if z: "suffix zs ?A" "suffix zs ?B" for zs
  proof -
    have "length zs \<le> length ?a"  using suffix_length_le [OF z(1)] suffix_length_le [OF z(2)] by simp
    then have "suffix zs ?a" "suffix zs ?b"
      using z suffix_length_suffix [OF z(1) suffix_drop] suffix_length_suffix [OF z(2) suffix_drop] by auto
    then show ?thesis using C by blast
  qed
  show ?thesis using lca suffix_path [OF V(1,2) sa(1)] sa best by (intro exI [of _ "node ?t"]) simp
qed

text \<open>Ancestors on a path are distinct, so suffixes are determined by their sets.\<close>
lemma path_distinct:
  assumes "valid h" "ok_state h s"
  shows "distinct (path h s)"
proof -
  have "path h s ! i \<noteq> path h s ! j" if "i < j" "j < length (path h s)" for i j
  proof
    assume eq: "path h s ! i = path h s ! j"
    have "i < length (path h s)" using that by linarith
    from path_eq_from [OF assms(1,2,2) eq this that(2)]
    have "length (drop i (path h s)) = length (drop j (path h s))" by (rule arg_cong)
    then have "length (path h s) - i = length (path h s) - j" by (simp only: length_drop)
    then show False using that by linarith
  qed
  then show ?thesis unfolding distinct_conv_nth by (metis linorder_neqE_nat)
qed

lemma path_mem_suffix:
  assumes "valid h" "ok_state h s" "x \<in> set (path h s)"
  shows "suffix (path h x) (path h s)" "in_range h x"
proof -
  obtain i where i: "i < length (path h s)" "path h s ! i = x" using assms(3) by (metis in_set_conv_nth)
  have d: "node (drop i (path h s)) = x" using i node_drop by metis
  then show "suffix (path h x) (path h s)" using path_drop [OF assms(1,2), of i] suffix_drop by metis
  have "path h x \<noteq> []" using d path_drop [OF assms(1,2), of i] i(1) by auto
  moreover have "ok_state h x" using d path_drop [OF assms(1,2), of i] by metis
  ultimately show "in_range h x" by (auto simp: ok_state_def)
qed

lemma self_in_path: "\<lbrakk>valid h; in_range h s\<rbrakk> \<Longrightarrow> s \<in> set (path h s)"
  using path_step [of h s] by simp

lemma find_lca_common:
  assumes V: "valid h" "ok_state h a" "ok_state h b"
  shows "\<exists>l. find_lca h a b = Some l \<and> ok_state h l \<and> set (path h l) = set (path h a) \<inter> set (path h b)
      \<and> suffix (path h l) (path h a) \<and> suffix (path h l) (path h b)"
proof -
  obtain l where l: "find_lca h a b = Some l" "ok_state h l" "suffix (path h l) (path h a)"
    "suffix (path h l) (path h b)"
    "\<And>zs. \<lbrakk>suffix zs (path h a); suffix zs (path h b)\<rbrakk> \<Longrightarrow> suffix zs (path h l)"
    using find_lca_suffix [OF V] by blast
  have "x \<in> set (path h l)" if "x \<in> set (path h a)" "x \<in> set (path h b)" for x
  proof -
    have "suffix (path h x) (path h l)" using l(5) path_mem_suffix(1) V that by blast
    moreover have "x \<in> set (path h x)" using self_in_path path_mem_suffix(2) V that by blast
    ultimately show ?thesis using set_mono_suffix by blast
  qed
  then show ?thesis using l set_mono_suffix by fast
qed

section \<open>Exits and entries\<close>

definition run_exits :: "'c Hsm \<Rightarrow> int list \<Rightarrow> 'c \<Rightarrow> 'c" where
  "run_exits h xs = fold (\<lambda>s. run_act (exit_act (st h s))) xs"

definition run_entries :: "'c Hsm \<Rightarrow> int list \<Rightarrow> 'c \<Rightarrow> 'c" where
  "run_entries h xs = fold (\<lambda>s. run_act (entry_act (st h s))) xs"

lemma exit_loop_path:
  assumes V: "valid h" "ok_state h s" "ok_state h b" and p: "path h s = xs @ path h b"
  shows "exit_loop h b s ctx = Some (run_exits h xs ctx)"
  using V(2) p
proof (induction xs arbitrary: s ctx)
  case Nil
  then have "s = b" using path_inj [OF V(1) _ V(3)] by simp
  then show ?case by (subst exit_loop.simps) (simp add: run_exits_def)
next
  case (Cons x xs)
  have c: "path h s = x # (xs @ path h b)" using Cons.prems(2) by simp
  note P = path_Cons [OF V(1) Cons.prems(1) c]
  have "s \<noteq> b"
  proof
    assume "s = b"
    then have "length (path h s) = length (path h b)" by simp
    then show False using c by simp
  qed
  then show ?case
    using Cons.IH [OF P(4) P(3) [symmetric]] P(1) state_at_in_range [OF P(2)]
    by (subst exit_loop.simps) (simp add: run_exits_def)
qed

lemma self_exit_loop_path:
  assumes V: "valid h" "ok_state h s" "in_range h src" and p: "path h s = xs @ src # path h (parent (st h src))"
  shows "self_exit_loop h src s ctx = Some (run_exits h (xs @ [src]) ctx)"
  using V(2) p
proof (induction xs arbitrary: s ctx)
  case Nil
  have c: "path h s = src # path h (parent (st h src))" using Nil.prems(2) by simp
  note P = path_Cons [OF V(1) Nil.prems(1) c]
  show ?case using P(1) state_at_in_range [OF P(2)]
    by (subst self_exit_loop.simps) (simp add: run_exits_def Let_def)
next
  case (Cons x xs)
  have c: "path h s = x # (xs @ src # path h (parent (st h src)))" using Cons.prems(2) by simp
  note P = path_Cons [OF V(1) Cons.prems(1) c]
  have "s \<noteq> src"
    using path_distinct [OF V(1) Cons.prems(1)] c P(1) by auto
  then show ?case
    using Cons.IH [OF P(4) P(3) [symmetric]] P(1) state_at_in_range [OF P(2)]
    by (subst self_exit_loop.simps) (simp add: run_exits_def Let_def)
qed

lemma enter_levels_path:
  assumes V: "valid h" "ok_state h t" and n: "a + length ls \<le> length (path h t)"
    and ls: "ls = [Suc a..<Suc a + n]" and xs: "xs = map (\<lambda>l. path h t ! (length (path h t) - l)) ls"
  shows "enter_levels h t ls ctx = Some (run_entries h xs ctx)"
  using n ls xs
proof (induction n arbitrary: a ls xs ctx)
  case 0
  then show ?case by (simp add: run_entries_def)
next
  case (Suc n)
  let ?p = "path h t"
  have u: "ls = Suc a # [Suc (Suc a)..<Suc (Suc a) + n]" using Suc.prems(2) by (simp add: upt_rec)
  have i: "length ?p - Suc a < length ?p" using Suc.prems(1) u by simp
  let ?s = "?p ! (length ?p - Suc a)"
  have s: "ancestor_at_depth h t (Suc a) = Some ?s"
    using ancestor_at_depth_path [OF V, of "Suc a"] node_drop [OF i] by simp
  have "in_range h ?s" using path_mem_suffix(2) [OF V] i by simp
  moreover have "enter_levels h t [Suc (Suc a)..<Suc (Suc a) + n] c =
      Some (run_entries h (map (\<lambda>l. ?p ! (length ?p - l)) [Suc (Suc a)..<Suc (Suc a) + n]) c)" for c
    using Suc.IH [of "Suc a" "[Suc (Suc a)..<Suc (Suc a) + n]"] Suc.prems(1) u by simp
  ultimately show ?case
    unfolding u Suc.prems(3) using s by (simp add: state_at_in_range run_entries_def u)
qed

lemma enter_path_path:
  assumes V: "valid h" "ok_state h b" "ok_state h t" and p: "path h t = xs @ path h b"
  shows "enter_path h b t ctx = Some (run_entries h (rev xs) ctx)"
proof -
  let ?lb = "length (path h b)" and ?lt = "length (path h t)"
  have lt: "?lt = length xs + ?lb" using p by simp
  have map: "map (\<lambda>l. path h t ! (?lt - l)) [Suc ?lb..<Suc ?lb + length xs] = rev xs"
  proof (rule nth_equalityI)
    fix i assume "i < length (map (\<lambda>l. path h t ! (?lt - l)) [Suc ?lb..<Suc ?lb + length xs])"
    then have i: "i < length xs" by (simp del: upt_Suc)
    then have "length xs - Suc i < length xs" by simp
    moreover have "?lt - (Suc ?lb + i) = length xs - Suc i" using lt by simp
    ultimately show "map (\<lambda>l. path h t ! (?lt - l)) [Suc ?lb..<Suc ?lb + length xs] ! i = rev xs ! i"
      using i \<open>length xs - Suc i < length xs\<close> by (simp add: p nth_append rev_nth del: upt_Suc)
  qed (simp del: upt_Suc)
  have "enter_levels h t [Suc ?lb..<Suc ?lb + length xs] ctx = Some (run_entries h (rev xs) ctx)"
    using lt by (intro enter_levels_path [OF V(1,3) _ refl map [symmetric]]) (simp del: upt_Suc)
  moreover have "[?lb + 1..<?lt + 1] = [Suc ?lb..<Suc ?lb + length xs]" by (simp add: lt add.commute)
  ultimately show ?thesis using V by (simp add: enter_path_def chain_depth_path del: upt_Suc)
qed

text \<open>The states below s on the way to its initial leaf.\<close>
fun descends :: "'c Hsm \<Rightarrow> int \<Rightarrow> int list \<Rightarrow> bool" where
  "descends h s [] \<longleftrightarrow> initial_child (st h s) < 0"
| "descends h s (c # ds) \<longleftrightarrow> 0 \<le> c \<and> initial_child (st h s) = c \<and> descends h c ds"

lemma path_child:
  assumes "valid h" "in_range h s" "initial_child (st h s) = c" "0 \<le> c"
  shows "in_range h c" "path h c = c # path h s"
  using valid_child [OF assms(1,2)] assms(3,4) path_step [OF assms(1)] by auto

lemma descends_path:
  assumes "valid h" "in_range h s" "descends h s ds"
  shows "in_range h (last (s # ds)) \<and> path h (last (s # ds)) = rev ds @ path h s
    \<and> initial_child (st h (last (s # ds))) < 0"
  using assms(2,3)
proof (induction ds arbitrary: s)
  case (Cons c ds)
  then show ?case using path_child [OF assms(1) Cons.prems(1)] Cons.IH [of c] by auto
qed simp

lemma path_length:
  assumes "valid h" "ok_state h s"
  shows "length (path h s) \<le> length (states h)"
proof -
  have "length (path_k sts k x) \<le> k" for sts :: "'a StateDef list" and k x
    by (induction sts k x rule: path_k.induct) auto
  then show ?thesis by (simp add: path_def)
qed

lemma descends_exists:
  assumes "valid h" "in_range h s"
  shows "\<exists>ds. descends h s ds"
  using assms(2)
proof (induction "length (states h) - length (path h s)" arbitrary: s rule: less_induct)
  case less
  show ?case
  proof (cases "initial_child (st h s) < 0")
    case True
    then show ?thesis by (intro exI [of _ "[]"]) simp
  next
    case False
    let ?c = "initial_child (st h s)"
    have C: "in_range h ?c" "path h ?c = ?c # path h s"
      using path_child [OF assms(1) less.prems refl] False by simp_all
    have "length (path h ?c) \<le> length (states h)"
      using path_length [OF assms(1)] C(1) by (simp add: ok_state_def)
    then have "length (states h) - length (path h ?c) < length (states h) - length (path h s)"
      using C(2) by simp
    then obtain ds where "descends h ?c ds" using less.hyps [OF _ C(1)] by blast
    then show ?thesis using False by (intro exI [of _ "?c # ds"]) simp
  qed
qed

lemma enter_desc_path:
  assumes "valid h" "in_range h s" "descends h s ds" "length ds \<le> k"
  shows "enter_desc h k s ctx = Some (last (s # ds), run_entries h ds ctx)"
  using assms(2-4)
proof (induction ds arbitrary: s k ctx)
  case Nil
  then show ?case
    by (subst enter_desc.simps) (simp add: state_at_in_range Let_def run_entries_def)
next
  case (Cons c ds)
  then obtain k' where k: "k = Suc k'" by (cases k) auto
  have C: "in_range h c" "parent (st h c) = s"
    using valid_child [OF assms(1) Cons.prems(1)] Cons.prems(2) by auto
  have "enter_desc h k' c (run_act (entry_act (st h c)) ctx)
      = Some (last (c # ds), run_entries h ds (run_act (entry_act (st h c)) ctx))"
    using Cons.prems k C by (intro Cons.IH) auto
  then show ?case using Cons.prems(1,2) C k
    by (subst enter_desc.simps) (simp add: state_at_in_range Let_def run_entries_def)
qed

text \<open>The depth bound covers every initial descent.\<close>
definition depth_ok :: "'c Hsm \<Rightarrow> bool" where
  "depth_ok h \<longleftrightarrow> (\<forall>s ds. in_range h s \<and> descends h s ds \<longrightarrow> length ds \<le> unat (max_depth h))"

lemma enter_initial_path:
  assumes "valid h" "depth_ok h" "in_range h s"
  obtains ds where "descends h s ds"
    "\<And>ctx. enter_initial_descendants h s ctx = Some (last (s # ds), run_entries h ds ctx)"
proof -
  obtain ds where d: "descends h s ds" using descends_exists [OF assms(1,3)] by blast
  then have "length ds \<le> unat (max_depth h)" using assms(2,3) by (auto simp: depth_ok_def)
  then show thesis using that [OF d] enter_desc_path [OF assms(1,3) d]
    by (simp add: enter_initial_descendants_def)
qed

section \<open>Transitions\<close>

definition active_leaf :: "'c Hsm \<Rightarrow> bool" where
  "active_leaf h \<longleftrightarrow> in_range h (current h) \<and> initial_child (st h (current h)) < 0"

text \<open>
  The effect of a transition: states \<^verbatim>\<open>exited\<close> from the leaf upwards, the action, states
  \<^verbatim>\<open>entered\<close> downwards to a leaf, with the boundary b and its ancestors untouched.
\<close>
definition moves :: "'c Hsm \<Rightarrow> 'c \<Rightarrow> Event \<Rightarrow> 'c TransitionDef \<Rightarrow> int \<Rightarrow> int list \<Rightarrow> int list \<Rightarrow> 'c Hsm \<Rightarrow> 'c \<Rightarrow> bool" where
  "moves h ctx evt tran b exited entered h' ctx' \<longleftrightarrow>
     ok_state h b \<and> path h (current h) = exited @ path h b
     \<and> path h (current h') = rev entered @ path h b
     \<and> h' = h\<lparr>current := current h'\<rparr> \<and> active_leaf h'
     \<and> ctx' = run_entries h entered (run_action (t_action tran) (run_exits h exited ctx) evt)"

text \<open>
  What the kind of a transition fixes of its boundary and of the states entered. The
  boundary gives the states exited (the path from the leaf up to it), and the states
  entered give the new leaf, so with \<^verbatim>\<open>moves\<close> nothing is left open.
\<close>
definition kind_moves :: "'c Hsm \<Rightarrow> int \<Rightarrow> 'c TransitionDef \<Rightarrow> int \<Rightarrow> int list \<Rightarrow> bool" where
  "kind_moves h src tran b entered \<longleftrightarrow> (case t_kind tran of
       Internal \<Rightarrow> b = current h \<and> entered = []
     | Self \<Rightarrow> b = parent (st h src) \<and> (\<exists>ds. entered = src # ds \<and> descends h src ds)
     | External \<Rightarrow> set (path h b) = set (path h src) \<inter> set (path h (t_target tran)) - {src, t_target tran}
         \<and> (\<exists>up ds. path h (t_target tran) = up @ path h b \<and> entered = rev up @ ds \<and> descends h (t_target tran) ds))"

lemma kind_moves_boundary:
  "\<lbrakk>kind_moves h src tran b entered; t_kind tran = External\<rbrakk>
   \<Longrightarrow> set (path h b) = set (path h src) \<inter> set (path h (t_target tran)) - {src, t_target tran}"
  by (simp add: kind_moves_def)

lemma active_leaf_last:
  assumes "valid h" "in_range h s" "descends h s ds"
  shows "active_leaf (h\<lparr>current := last (s # ds)\<rparr>)"
  using descends_path [OF assms] by (simp add: active_leaf_def in_range_def)

lemma self_moves:
  assumes V: "valid h" "depth_ok h" "in_range h (current h)" and src: "src \<in> set (path h (current h))"
    and k: "t_kind tran = Self"
  shows "\<exists>exited ds h' ctx'. execute_transition h ctx evt src tran = Some (h', ctx')
      \<and> moves h ctx evt tran (parent (st h src)) exited (src # ds) h' ctx' \<and> descends h src ds"
proof -
  have ok: "ok_state h (current h)" using V(3) by (simp add: ok_state_def)
  have S: "suffix (path h src) (path h (current h))" "in_range h src"
    using path_mem_suffix [OF V(1) ok src] by auto
  then obtain xs where xs: "path h (current h) = xs @ src # path h (parent (st h src))"
    using path_step [OF V(1) S(2)] by (auto simp: suffix_def)
  obtain ds where D: "descends h src ds"
    "\<And>ctx. enter_initial_descendants h src ctx = Some (last (src # ds), run_entries h ds ctx)"
    using enter_initial_path [OF V(1,2) S(2)] by blast
  let ?h = "h\<lparr>current := last (src # ds)\<rparr>"
  have "execute_transition h ctx evt src tran = Some (?h, run_entries h (src # ds)
      (run_action (t_action tran) (run_exits h (xs @ [src]) ctx) evt))"
    using k self_exit_loop_path [OF V(1) ok S(2) xs] state_at_in_range [OF S(2)] D(2)
    by (simp add: execute_transition_def Let_def run_entries_def)
  moreover have "path h (last (src # ds)) = rev (src # ds) @ path h (parent (st h src))"
    using descends_path [OF V(1) S(2) D(1)] path_step [OF V(1) S(2)] by simp
  moreover have "ok_state h (parent (st h src))"
    using valid_parent [OF V(1) S(2)] by (simp add: ok_state_def)
  ultimately show ?thesis
    using xs active_leaf_last [OF V(1) S(2) D(1)] D(1)
    by (intro exI [of _ "xs @ [src]"] exI [of _ ds] exI [of _ ?h]) (simp add: moves_def)
qed

text \<open>The boundary of an external transition: the least common ancestor, or its parent.\<close>
lemma external_boundary:
  assumes V: "valid h" "in_range h src" "in_range h tgt"
  shows "\<exists>b. Option.bind (find_lca h src tgt)
        (\<lambda>l. if l = src \<or> l = tgt then parent_of h l else Some l) = Some b
      \<and> ok_state h b \<and> suffix (path h b) (path h src) \<and> suffix (path h b) (path h tgt)
      \<and> set (path h b) = set (path h src) \<inter> set (path h tgt) - {src, tgt}"
proof -
  have ok: "ok_state h src" "ok_state h tgt" using V(2,3) by (simp_all add: ok_state_def)
  obtain l where l: "find_lca h src tgt = Some l" "ok_state h l"
    "set (path h l) = set (path h src) \<inter> set (path h tgt)"
    "suffix (path h l) (path h src)" "suffix (path h l) (path h tgt)"
    using find_lca_common [OF V(1) ok] by blast
  show ?thesis
  proof (cases "l = src \<or> l = tgt")
    case True
    then have r: "in_range h l" using V(2,3) by blast
    let ?b = "parent (st h l)"
    have P: "path h l = l # path h ?b" by (rule path_step [OF V(1) r])
    have ob: "ok_state h ?b" using valid_parent [OF V(1) r] by (simp add: ok_state_def)
    have d: "l \<notin> set (path h ?b)" using path_distinct [OF V(1) l(2)] P by simp
    have other: "x \<notin> set (path h ?b)" if "x = src \<or> x = tgt" for x
    proof
      assume x: "x \<in> set (path h ?b)"
      then have "suffix (path h x) (path h ?b)" by (rule path_mem_suffix(1) [OF V(1) ob])
      moreover have "suffix (path h l) (path h x)" using that l(4,5) by blast
      ultimately have "length (path h l) \<le> length (path h ?b)"
        using suffix_length_le by (meson le_trans)
      then show False using P by simp
    qed
    have "suffix (path h ?b) (path h l)" using P by (simp add: suffix_Cons)
    then have "suffix (path h ?b) (path h src)" "suffix (path h ?b) (path h tgt)"
      using l(4,5) suffix_order.trans by blast+
    moreover have "set (path h ?b) = set (path h src) \<inter> set (path h tgt) - {src, tgt}"
      using l(3) P d other True by auto
    ultimately show ?thesis using l(1) True ob parent_of_in_range [OF r] by auto
  next
    case False
    have "src \<notin> set (path h l)" "tgt \<notin> set (path h l)"
    proof -
      have "path h x \<noteq> path h l" if "x = src \<or> x = tgt" for x
        using that False path_inj [OF V(1) _ l(2), of x] ok by blast
      moreover have "suffix (path h x) (path h l) \<Longrightarrow> suffix (path h l) (path h x) \<Longrightarrow> path h x = path h l" for x
        by (rule suffix_order.antisym)
      ultimately show "src \<notin> set (path h l)" "tgt \<notin> set (path h l)"
        using path_mem_suffix(1) [OF V(1) l(2)] l(4,5) by blast+
    qed
    then show ?thesis using l False by auto
  qed
qed

lemma external_moves:
  assumes V: "valid h" "depth_ok h" "in_range h (current h)" and src: "src \<in> set (path h (current h))"
    and k: "t_kind tran = External" and tgt: "in_range h (t_target tran)"
  shows "\<exists>b exited entered h' ctx'. execute_transition h ctx evt src tran = Some (h', ctx')
      \<and> moves h ctx evt tran b exited entered h' ctx'
      \<and> kind_moves h src tran b entered
      \<and> t_target tran \<in> set (path h (current h'))"
proof -
  let ?t = "t_target tran"
  have ok: "ok_state h (current h)" "ok_state h ?t" using V(3) tgt by (simp_all add: ok_state_def)
  have S: "suffix (path h src) (path h (current h))" "in_range h src"
    using path_mem_suffix [OF V(1) ok(1) src] by auto
  obtain b where B: "Option.bind (find_lca h src ?t)
        (\<lambda>l. if l = src \<or> l = ?t then parent_of h l else Some l) = Some b"
    "ok_state h b" "suffix (path h b) (path h src)" "suffix (path h b) (path h ?t)"
    "set (path h b) = set (path h src) \<inter> set (path h ?t) - {src, ?t}"
    using external_boundary [OF V(1) S(2) tgt] by blast
  obtain xs where xs: "path h (current h) = xs @ path h b"
    using suffix_order.trans [OF B(3) S(1)] by (auto simp: suffix_def)
  obtain ys where ys: "path h ?t = ys @ path h b" using B(4) by (auto simp: suffix_def)
  obtain ds where D: "descends h ?t ds"
    "\<And>ctx. enter_initial_descendants h ?t ctx = Some (last (?t # ds), run_entries h ds ctx)"
    using enter_initial_path [OF V(1,2) tgt] by blast
  let ?h = "h\<lparr>current := last (?t # ds)\<rparr>"
  obtain l where l: "find_lca h src ?t = Some l" "(if l = src \<or> l = ?t then parent_of h l else Some l) = Some b"
    using B(1) by (auto split: bind_splits)
  have ex: "execute_transition h ctx evt src tran = Some (?h, run_entries h (rev ys @ ds)
      (run_action (t_action tran) (run_exits h xs ctx) evt))"
    using k tgt l exit_loop_path [OF V(1) ok(1) B(2) xs] enter_path_path [OF V(1) B(2) ok(2) ys] D(2)
    by (simp add: execute_transition_def Let_def run_entries_def exit_to_lca_def in_range_def)
  have P: "path h (last (?t # ds)) = rev (rev ys @ ds) @ path h b"
    using descends_path [OF V(1) tgt D(1)] ys by simp
  have "moves h ctx evt tran b xs (rev ys @ ds) ?h (run_entries h (rev ys @ ds)
      (run_action (t_action tran) (run_exits h xs ctx) evt))"
    using B(2) xs P active_leaf_last [OF V(1) tgt D(1)] by (simp add: moves_def)
  moreover have "?t \<in> set (path h (last (?t # ds)))"
    using descends_path [OF V(1) tgt D(1)] self_in_path [OF V(1) tgt] by simp
  moreover have "kind_moves h src tran b (rev ys @ ds)" using k B(5) ys D(1) by (auto simp: kind_moves_def)
  ultimately show ?thesis using ex by (intro exI conjI) (assumption | simp del: last.simps)+
qed

section \<open>Dispatch\<close>

text \<open>External transitions name states of the table.\<close>
definition targets_ok :: "'c Hsm \<Rightarrow> bool" where
  "targets_ok h \<longleftrightarrow> (\<forall>t \<in> set (transitions h). t_kind t = External \<longrightarrow> in_range h (t_target t))"

lemma find_transition_Some:
  "find_transition h ctx evt s = Some t \<Longrightarrow> t \<in> set (transitions h) \<and> t_source t = s \<and> t_signal t = signal evt"
  by (auto simp: find_transition_def find_Some_iff)

lemma execute_moves:
  assumes V: "valid h" "depth_ok h" "in_range h (current h)" "active_leaf h"
    and src: "src \<in> set (path h (current h))"
    and tgt: "t_kind tran = External \<Longrightarrow> in_range h (t_target tran)"
  shows "\<exists>b exited entered h' ctx'. execute_transition h ctx evt src tran = Some (h', ctx')
      \<and> moves h ctx evt tran b exited entered h' ctx' \<and> kind_moves h src tran b entered"
proof (cases "t_kind tran")
  case External
  then show ?thesis using external_moves [OF V(1-3) src External tgt] by blast
next
  case Self
  then obtain exited ds h' ctx' where "execute_transition h ctx evt src tran = Some (h', ctx')"
    "moves h ctx evt tran (parent (st h src)) exited (src # ds) h' ctx'" "descends h src ds"
    using self_moves [OF V(1-3) src] by blast
  moreover from this have "kind_moves h src tran (parent (st h src)) (src # ds)" using Self by (simp add: kind_moves_def)
  ultimately show ?thesis by blast
next
  case Internal
  have "moves h ctx evt tran (current h) [] [] h (run_action (t_action tran) ctx evt)"
    using V by (simp add: moves_def run_exits_def run_entries_def ok_state_def)
  moreover have "kind_moves h src tran (current h) []" using Internal by (simp add: kind_moves_def)
  ultimately show ?thesis using Internal by (auto simp: execute_transition_def)
qed

text \<open>The first accepting state on the path, among the first \<^verbatim>\<open>max_depth\<close> + 1 states.\<close>
definition acceptor :: "'c Hsm \<Rightarrow> 'c \<Rightarrow> Event \<Rightarrow> nat \<Rightarrow> int \<Rightarrow> int option" where
  "acceptor h ctx evt k s = find (\<lambda>x. find_transition h ctx evt x \<noteq> None) (take (Suc k) (path h s))"

lemma dispatch_loop_acceptor:
  assumes V: "valid h" "in_range h s"
  shows "dispatch_loop h ctx evt k s =
    (case acceptor h ctx evt k s of
       None \<Rightarrow> Some (False, h, ctx)
     | Some x \<Rightarrow> map_option (\<lambda>(h', ctx'). (True, h', ctx'))
         (execute_transition h ctx evt x (the (find_transition h ctx evt x))))"
  using V(2)
proof (induction k arbitrary: s)
  case 0
  then show ?case
    using path_step [OF V(1) 0] parent_of_in_range [OF 0]
    by (subst dispatch_loop.simps) (auto simp: acceptor_def split: option.splits)
next
  case (Suc k)
  note P = path_step [OF V(1) Suc.prems] and p = parent_of_in_range [OF Suc.prems]
  show ?case
  proof (cases "find_transition h ctx evt s")
    case (Some t)
    then show ?thesis by (subst dispatch_loop.simps) (simp add: acceptor_def P)
  next
    case None
    let ?p = "parent (st h s)"
    have a: "acceptor h ctx evt (Suc k) s = acceptor h ctx evt k ?p"
      using None by (simp add: acceptor_def P)
    show ?thesis
    proof (cases "?p < 0")
      case True
      then show ?thesis using None p a by (subst dispatch_loop.simps) (simp add: acceptor_def)
    next
      case False
      then have "in_range h ?p" using valid_parent [OF V(1) Suc.prems] by auto
      then show ?thesis using Suc.IH [of ?p] None p a False by (subst dispatch_loop.simps) simp
    qed
  qed
qed

section \<open>Validation\<close>

text \<open>The parent relation of a state table.\<close>
definition parent_rel :: "'c StateDef list \<Rightarrow> (nat \<times> nat) set" where
  "parent_rel sts = {(i, j). i < length sts \<and> j < length sts \<and> parent (sts ! i) = int j}"

text \<open>A forest of states whose initial children are children.\<close>
definition forest :: "'c StateDef list \<Rightarrow> bool" where
  "forest sts \<longleftrightarrow> length sts \<le> 128
     \<and> (\<forall>i < length sts. -1 \<le> parent (sts ! i) \<and> parent (sts ! i) < int (length sts)
          \<and> -1 \<le> initial_child (sts ! i) \<and> initial_child (sts ! i) < int (length sts)
          \<and> (0 \<le> initial_child (sts ! i) \<longrightarrow> parent (sts ! nat (initial_child (sts ! i))) = int i))
     \<and> acyclic (parent_rel sts)"

text \<open>A validated chain is a decreasing measure: no state reaches itself.\<close>
lemma valid_acyclic:
  assumes "valid h"
  shows "acyclic (parent_rel (states h))"
proof -
  let ?m = "\<lambda>i. length (path h (int i))"
  have step: "?m j < ?m i" if "(i, j) \<in> parent_rel (states h)" for i j
    using path_step [OF assms, of "int i"] that by (auto simp: parent_rel_def in_range_def)
  have "?m j < ?m i" if "(i, j) \<in> (parent_rel (states h))\<^sup>+" for i j
    using that
  proof (induction rule: trancl_induct)
    case (base y)
    then show ?case by (rule step)
  next
    case (step y z)
    then show ?case using \<open>\<And>i j. (i, j) \<in> parent_rel (states h) \<Longrightarrow> ?m j < ?m i\<close> [of y z] by simp
  qed
  then show ?thesis unfolding acyclic_def by (meson less_irrefl)
qed

lemma parent_rel_reach_bound:
  assumes "i < length sts"
  shows "(parent_rel sts)\<^sup>* `` {i} \<subseteq> {..<length sts}"
proof -
  have "j < length sts" if "(i, j) \<in> (parent_rel sts)\<^sup>*" for j
    using that assms by (induction rule: rtrancl_induct) (auto simp: parent_rel_def)
  then show ?thesis by auto
qed

lemma acyclic_validates:
  assumes ac: "acyclic (parent_rel sts)"
    and par: "\<And>i. i < length sts \<Longrightarrow> -1 \<le> parent (sts ! i) \<and> parent (sts ! i) < int (length sts)"
    and i: "i < length sts" and k: "card ((parent_rel sts)\<^sup>* `` {i}) \<le> k"
  shows "validate_chain sts k (int i) = Some ()"
  using i k
proof (induction k arbitrary: i)
  case 0
  have "finite ((parent_rel sts)\<^sup>* `` {i})"
    by (rule finite_subset [OF parent_rel_reach_bound [OF 0(1)]]) simp
  then show ?case using 0(2) by auto
next
  case (Suc k)
  let ?R = "\<lambda>i. (parent_rel sts)\<^sup>* `` {i}"
  have fin: "finite (?R i)" by (rule finite_subset [OF parent_rel_reach_bound [OF Suc.prems(1)]]) simp
  have "validate_chain sts k (parent (sts ! i)) = Some ()"
  proof (cases "parent (sts ! i) < 0")
    case True
    then show ?thesis by (subst validate_chain.simps) simp
  next
    case False
    define j where "j = nat (parent (sts ! i))"
    have j: "parent (sts ! i) = int j" "j < length sts"
      using par [OF Suc.prems(1)] False by (auto simp: j_def)
    have ij: "(i, j) \<in> parent_rel sts" using j Suc.prems(1) by (simp add: parent_rel_def)
    have "(i, i) \<notin> (parent_rel sts)\<^sup>+" using ac by (simp add: acyclic_def)
    then have "i \<notin> ?R j" using rtrancl_into_trancl2 [OF ij] by blast
    moreover have "?R j \<subseteq> ?R i" using ij by (auto intro: converse_rtrancl_into_rtrancl)
    moreover have "i \<in> ?R i" by simp
    ultimately have "?R j \<subset> ?R i" by blast
    from psubset_card_mono [OF fin this] have "card (?R j) \<le> k" using Suc.prems(2) by linarith
    then show ?thesis using Suc.IH [OF j(2)] j(1) by simp
  qed
  then show ?case using Suc.prems(1) by (subst validate_chain.simps) simp
qed

lemma valid_forest: "valid h \<longleftrightarrow> forest (states h)"
proof
  assume v: "valid h"
  have "-1 \<le> parent (states h ! i) \<and> parent (states h ! i) < int (length (states h))
      \<and> -1 \<le> initial_child (states h ! i) \<and> initial_child (states h ! i) < int (length (states h))
      \<and> (0 \<le> initial_child (states h ! i) \<longrightarrow> parent (states h ! nat (initial_child (states h ! i))) = int i)"
    if i: "i < length (states h)" for i
  proof -
    have "in_range h (int i)" using i by (simp add: in_range_def)
    then have "parent (states h ! i) < int (length (states h))"
      using valid_parent [OF v, of "int i"] by (auto simp: in_range_def)
    moreover have "validate_state (states h) i = Some ()" using v i by (simp add: valid_iff)
    ultimately show ?thesis by (auto simp: validate_state_iff)
  qed
  then show "forest (states h)" using v valid_acyclic [OF v] by (simp add: forest_def valid_iff)
next
  assume f: "forest (states h)"
  have "validate_chain (states h) (length (states h)) (int i) = Some ()" if i: "i < length (states h)" for i
  proof (rule acyclic_validates [OF _ _ i])
    show "acyclic (parent_rel (states h))" using f by (simp add: forest_def)
    show "-1 \<le> parent (states h ! j) \<and> parent (states h ! j) < int (length (states h))"
      if "j < length (states h)" for j using f that by (simp add: forest_def)
    have "card ((parent_rel (states h))\<^sup>* `` {i}) \<le> card {..<length (states h)}"
      using parent_rel_reach_bound [OF i] by (intro card_mono) auto
    then show "card ((parent_rel (states h))\<^sup>* `` {i}) \<le> length (states h)" by simp
  qed
  then show "valid h" using f by (simp add: valid_iff validate_state_iff forest_def)
qed

lemma depth_ok_small:
  assumes "valid h" "length (states h) \<le> Suc (unat (max_depth h))"
  shows "depth_ok h"
  unfolding depth_ok_def
proof (intro allI impI)
  fix s ds
  assume D: "in_range h s \<and> descends h s ds"
  then have "in_range h (last (s # ds))" "path h (last (s # ds)) = rev ds @ path h s"
    using descends_path [OF assms(1), of s ds] by auto
  then have "length (rev ds @ path h s) \<le> length (states h)"
    using path_length [OF assms(1)] by (metis ok_state_def)
  moreover have "path h s \<noteq> []" using D self_in_path [OF assms(1), of s] by auto
  then have "1 \<le> length (path h s)" by (simp add: Suc_le_eq)
  ultimately show "length ds \<le> unat (max_depth h)" using assms(2) by simp
qed

lemma hsm_init_enters:
  assumes V: "valid h" and "depth_ok h" and "in_range h (initial_state h)"
  shows "\<exists>h' ctx'. hsm_init h ctx = Some (h', ctx') \<and> h' = h\<lparr>current := current h'\<rparr> \<and> active_leaf h'
    \<and> ctx' = run_entries h (rev (path h (current h'))) ctx
    \<and> initial_state h \<in> set (path h (current h'))"
proof -
  let ?s = "initial_state h"
  obtain ds where d: "descends h ?s ds"
    and e: "\<And>ctx. enter_initial_descendants h ?s ctx = Some (last (?s # ds), run_entries h ds ctx)"
    using enter_initial_path [OF V assms(2,3)] by blast
  have p: "path h (last (?s # ds)) = rev ds @ path h ?s" using descends_path [OF V assms(3) d] by blast
  have "enter_path h (-1) ?s ctx = Some (run_entries h (rev (path h ?s)) ctx)"
    using enter_path_path [OF V, of "-1" ?s "path h ?s" ctx] assms(3) by (simp add: ok_state_def)
  then show ?thesis
    using e active_leaf_last [OF V assms(3) d] p self_in_path [OF V assms(3)] assms(3)
    by (auto simp: hsm_init_def run_entries_def in_range_def)
qed

section \<open>Properties\<close>

text \<open>
  A machine with two levels: state 0 holds 1 (initially 2) and 3; signal 7 leaves 1 for 3,
  signal 8 re-enters 0. The callbacks log the state they enter (k) or leave (-k-1).
\<close>
definition log_state :: "int \<Rightarrow> int \<Rightarrow> int \<Rightarrow> int list StateDef" where
  "log_state k p c = \<lparr>parent = p, entry_act = Some (\<lambda>l. l @ [k]), exit_act = Some (\<lambda>l. l @ [-k - 1]),
     state_name = None, initial_child = c\<rparr>"

definition demo_hsm :: "int list Hsm" where
  "demo_hsm = \<lparr>states = [log_state 0 (-1) 1, log_state 1 0 2, log_state 2 1 (-1), log_state 3 0 (-1)],
     transitions = [\<lparr>t_source = 1, t_signal = 7, t_target = 3, t_kind = External, t_guard = None, t_action = None\<rparr>,
                    \<lparr>t_source = 0, t_signal = 8, t_target = 0, t_kind = Self, t_guard = None, t_action = None\<rparr>],
     initial_state = 0, max_depth = 8, current = 2\<rparr>"

definition demo_evt :: "u16 \<Rightarrow> Event" where
  "demo_evt s = \<lparr>signal = s, ev_pool_id = 0, ref_ctr = 0\<rparr>"

lemma demo_hsm_ok:
  "validate_topology demo_hsm = Some ()" "targets_ok demo_hsm" "depth_ok demo_hsm" "active_leaf demo_hsm"
proof -
  show v: "validate_topology demo_hsm = Some ()" by code_simp
  show "targets_ok demo_hsm" "active_leaf demo_hsm"
    by (simp_all add: targets_ok_def active_leaf_def demo_hsm_def in_range_def log_state_def)
  show "depth_ok demo_hsm"
    using v by (intro depth_ok_small) (simp_all add: valid_def demo_hsm_def)
qed


text \<open>
  C28. The constructor accepts a state table exactly when it is a forest of at most
  128 states: parents are in range or absent, no chain of parents is a cycle, and each
  initial child is a child of its state. Otherwise it aborts.
\<close>
theorem validate_topology_iff_forest:
  "validate_topology h = Some () \<longleftrightarrow> forest (states h)"
  using valid_forest by (simp add: valid_def)

text \<open>
  On a validated table \<^verbatim>\<open>find_lca\<close> ends, reads no slot out of bounds and returns the
  least common ancestor: the state whose ancestors (with itself) are exactly the common
  ancestors of the two states, or -1 when they have none.
\<close>
lemma find_lca_correct:
  assumes "validate_topology h = Some ()" and "in_range h a" and "in_range h b"
  shows "\<exists>l. find_lca h a b = Some l \<and> (l = -1 \<or> in_range h l)
      \<and> set (path h l) = set (path h a) \<inter> set (path h b)"
  using find_lca_common [of h a b] assms by (auto simp: valid_def ok_state_def)

text \<open>
  C27. Dispatching an event never aborts and never leaves the tables: with a validated
  table, external targets in range, initial descents within \<^verbatim>\<open>max_depth\<close> and an active
  leaf, \<^verbatim>\<open>dispatch\<close> returns. It reports the event unhandled and changes nothing when no
  state among the leaf and its first \<^verbatim>\<open>max_depth\<close> ancestors has a transition with a passing
  guard; otherwise it takes the first such transition of the nearest such state, runs the
  exits upwards from the leaf to a boundary, then the action, then the entries downwards,
  and ends in a leaf. An internal transition exits and enters nothing; a self transition
  has the parent of its source as boundary and enters the source and its chain of initial
  children; an external one has the nearest common ancestor of source and target other
  than the two as boundary and enters the path to the target and the target's chain of
  initial children.
\<close>
theorem dispatch_correct:
  assumes "validate_topology h = Some ()" and "targets_ok h" and "depth_ok h" and "active_leaf h"
  shows "case acceptor h ctx evt (unat (max_depth h)) (current h) of
      None \<Rightarrow> hsm_dispatch h ctx evt = Some (False, h, ctx)
    | Some src \<Rightarrow> \<exists>tran b exited entered h' ctx'. find_transition h ctx evt src = Some tran
        \<and> hsm_dispatch h ctx evt = Some (True, h', ctx')
        \<and> moves h ctx evt tran b exited entered h' ctx' \<and> kind_moves h src tran b entered"
proof -
  have V: "valid h" "in_range h (current h)" using assms by (simp_all add: valid_def active_leaf_def)
  have nn: "\<not> current h < 0" using V(2) by (simp add: in_range_def)
  note L = dispatch_loop_acceptor [OF V, of ctx evt "unat (max_depth h)"]
  show ?thesis
  proof (cases "acceptor h ctx evt (unat (max_depth h)) (current h)")
    case None
    then show ?thesis using L nn by (simp add: hsm_dispatch_def)
  next
    case (Some src)
    then obtain tran where t: "find_transition h ctx evt src = Some tran"
      and src: "src \<in> set (path h (current h))"
      by (auto simp: acceptor_def find_Some_iff dest: in_set_takeD)
    have "in_range h (t_target tran)" if "t_kind tran = External"
      using find_transition_Some [OF t] assms(2) that by (simp add: targets_ok_def)
    then show ?thesis
      using execute_moves [OF V(1) assms(3) V(2) assms(4) src] Some L nn t
      by (fastforce simp: hsm_dispatch_def)
  qed
qed

theorem dispatch_correct_witness:
  "\<exists>tran b exited entered h' ctx'. find_transition demo_hsm [] (demo_evt 7) 1 = Some tran
     \<and> hsm_dispatch demo_hsm [] (demo_evt 7) = Some (True, h', ctx')
     \<and> moves demo_hsm [] (demo_evt 7) tran b exited entered h' ctx' \<and> kind_moves demo_hsm 1 tran b entered"
proof -
  have "acceptor demo_hsm [] (demo_evt 7) (unat (max_depth demo_hsm)) (current demo_hsm) = Some 1"
    by code_simp
  then show ?thesis using dispatch_correct [OF demo_hsm_ok, of "[]" "demo_evt 7"] by simp
qed

text \<open>
  An external transition exits and re-enters its source and its target even when one
  contains the other: the states left untouched are exactly the common ancestors of the
  two other than the two themselves, and the target is active afterwards.
\<close>
lemma external_transition_boundary:
  assumes "validate_topology h = Some ()" and "depth_ok h" and "in_range h (current h)"
    and "src \<in> set (path h (current h))" and "t_kind tran = External" and "in_range h (t_target tran)"
  shows "\<exists>b exited entered h' ctx'. execute_transition h ctx evt src tran = Some (h', ctx')
      \<and> moves h ctx evt tran b exited entered h' ctx'
      \<and> set (path h b) = set (path h src) \<inter> set (path h (t_target tran)) - {src, t_target tran}
      \<and> t_target tran \<in> set (path h (current h'))"
  using external_moves [of h src tran ctx evt] kind_moves_boundary [of h src tran] assms by (metis valid_def)

text \<open>
  Initialisation never aborts on a validated table whose initial state is in range and
  whose initial descents respect \<^verbatim>\<open>max_depth\<close>: it enters the ancestors of the initial state
  from the root downwards, then its chain of initial children, each exactly once and in
  this order, and the machine is then in a leaf.
\<close>
lemma hsm_init_correct:
  assumes "validate_topology h = Some ()" and "depth_ok h" and "in_range h (initial_state h)"
  shows "\<exists>h' ctx'. hsm_init h ctx = Some (h', ctx') \<and> h' = h\<lparr>current := current h'\<rparr> \<and> active_leaf h'
    \<and> ctx' = run_entries h (rev (path h (current h'))) ctx
    \<and> initial_state h \<in> set (path h (current h'))"
  using hsm_init_enters [OF _ assms(2,3)] assms(1) by (simp add: valid_def)

end
