(* ===== verification/Cas_Loop.thy ===== *)
theory Cas_Loop
  imports Coact_Prelude
begin

text \<open>
  The compare-and-exchange retry loop that several components share: load a word, decide
  from it whether to give up or which word to install, exchange, and on failure decide
  again from the word found. The decision is a function of the call and the word: None
  gives up (the loop returns false), Some is the word to install (it returns true).

  \<^item> \<^verbatim>\<open>cas_step\<close> interleaves the loops of any number of threads on one shared word. An exchange
    may fail although the word matches, as \<^verbatim>\<open>compare_exchange_weak\<close> does.
  \<^item> The theorem is linearisability: the calls that have returned can be put in one order in
    which each, run alone, returns what it returned, and the word is the last result.
\<close>

section \<open>Steps\<close>

datatype ('o, 'w) CasPc = CasIdle | CasLoaded 'o 'w

record ('o, 'w) CasSystem =
  cas_word :: 'w
  cas_pc :: "nat \<Rightarrow> ('o, 'w) CasPc"
  cas_returned :: "('o \<times> bool) list"

definition cas_start :: "'w \<Rightarrow> ('o, 'w) CasSystem" where
  "cas_start w = \<lparr>cas_word = w, cas_pc = (\<lambda>t. CasIdle), cas_returned = []\<rparr>"

inductive cas_step :: "('o \<Rightarrow> 'w \<Rightarrow> 'w option) \<Rightarrow> ('o, 'w) CasSystem \<Rightarrow> ('o, 'w) CasSystem \<Rightarrow> bool" for f where
  cas_load: "cas_pc u t = CasIdle \<Longrightarrow>
     cas_step f u (u\<lparr>cas_pc := (cas_pc u)(t := CasLoaded x (cas_word u))\<rparr>)"
| cas_give_up: "\<lbrakk>cas_pc u t = CasLoaded x observed; f x observed = None\<rbrakk> \<Longrightarrow>
     cas_step f u (u\<lparr>cas_pc := (cas_pc u)(t := CasIdle), cas_returned := cas_returned u @ [(x, False)]\<rparr>)"
| cas_exchange: "\<lbrakk>cas_pc u t = CasLoaded x observed; f x observed = Some desired; cas_word u = observed\<rbrakk> \<Longrightarrow>
     cas_step f u (u\<lparr>cas_word := desired, cas_pc := (cas_pc u)(t := CasIdle), cas_returned := cas_returned u @ [(x, True)]\<rparr>)"
| cas_retry: "\<lbrakk>cas_pc u t = CasLoaded x observed; f x observed \<noteq> None\<rbrakk> \<Longrightarrow>
     cas_step f u (u\<lparr>cas_pc := (cas_pc u)(t := CasLoaded x (cas_word u))\<rparr>)"

text \<open>The loop run by one thread alone: the word after it and what it returns.\<close>
definition cas_alone :: "('o \<Rightarrow> 'w \<Rightarrow> 'w option) \<Rightarrow> 'o \<Rightarrow> 'w \<Rightarrow> bool \<times> 'w" where
  "cas_alone f x w = (case f x w of None \<Rightarrow> (False, w) | Some d \<Rightarrow> (True, d))"

text \<open>Calls run one after the other, each returning what the list says.\<close>
fun cas_run :: "('o \<Rightarrow> 'w \<Rightarrow> 'w option) \<Rightarrow> ('o \<times> bool) list \<Rightarrow> 'w \<Rightarrow> 'w option" where
  "cas_run f [] w = Some w"
| "cas_run f ((x, r) # xs) w = (case cas_alone f x w of (r', w') \<Rightarrow> if r = r' then cas_run f xs w' else None)"

section \<open>Linearisation\<close>

lemma cas_run_append: "cas_run f (xs @ ys) w = Option.bind (cas_run f xs w) (cas_run f ys)"
  by (induction f xs w rule: cas_run.induct) (auto split: prod.split)

lemma cas_run_refused: "f x w = None \<Longrightarrow> cas_run f ((x, False) # ys) w = cas_run f ys w"
  by (simp add: cas_alone_def)

lemma cas_run_prefix: "cas_run f L w \<noteq> None \<Longrightarrow> \<exists>v. cas_run f (take k L) w = Some v"
  using cas_run_append [of f "take k L" "drop k L" w] by (cases "cas_run f (take k L) w") auto

text \<open>
  An order of the returned calls that reproduces the word, in which every word a thread
  has loaded is the result of a prefix.
\<close>
definition cas_order :: "('o \<Rightarrow> 'w \<Rightarrow> 'w option) \<Rightarrow> 'w \<Rightarrow> ('o, 'w) CasSystem \<Rightarrow> ('o \<times> bool) list \<Rightarrow> bool" where
  "cas_order f w0 u L \<longleftrightarrow> mset L = mset (cas_returned u) \<and> cas_run f L w0 = Some (cas_word u)
     \<and> (\<forall>t x observed. cas_pc u t = CasLoaded x observed \<longrightarrow> (\<exists>k \<le> length L. cas_run f (take k L) w0 = Some observed))"

lemma cas_order_loaded:
  "\<lbrakk>cas_order f w0 u L; cas_pc u t = CasLoaded x observed\<rbrakk> \<Longrightarrow> \<exists>k \<le> length L. cas_run f (take k L) w0 = Some observed"
  by (auto simp: cas_order_def)

lemma cas_order_return:
  assumes ord: "cas_order f w0 u L" and ms: "mset L' = mset L + {#(x, r)#}" and w: "cas_run f L' w0 = Some w"
    and keep: "\<And>k v. k \<le> length L \<Longrightarrow> cas_run f (take k L) w0 = Some v \<Longrightarrow> \<exists>k' \<le> length L'. cas_run f (take k' L') w0 = Some v"
  shows "cas_order f w0 (u\<lparr>cas_word := w, cas_pc := (cas_pc u)(t := CasIdle), cas_returned := cas_returned u @ [(x, r)]\<rparr>) L'"
proof -
  have "\<exists>k' \<le> length L'. cas_run f (take k' L') w0 = Some observed"
    if "cas_pc u t' = CasLoaded y observed" for t' y observed
    using cas_order_loaded [OF ord that] keep by metis
  then show ?thesis using ord ms w by (auto simp: cas_order_def)
qed

text \<open>A call that gave up is inserted where its word was loaded.\<close>
lemma insert_refused:
  assumes "k \<le> length L" "cas_run f (take k L) w0 = Some observed" "f x observed = None"
  defines "L' \<equiv> take k L @ (x, False) # drop k L"
  shows "cas_run f L' w0 = cas_run f L w0"
    and "j \<le> length L \<Longrightarrow> \<exists>j' \<le> length L'. cas_run f (take j' L') w0 = cas_run f (take j L) w0"
proof -
  have ins: "cas_run f (take k L @ (x, False) # ys) w0 = cas_run f (take k L @ ys) w0" for ys
    by (simp add: cas_run_append assms(2) cas_run_refused [of f x observed, OF assms(3)] del: cas_run.simps)
  show "cas_run f L' w0 = cas_run f L w0" using ins [of "drop k L"] by (simp only: L'_def append_take_drop_id)
  assume j: "j \<le> length L"
  show "\<exists>j' \<le> length L'. cas_run f (take j' L') w0 = cas_run f (take j L) w0"
  proof (cases "j \<le> k")
    case True
    then have "take j L' = take j L" using assms(1) by (simp add: L'_def min_absorb1)
    then show ?thesis using j by (intro exI [of _ j]) (simp add: L'_def)
  next
    case False
    then have "take (Suc j) L' = take k L @ (x, False) # take (j - k) (drop k L)"
      "take k L @ take (j - k) (drop k L) = take j L"
      using assms(1) by (simp_all add: L'_def Suc_diff_le take_add [symmetric] min_absorb2)
    then have "cas_run f (take (Suc j) L') w0 = cas_run f (take j L) w0" using ins by metis
    then show ?thesis using assms(1) j by (intro exI [of _ "Suc j"]) (simp add: L'_def)
  qed
qed

lemma cas_step_order:
  assumes "cas_step f u u'" "cas_order f w0 u L"
  shows "\<exists>L'. cas_order f w0 u' L'"
  using assms(1)
proof cases
  case (cas_load t x)
  have "cas_run f (take (length L) L) w0 = Some (cas_word u)" using assms(2) by (simp add: cas_order_def)
  then show ?thesis using cas_load assms(2) by (intro exI [of _ L]) (auto simp: cas_order_def)
next
  case (cas_retry t x observed)
  have "cas_run f (take (length L) L) w0 = Some (cas_word u)" using assms(2) by (simp add: cas_order_def)
  then show ?thesis using cas_retry assms(2) by (intro exI [of _ L]) (auto simp: cas_order_def)
next
  case (cas_exchange t x observed desired)
  have "\<exists>k' \<le> length (L @ [(x, True)]). cas_run f (take k' (L @ [(x, True)])) w0 = Some v"
    if "k \<le> length L" "cas_run f (take k L) w0 = Some v" for k v
    using that by (intro exI [of _ k]) simp
  moreover have "cas_run f (L @ [(x, True)]) w0 = Some desired"
    using assms(2) cas_exchange(3,4) by (simp add: cas_order_def cas_run_append cas_alone_def)
  ultimately have "cas_order f w0 u' (L @ [(x, True)])"
    unfolding cas_exchange(1) by (intro cas_order_return [OF assms(2)]) simp_all
  then show ?thesis ..
next
  case (cas_give_up t x observed)
  then obtain k where k: "k \<le> length L" "cas_run f (take k L) w0 = Some observed"
    using cas_order_loaded [OF assms(2)] by blast
  let ?L = "take k L @ (x, False) # drop k L"
  note I = insert_refused [OF k cas_give_up(3)]
  have "mset L = mset (take k L) + mset (drop k L)" by (metis append_take_drop_id mset_append)
  then have "mset ?L = mset L + {#(x, False)#}" by simp
  moreover have "cas_run f ?L w0 = Some (cas_word u)" using I(1) assms(2) by (simp only: cas_order_def)
  moreover have "\<exists>j' \<le> length ?L. cas_run f (take j' ?L) w0 = Some v"
    if "j \<le> length L" "cas_run f (take j L) w0 = Some v" for j v using I(2) [OF that(1)] that(2) by metis
  ultimately have "cas_order f w0 (u\<lparr>cas_word := cas_word u, cas_pc := (cas_pc u)(t := CasIdle),
      cas_returned := cas_returned u @ [(x, False)]\<rparr>) ?L"
    by (rule cas_order_return [OF assms(2)])
  then show ?thesis using cas_give_up(1) by auto
qed

lemma cas_linearises:
  assumes "(cas_step f)\<^sup>*\<^sup>* (cas_start w0) u"
  shows "\<exists>L. mset L = mset (cas_returned u) \<and> cas_run f L w0 = Some (cas_word u)"
proof -
  have "\<exists>L. cas_order f w0 u L"
    using assms
  proof (induction rule: rtranclp_induct)
    case base
    have "cas_order f w0 (cas_start w0) []" by (simp add: cas_order_def cas_start_def)
    then show ?case ..
  next
    case (step u v)
    then show ?case using cas_step_order by metis
  qed
  then show ?thesis by (auto simp: cas_order_def)
qed

text \<open>What every successful exchange keeps holds of the shared word.\<close>
lemma cas_invariant:
  assumes "(cas_step f)\<^sup>*\<^sup>* (cas_start w0) u" and "P w0" and "\<And>x w w'. P w \<Longrightarrow> f x w = Some w' \<Longrightarrow> P w'"
  shows "P (cas_word u)"
proof -
  have "P v" if "P w" "cas_run f L w = Some v" for L w v
    using that
  proof (induction L arbitrary: w)
    case (Cons c L)
    obtain x r where c: "c = (x, r)" by (cases c)
    show ?case
    proof (cases "f x w")
      case None
      then show ?thesis using Cons c by (simp add: cas_alone_def split: if_splits)
    next
      case (Some d)
      then show ?thesis using Cons.prems Cons.IH [of d] assms(3) [OF Cons.prems(1) Some] c
        by (simp add: cas_alone_def split: if_splits)
    qed
  qed simp
  then show ?thesis using cas_linearises [OF assms(1)] assms(2) by blast
qed

end
