(* ===== verification/Breaker.thy ===== *)
theory Breaker
  imports Coact_Config Cas_Loop
begin

text \<open>
  The per-AO circuit breaker and the breaker bank of monitor.hpp.

  \<^item> The whole mutable state is one 32-bit word; \<^verbatim>\<open>pack\<close> and \<^verbatim>\<open>unpack\<close> are the source's shifts
    and masks. A level read from the word may be a value without an enumerator, which every
    switch sends to its default branch: that is \<^verbatim>\<open>BlOther\<close>.
  \<^item> Each event input is a transition function on the unpacked state (the lambda the source
    hands to \<^verbatim>\<open>update\<close>) and the operation that applies it to the packed word.
  \<^item> \<^verbatim>\<open>update\<close> is the retry loop run by one thread alone; \<^verbatim>\<open>update_decide\<close> is its decision, from
    which \<^verbatim>\<open>cas_step\<close> makes the interleaved loops of any number of threads.
  \<^item> \<^verbatim>\<open>target_breaker\<close> and \<^verbatim>\<open>breaker_idle_cycle\<close> are the overloads for a bank, which the runtime
    and the theorems on the pipeline use; those for a single breaker stand beside them.
\<close>

section \<open>The breaker\<close>

datatype BreakerLevel = BlNormal | BrokenL1 | BrokenL2 | Safe | Recovering | BlOther u8

fun level_raw :: "BreakerLevel \<Rightarrow> u8" where
  "level_raw BlNormal = 0"
| "level_raw BrokenL1 = 1"
| "level_raw BrokenL2 = 2"
| "level_raw Safe = 3"
| "level_raw Recovering = 4"
| "level_raw (BlOther x) = x"

definition level_of_raw :: "u8 \<Rightarrow> BreakerLevel" where
  "level_of_raw x =
     (if x = 0 then BlNormal else if x = 1 then BrokenL1 else if x = 2 then BrokenL2
      else if x = 3 then Safe else if x = 4 then Recovering else BlOther x)"

record BreakerState =
  level :: BreakerLevel
  cooldown_remaining :: u16
  direct_timeout_consec :: u8
  rtc_timeout_consec :: u8
  high_watermark_consec :: u8
  low_watermark_consec :: u8
  healthy_window_count :: u8
  probe_success :: bool

definition kDirectTimeoutThreshold :: u8 where "kDirectTimeoutThreshold = 3"
definition kRtcTimeoutThreshold :: u8 where "kRtcTimeoutThreshold = 3"
definition kWatermarkViolationPct :: u8 where "kWatermarkViolationPct = 80"
definition kLowWatermarkPct :: u8 where "kLowWatermarkPct = 50"
definition kHighWatermarkPersist :: u8 where "kHighWatermarkPersist = 3"
definition kLowWatermarkPersist :: u8 where "kLowWatermarkPersist = 3"
definition kHealthyWindowsRequired :: u8 where "kHealthyWindowsRequired = 3"

definition kLevelShift :: nat where "kLevelShift = 0"
definition kCooldownShift :: nat where "kCooldownShift = 3"
definition kDirectTimeoutShift :: nat where "kDirectTimeoutShift = 19"
definition kRtcTimeoutShift :: nat where "kRtcTimeoutShift = 21"
definition kHighWatermarkShift :: nat where "kHighWatermarkShift = 23"
definition kLowWatermarkShift :: nat where "kLowWatermarkShift = 25"
definition kHealthyWindowShift :: nat where "kHealthyWindowShift = 27"
definition kProbeSuccessShift :: nat where "kProbeSuccessShift = 29"
definition kLevelMask :: u32 where "kLevelMask = 0x7"
definition kCooldownMask :: u32 where "kCooldownMask = 0xffff"
definition kCounterMask :: u32 where "kCounterMask = 0x3"

definition pack :: "BreakerState \<Rightarrow> u32" where
  "pack s =
     push_bit kLevelShift (ucast (level_raw (level s)))
     OR push_bit kCooldownShift (ucast (cooldown_remaining s))
     OR push_bit kDirectTimeoutShift (ucast (direct_timeout_consec s))
     OR push_bit kRtcTimeoutShift (ucast (rtc_timeout_consec s))
     OR push_bit kHighWatermarkShift (ucast (high_watermark_consec s))
     OR push_bit kLowWatermarkShift (ucast (low_watermark_consec s))
     OR push_bit kHealthyWindowShift (ucast (healthy_window_count s))
     OR push_bit kProbeSuccessShift (of_bool (probe_success s))"

definition unpack :: "u32 \<Rightarrow> BreakerState" where
  "unpack w = \<lparr>
     level = level_of_raw (ucast (drop_bit kLevelShift w AND kLevelMask)),
     cooldown_remaining = ucast (drop_bit kCooldownShift w AND kCooldownMask),
     direct_timeout_consec = ucast (drop_bit kDirectTimeoutShift w AND kCounterMask),
     rtc_timeout_consec = ucast (drop_bit kRtcTimeoutShift w AND kCounterMask),
     high_watermark_consec = ucast (drop_bit kHighWatermarkShift w AND kCounterMask),
     low_watermark_consec = ucast (drop_bit kLowWatermarkShift w AND kCounterMask),
     healthy_window_count = ucast (drop_bit kHealthyWindowShift w AND kCounterMask),
     probe_success = (0 \<noteq> drop_bit kProbeSuccessShift w AND 0x1)\<rparr>"

definition increment :: "u8 \<Rightarrow> u8" where
  "increment c = (if ucast c < kCounterMask then c + 1 else c)"

record Breaker =
  cooldown_cycles :: u16
  state_word :: u32

definition breaker_new :: "Config \<Rightarrow> Breaker" where
  "breaker_new cfg = \<lparr>cooldown_cycles = kCooldownCycles cfg,
     state_word = pack \<lparr>level = BlNormal, cooldown_remaining = 0, direct_timeout_consec = 0,
       rtc_timeout_consec = 0, high_watermark_consec = 0, low_watermark_consec = 0,
       healthy_window_count = 0, probe_success = False\<rparr>\<rparr>"

text \<open>The loop of update run by one thread: the exchange finds the word it has read.\<close>
definition update :: "(BreakerState \<Rightarrow> BreakerState) \<Rightarrow> Breaker \<Rightarrow> Breaker" where
  "update transition b =
     (let observed = state_word b; desired = pack (transition (unpack observed))
      in if desired = observed then b else b\<lparr>state_word := desired\<rparr>)"

definition reset_metrics :: "BreakerState \<Rightarrow> BreakerState" where
  "reset_metrics s = s\<lparr>direct_timeout_consec := 0, rtc_timeout_consec := 0, high_watermark_consec := 0,
     low_watermark_consec := 0, healthy_window_count := 0, probe_success := False\<rparr>"

definition enter_l1 :: "u16 \<Rightarrow> BreakerState \<Rightarrow> BreakerState" where
  "enter_l1 cd s = reset_metrics (s\<lparr>level := BrokenL1, cooldown_remaining := cd\<rparr>)"

definition enter_l2 :: "u16 \<Rightarrow> BreakerState \<Rightarrow> BreakerState" where
  "enter_l2 cd s = reset_metrics (s\<lparr>level := BrokenL2, cooldown_remaining := cd\<rparr>)"

definition enter_safe :: "u16 \<Rightarrow> BreakerState \<Rightarrow> BreakerState" where
  "enter_safe cd s = reset_metrics (s\<lparr>level := Safe, cooldown_remaining := cd\<rparr>)"

definition enter_recovering :: "BreakerState \<Rightarrow> BreakerState" where
  "enter_recovering s = reset_metrics (s\<lparr>level := Recovering\<rparr>)"

section \<open>Transitions\<close>

definition direct_timeout_tr :: "u16 \<Rightarrow> BreakerState \<Rightarrow> BreakerState" where
  "direct_timeout_tr cd s0 =
     (let s = s0\<lparr>direct_timeout_consec := increment (direct_timeout_consec s0)\<rparr>
      in case level s of
           BlNormal \<Rightarrow> if direct_timeout_consec s \<ge> kDirectTimeoutThreshold then enter_l1 cd s else s
         | Recovering \<Rightarrow> enter_l2 cd s
         | _ \<Rightarrow> s)"

definition dispatcher_rtc_timeout_tr :: "u16 \<Rightarrow> BreakerState \<Rightarrow> BreakerState" where
  "dispatcher_rtc_timeout_tr cd s0 =
     (let s = s0\<lparr>rtc_timeout_consec := increment (rtc_timeout_consec s0)\<rparr>
      in case level s of
           BlNormal \<Rightarrow> if rtc_timeout_consec s \<ge> kRtcTimeoutThreshold then enter_l2 cd s else s
         | BrokenL1 \<Rightarrow> if rtc_timeout_consec s \<ge> kRtcTimeoutThreshold then enter_l2 cd s else s
         | Recovering \<Rightarrow> enter_l2 cd s
         | _ \<Rightarrow> s)"

definition count_watermark :: "u8 \<Rightarrow> BreakerState \<Rightarrow> BreakerState" where
  "count_watermark percent s =
     (if percent > kWatermarkViolationPct then
        s\<lparr>high_watermark_consec := increment (high_watermark_consec s), low_watermark_consec := 0\<rparr>
      else if percent < kLowWatermarkPct then
        s\<lparr>low_watermark_consec := increment (low_watermark_consec s), high_watermark_consec := 0\<rparr>
      else s\<lparr>high_watermark_consec := 0, low_watermark_consec := 0\<rparr>)"

definition watermark_tr :: "u16 \<Rightarrow> u8 \<Rightarrow> BreakerState \<Rightarrow> BreakerState" where
  "watermark_tr cd percent s0 =
     (let s = count_watermark percent s0
      in case level s of
           BlNormal \<Rightarrow> if high_watermark_consec s \<ge> kHighWatermarkPersist then enter_l2 cd s else s
         | BrokenL1 \<Rightarrow>
             if high_watermark_consec s \<ge> kHighWatermarkPersist then enter_l2 cd s
             else if 0 = cooldown_remaining s \<and> low_watermark_consec s \<ge> kLowWatermarkPersist
                  then enter_recovering s else s
         | BrokenL2 \<Rightarrow>
             if 0 = cooldown_remaining s \<and> low_watermark_consec s \<ge> kLowWatermarkPersist
             then enter_recovering s else s
         | Recovering \<Rightarrow> if percent \<ge> kLowWatermarkPct then enter_l2 cd s else s
         | _ \<Rightarrow> s)"

definition overflow_tr :: "u16 \<Rightarrow> BreakerState \<Rightarrow> BreakerState" where
  "overflow_tr cd s =
     (case level s of
        BlNormal \<Rightarrow> enter_l2 cd s
      | BrokenL1 \<Rightarrow> enter_l2 cd s
      | Recovering \<Rightarrow> enter_l2 cd s
      | _ \<Rightarrow> s)"

definition key_reserve_exhausted_tr :: "u16 \<Rightarrow> BreakerState \<Rightarrow> BreakerState" where
  "key_reserve_exhausted_tr cd s = (if Safe \<noteq> level s then enter_safe cd s else s)"

definition dispatch_cycle_tr :: "BreakerState \<Rightarrow> BreakerState" where
  "dispatch_cycle_tr s0 =
     (let s = (if cooldown_remaining s0 > 0 then s0\<lparr>cooldown_remaining := cooldown_remaining s0 - 1\<rparr> else s0)
      in if Recovering = level s \<and> 0 = cooldown_remaining s \<and> probe_success s then
           let s1 = s\<lparr>healthy_window_count := increment (healthy_window_count s), probe_success := False\<rparr>
           in if healthy_window_count s1 \<ge> kHealthyWindowsRequired
              then s1\<lparr>level := BlNormal, healthy_window_count := 0\<rparr> else s1
         else s)"

definition probe_success_tr :: "BreakerState \<Rightarrow> BreakerState" where
  "probe_success_tr s = (if Recovering = level s then s\<lparr>probe_success := True\<rparr> else s)"

definition probe_failure_tr :: "u16 \<Rightarrow> BreakerState \<Rightarrow> BreakerState" where
  "probe_failure_tr cd s = (if Recovering = level s then enter_l2 cd s else s)"

definition external_safe_restore_tr :: "BreakerState \<Rightarrow> BreakerState" where
  "external_safe_restore_tr s = (if Safe = level s then enter_recovering s else s)"

definition rtc_ok_tr :: "BreakerState \<Rightarrow> BreakerState" where
  "rtc_ok_tr s = s\<lparr>direct_timeout_consec := 0, rtc_timeout_consec := 0\<rparr>"

section \<open>Operations\<close>

definition on_direct_timeout :: "Breaker \<Rightarrow> Breaker" where
  "on_direct_timeout b = update (direct_timeout_tr (cooldown_cycles b)) b"

definition on_dispatcher_rtc_timeout :: "Breaker \<Rightarrow> Breaker" where
  "on_dispatcher_rtc_timeout b = update (dispatcher_rtc_timeout_tr (cooldown_cycles b)) b"

definition on_watermark :: "u8 \<Rightarrow> Breaker \<Rightarrow> Breaker" where
  "on_watermark percent b = update (watermark_tr (cooldown_cycles b) percent) b"

definition on_watermark_violation :: "Breaker \<Rightarrow> Breaker" where
  "on_watermark_violation b = on_watermark (kWatermarkViolationPct + 1) b"

definition on_overflow :: "Breaker \<Rightarrow> Breaker" where
  "on_overflow b = update (overflow_tr (cooldown_cycles b)) b"

definition on_key_reserve_exhausted :: "Breaker \<Rightarrow> Breaker" where
  "on_key_reserve_exhausted b = update (key_reserve_exhausted_tr (cooldown_cycles b)) b"

definition on_watchdog :: "Breaker \<Rightarrow> Breaker" where
  "on_watchdog b = on_key_reserve_exhausted b"

definition on_dispatch_cycle :: "Breaker \<Rightarrow> Breaker" where
  "on_dispatch_cycle b = update dispatch_cycle_tr b"

definition on_probe_success :: "Breaker \<Rightarrow> Breaker" where
  "on_probe_success b = update probe_success_tr b"

definition on_probe_failure :: "Breaker \<Rightarrow> Breaker" where
  "on_probe_failure b = update (probe_failure_tr (cooldown_cycles b)) b"

definition on_external_safe_restore :: "Breaker \<Rightarrow> Breaker" where
  "on_external_safe_restore b = update external_safe_restore_tr b"

definition on_rtc_ok :: "Breaker \<Rightarrow> Breaker" where
  "on_rtc_ok b = update rtc_ok_tr b"

definition breaker_level :: "Breaker \<Rightarrow> BreakerLevel" where
  "breaker_level b = level (unpack (state_word b))"

definition direct_allowed :: "TargetId \<Rightarrow> Breaker \<Rightarrow> bool" where
  "direct_allowed ao b = (if kInvalidTarget = ao then False else BlNormal = breaker_level b)"

definition healthy_window_passed :: "Breaker \<Rightarrow> bool" where
  "healthy_window_passed b =
     (let s = unpack (state_word b)
      in if BlNormal = level s then True
         else if Recovering = level s then healthy_window_count s \<ge> kHealthyWindowsRequired
         else False)"

definition drop_non_critical :: "Breaker \<Rightarrow> bool" where
  "drop_non_critical b =
     (BrokenL2 = breaker_level b \<or> Safe = breaker_level b \<or> Recovering = breaker_level b)"

definition safe_events_only :: "Breaker \<Rightarrow> bool" where
  "safe_events_only b = (Safe = breaker_level b)"

text \<open>The inputs of a breaker as data, to speak of sequences of them.\<close>
datatype BreakerInput =
    DirectTimeout | RtcTimeout | Watermark u8 | Overflow | KeyReserveExhausted | DispatchCycle
  | ProbeSuccess | ProbeFailure | ExternalSafeRestore | RtcOk

fun input_tr :: "u16 \<Rightarrow> BreakerInput \<Rightarrow> BreakerState \<Rightarrow> BreakerState" where
  "input_tr cd DirectTimeout = direct_timeout_tr cd"
| "input_tr cd RtcTimeout = dispatcher_rtc_timeout_tr cd"
| "input_tr cd (Watermark p) = watermark_tr cd p"
| "input_tr cd Overflow = overflow_tr cd"
| "input_tr cd KeyReserveExhausted = key_reserve_exhausted_tr cd"
| "input_tr cd DispatchCycle = dispatch_cycle_tr"
| "input_tr cd ProbeSuccess = probe_success_tr"
| "input_tr cd ProbeFailure = probe_failure_tr cd"
| "input_tr cd ExternalSafeRestore = external_safe_restore_tr"
| "input_tr cd RtcOk = rtc_ok_tr"

fun on_input :: "BreakerInput \<Rightarrow> Breaker \<Rightarrow> Breaker" where
  "on_input DirectTimeout = on_direct_timeout"
| "on_input RtcTimeout = on_dispatcher_rtc_timeout"
| "on_input (Watermark p) = on_watermark p"
| "on_input Overflow = on_overflow"
| "on_input KeyReserveExhausted = on_key_reserve_exhausted"
| "on_input DispatchCycle = on_dispatch_cycle"
| "on_input ProbeSuccess = on_probe_success"
| "on_input ProbeFailure = on_probe_failure"
| "on_input ExternalSafeRestore = on_external_safe_restore"
| "on_input RtcOk = on_rtc_ok"

section \<open>The bank\<close>

record BreakerBank =
  breakers :: "Breaker list"

definition bank_new :: "Config \<Rightarrow> BreakerBank" where
  "bank_new cfg = \<lparr>breakers = replicate (unat (kMaxAo cfg)) (breaker_new cfg)\<rparr>"

definition bank_valid :: "BreakerBank \<Rightarrow> TargetId \<Rightarrow> bool" where
  "bank_valid bank target \<longleftrightarrow> target \<noteq> kInvalidTarget \<and> unat target \<le> length (breakers bank)"

definition bank_index :: "BreakerBank \<Rightarrow> TargetId \<Rightarrow> nat option" where
  "bank_index bank target = do { coact_assert (bank_valid bank target); Some (unat (target - 1)) }"

definition target_breaker :: "BreakerBank \<Rightarrow> TargetId \<Rightarrow> Breaker option" where
  "target_breaker bank target = do { i \<leftarrow> bank_index bank target; Some (breakers bank ! i) }"

text \<open>A target-scoped operation: nothing for an invalid target, else on the target's breaker.\<close>
definition bank_apply :: "(Breaker \<Rightarrow> Breaker) \<Rightarrow> TargetId \<Rightarrow> BreakerBank \<Rightarrow> BreakerBank option" where
  "bank_apply f target bank =
     (if bank_valid bank target then do {
        i \<leftarrow> bank_index bank target;
        Some (bank\<lparr>breakers := (breakers bank)[i := f (breakers bank ! i)]\<rparr>)
      } else Some bank)"

definition bank_on_direct_timeout :: "TargetId \<Rightarrow> BreakerBank \<Rightarrow> BreakerBank option" where
  "bank_on_direct_timeout = bank_apply on_direct_timeout"

definition bank_on_dispatcher_rtc_timeout :: "TargetId \<Rightarrow> BreakerBank \<Rightarrow> BreakerBank option" where
  "bank_on_dispatcher_rtc_timeout = bank_apply on_dispatcher_rtc_timeout"

definition bank_on_overflow :: "TargetId \<Rightarrow> BreakerBank \<Rightarrow> BreakerBank option" where
  "bank_on_overflow = bank_apply on_overflow"

definition bank_on_dispatch_cycle :: "TargetId \<Rightarrow> BreakerBank \<Rightarrow> BreakerBank option" where
  "bank_on_dispatch_cycle = bank_apply on_dispatch_cycle"

definition bank_on_probe_success :: "TargetId \<Rightarrow> BreakerBank \<Rightarrow> BreakerBank option" where
  "bank_on_probe_success = bank_apply on_probe_success"

definition bank_on_probe_failure :: "TargetId \<Rightarrow> BreakerBank \<Rightarrow> BreakerBank option" where
  "bank_on_probe_failure = bank_apply on_probe_failure"

definition bank_on_rtc_ok :: "TargetId \<Rightarrow> BreakerBank \<Rightarrow> BreakerBank option" where
  "bank_on_rtc_ok = bank_apply on_rtc_ok"

definition bank_level :: "BreakerBank \<Rightarrow> TargetId \<Rightarrow> BreakerLevel option" where
  "bank_level bank target =
     (if bank_valid bank target then map_option breaker_level (target_breaker bank target) else Some Safe)"

definition bank_direct_allowed :: "BreakerBank \<Rightarrow> TargetId \<Rightarrow> bool option" where
  "bank_direct_allowed bank target =
     (if bank_valid bank target then map_option (direct_allowed target) (target_breaker bank target) else Some False)"

definition bank_drop_non_critical :: "BreakerBank \<Rightarrow> TargetId \<Rightarrow> bool option" where
  "bank_drop_non_critical bank target =
     (if \<not> bank_valid bank target then Some True else map_option drop_non_critical (target_breaker bank target))"

definition bank_safe_events_only :: "BreakerBank \<Rightarrow> TargetId \<Rightarrow> bool option" where
  "bank_safe_events_only bank target =
     (if \<not> bank_valid bank target then Some True else map_option safe_events_only (target_breaker bank target))"

definition bank_for_each :: "(Breaker \<Rightarrow> Breaker) \<Rightarrow> BreakerBank \<Rightarrow> BreakerBank" where
  "bank_for_each operation bank = bank\<lparr>breakers := map operation (breakers bank)\<rparr>"

definition broadcast_watermark_violation :: "BreakerBank \<Rightarrow> BreakerBank" where
  "broadcast_watermark_violation = bank_for_each on_watermark_violation"

definition broadcast_watermark :: "u8 \<Rightarrow> BreakerBank \<Rightarrow> BreakerBank" where
  "broadcast_watermark percent = bank_for_each (on_watermark percent)"

definition broadcast_key_reserve_exhausted :: "BreakerBank \<Rightarrow> BreakerBank" where
  "broadcast_key_reserve_exhausted = bank_for_each on_key_reserve_exhausted"

definition broadcast_watchdog :: "BreakerBank \<Rightarrow> BreakerBank" where
  "broadcast_watchdog = bank_for_each on_watchdog"

definition broadcast_dispatch_cycle :: "BreakerBank \<Rightarrow> BreakerBank" where
  "broadcast_dispatch_cycle = bank_for_each on_dispatch_cycle"

definition broadcast_external_safe_restore :: "BreakerBank \<Rightarrow> BreakerBank" where
  "broadcast_external_safe_restore = bank_for_each on_external_safe_restore"

text \<open>What the coordinator and the dispatcher call on an idle turn, for a bank.\<close>
text \<open>The overloads for a single breaker, which serves every target.\<close>
definition single_target_breaker :: "Breaker \<Rightarrow> TargetId \<Rightarrow> Breaker" where
  "single_target_breaker b target = b"

definition single_idle_cycle :: "Breaker \<Rightarrow> Breaker" where
  "single_idle_cycle b = on_dispatch_cycle b"

definition breaker_idle_cycle :: "BreakerBank \<Rightarrow> BreakerBank" where
  "breaker_idle_cycle bank = broadcast_dispatch_cycle bank"

text \<open>
  The decision of the retry loop of \<^verbatim>\<open>update\<close> on the word it has observed: the loop is
  complete without an exchange when the transition leaves the word as it is.
\<close>
definition update_decide :: "u16 \<Rightarrow> BreakerInput \<Rightarrow> u32 \<Rightarrow> u32 option" where
  "update_decide cd i observed =
     (let desired = pack (input_tr cd i (unpack observed))
      in if desired = observed then None else Some desired)"

lemma on_input_update: "on_input i b = update (input_tr (cooldown_cycles b) i) b"
  by (cases i) (simp_all add: on_direct_timeout_def on_dispatcher_rtc_timeout_def on_watermark_def
      on_overflow_def on_key_reserve_exhausted_def on_dispatch_cycle_def on_probe_success_def
      on_probe_failure_def on_external_safe_restore_def on_rtc_ok_def)

end
