(* ===== verification/Breaker_Properties.thy ===== *)
theory Breaker_Properties
  imports Breaker
begin

unbundle bit_operations_syntax

text \<open>
  Properties of the circuit breaker: the packed word holds the state without loss, every
  input keeps an invariant of the degradation levels, concurrent updates are not lost, and
  recovery to normal operation needs (and is reached by) the documented sequence of inputs.
\<close>

section \<open>Packing\<close>

lemma bit_below:
  assumes "unat (c :: 'a::len word) < 2 ^ k" and "bit c n"
  shows "n < k"
proof (rule ccontr)
  assume "\<not> n < k"
  have "take_bit k c = c" using assms(1)
    by (metis take_bit_nat_eq_self unsigned_take_bit_eq word_unat_eq_iff)
  then show False using assms(2) \<open>\<not> n < k\<close> by (metis bit_take_bit_iff)
qed

lemmas pack_shifts = kLevelShift_def kCooldownShift_def kDirectTimeoutShift_def kRtcTimeoutShift_def
  kHighWatermarkShift_def kLowWatermarkShift_def kHealthyWindowShift_def kProbeSuccessShift_def
  kLevelMask_def kCooldownMask_def kCounterMask_def

definition fits :: "BreakerState \<Rightarrow> bool" where
  "fits s \<longleftrightarrow> unat (level_raw (level s)) < 8 \<and> direct_timeout_consec s \<le> 3 \<and> rtc_timeout_consec s \<le> 3
     \<and> high_watermark_consec s \<le> 3 \<and> low_watermark_consec s \<le> 3 \<and> healthy_window_count s \<le> 3"

lemma counter_nobit: "c \<le> 3 \<Longrightarrow> 2 \<le> n \<Longrightarrow> \<not> bit (c :: u8) n"
  using bit_below [of c 2 n] by (auto simp: word_le_nat_alt)

lemma level_nobit: "unat (c :: u8) < 8 \<Longrightarrow> 3 \<le> n \<Longrightarrow> \<not> bit c n"
  using bit_below [of c 3 n] by auto

lemma cooldown_nobit: "16 \<le> n \<Longrightarrow> \<not> bit (c :: u16) n"
  using bit_imp_le_length [of c n] by auto

lemmas nobit = counter_nobit level_nobit cooldown_nobit

lemma mask_words: "(3 :: u32) = mask 2" "(7 :: u32) = mask 3" "(0xffff :: u32) = mask 16" "(1 :: u32) = mask 1"
  by (simp_all add: mask_eq_exp_minus_1)

lemma bit_field: "bit (push_bit k (ucast (x :: 'a::len word) :: u32)) n \<longleftrightarrow> k \<le> n \<and> n < 32 \<and> bit x (n - k)"
  by (auto simp: bit_push_bit_iff bit_unsigned_iff)

lemma bit_field_bool: "bit (push_bit k (of_bool b :: u32)) n \<longleftrightarrow> n = k \<and> n < 32 \<and> b"
  by (cases b) (auto simp: bit_push_bit_iff bit_1_iff bit_exp_iff)

lemma bit_pack_fields: "bit (pack s) n \<longleftrightarrow> n < 32 \<and>
  (bit (level_raw (level s)) n \<or> 3 \<le> n \<and> bit (cooldown_remaining s) (n - 3)
   \<or> 19 \<le> n \<and> bit (direct_timeout_consec s) (n - 19) \<or> 21 \<le> n \<and> bit (rtc_timeout_consec s) (n - 21)
   \<or> 23 \<le> n \<and> bit (high_watermark_consec s) (n - 23) \<or> 25 \<le> n \<and> bit (low_watermark_consec s) (n - 25)
   \<or> 27 \<le> n \<and> bit (healthy_window_count s) (n - 27) \<or> n = 29 \<and> probe_success s)"
  unfolding pack_def pack_shifts bit_or_iff bit_field bit_field_bool by auto

lemma bit_pack:
  assumes "fits s"
  shows "n < 3 \<Longrightarrow> bit (pack s) n \<longleftrightarrow> bit (level_raw (level s)) n"
    "n < 16 \<Longrightarrow> bit (pack s) (3 + n) \<longleftrightarrow> bit (cooldown_remaining s) n"
    "n < 2 \<Longrightarrow> bit (pack s) (19 + n) \<longleftrightarrow> bit (direct_timeout_consec s) n"
    "n < 2 \<Longrightarrow> bit (pack s) (21 + n) \<longleftrightarrow> bit (rtc_timeout_consec s) n"
    "n < 2 \<Longrightarrow> bit (pack s) (23 + n) \<longleftrightarrow> bit (high_watermark_consec s) n"
    "n < 2 \<Longrightarrow> bit (pack s) (25 + n) \<longleftrightarrow> bit (low_watermark_consec s) n"
    "n < 2 \<Longrightarrow> bit (pack s) (27 + n) \<longleftrightarrow> bit (healthy_window_count s) n"
    "bit (pack s) 29 \<longleftrightarrow> probe_success s"
  using assms unfolding fits_def bit_pack_fields by (simp_all add: nobit)


lemma field_read:
  assumes "\<And>n. n < m \<Longrightarrow> bit (w :: u32) (k + n) \<longleftrightarrow> bit (x :: 'a::len word) n" "\<And>n. m \<le> n \<Longrightarrow> \<not> bit x n"
  shows "ucast (drop_bit k w AND mask m) = x"
proof (rule bit_word_eqI)
  fix n assume n: "n < LENGTH('a)"
  show "bit (ucast (drop_bit k w AND mask m) :: 'a word) n \<longleftrightarrow> bit x n"
  proof (cases "n < m")
    case True
    then show ?thesis using n assms(1) [OF True] bit_imp_le_length [of w "k + n"]
      by (auto simp: bit_unsigned_iff bit_and_iff bit_mask_iff bit_drop_bit_eq)
  qed (use n assms(2) in \<open>simp add: bit_unsigned_iff bit_and_iff bit_mask_iff\<close>)
qed

lemma level_raw_inverse [simp]: "level_raw (level_of_raw x) = x"
  by (simp add: level_of_raw_def)

lemma fits_unpack: "fits (unpack w)"
proof -
  have C: "(ucast (drop_bit k w AND mask 2) :: u8) \<le> 3" for k
  proof -
    have "unat (drop_bit k w AND mask 2) < 2 ^ 2"
      by (simp only: take_bit_eq_mask [symmetric] unsigned_take_bit_eq take_bit_nat_less_exp)
    then show ?thesis by (simp add: word_le_nat_alt unsigned_ucast_eq take_bit_nat_eq_self)
  qed
  have L: "unat (ucast (drop_bit k w AND mask 3) :: u8) < 8" for k
  proof -
    have "unat (drop_bit k w AND mask 3) < 2 ^ 3"
      by (simp only: take_bit_eq_mask [symmetric] unsigned_take_bit_eq take_bit_nat_less_exp)
    then show ?thesis by (simp add: unsigned_ucast_eq take_bit_nat_eq_self)
  qed
  show ?thesis unfolding fits_def unpack_def pack_shifts mask_words BreakerState.simps level_raw_inverse
    using C L by blast
qed

lemma unpack_pack:
  assumes "fits s" "level_of_raw (level_raw (level s)) = level s"
  shows "unpack (pack s) = s"
proof -
  note B = bit_pack [OF assms(1)]
  have F: "unat (level_raw (level s)) < 8" "direct_timeout_consec s \<le> 3" "rtc_timeout_consec s \<le> 3"
    "high_watermark_consec s \<le> 3" "low_watermark_consec s \<le> 3" "healthy_window_count s \<le> 3"
    using assms by (simp_all add: fits_def)
  have "ucast (drop_bit kLevelShift (pack s) AND kLevelMask) = level_raw (level s)"
    "ucast (drop_bit kCooldownShift (pack s) AND kCooldownMask) = cooldown_remaining s"
    "ucast (drop_bit kDirectTimeoutShift (pack s) AND kCounterMask) = direct_timeout_consec s"
    "ucast (drop_bit kRtcTimeoutShift (pack s) AND kCounterMask) = rtc_timeout_consec s"
    "ucast (drop_bit kHighWatermarkShift (pack s) AND kCounterMask) = high_watermark_consec s"
    "ucast (drop_bit kLowWatermarkShift (pack s) AND kCounterMask) = low_watermark_consec s"
    "ucast (drop_bit kHealthyWindowShift (pack s) AND kCounterMask) = healthy_window_count s"
    unfolding pack_shifts mask_words using F by (intro field_read; simp add: B nobit)+
  moreover have "(0 \<noteq> drop_bit kProbeSuccessShift (pack s) AND 1) = probe_success s"
    using B(8) by (simp add: pack_shifts and_one_eq bit_iff_odd_drop_bit mod_2_eq_odd)
  ultimately show ?thesis using assms(2) by (simp add: unpack_def)
qed

lemma pack_unpack:
  assumes "unat w < 2 ^ 30" shows "pack (unpack w) = w"
proof (rule bit_word_eqI)
  fix n :: nat assume n: "n < LENGTH(32)"
  have P: "bit w 29 \<longleftrightarrow> drop_bit 29 w AND 1 \<noteq> 0"
    by (simp add: and_one_eq bit_iff_odd_drop_bit mod_2_eq_odd)
  have R: "bit (ucast (drop_bit k w AND mask m) :: 'a::len word) j \<longleftrightarrow> j < LENGTH('a) \<and> j < m \<and> bit w (k + j)" for k m j
    using bit_imp_le_length [of w "k + j"] by (auto simp: bit_unsigned_iff bit_and_iff bit_mask_iff bit_drop_bit_eq)
  have nb: "\<not> bit w n" if "30 \<le> n" using bit_below [OF assms, of n] that by auto
  have U: "level_raw (level (unpack w)) = ucast (drop_bit 0 w AND mask 3)"
    "cooldown_remaining (unpack w) = ucast (drop_bit 3 w AND mask 16)"
    "direct_timeout_consec (unpack w) = ucast (drop_bit 19 w AND mask 2)"
    "rtc_timeout_consec (unpack w) = ucast (drop_bit 21 w AND mask 2)"
    "high_watermark_consec (unpack w) = ucast (drop_bit 23 w AND mask 2)"
    "low_watermark_consec (unpack w) = ucast (drop_bit 25 w AND mask 2)"
    "healthy_window_count (unpack w) = ucast (drop_bit 27 w AND mask 2)"
    "probe_success (unpack w) = bit w 29"
    by (simp_all only: unpack_def pack_shifts mask_words BreakerState.simps level_raw_inverse P eq_commute[of 0])
  consider "n < 3" | "3 \<le> n" "n < 19" | "19 \<le> n" "n < 21" | "21 \<le> n" "n < 23" | "23 \<le> n" "n < 25"
    | "25 \<le> n" "n < 27" | "27 \<le> n" "n < 29" | "n = 29" | "30 \<le> n" by linarith
  then show "bit (pack (unpack w)) n \<longleftrightarrow> bit w n"
  proof cases
    case 1 then show ?thesis unfolding bit_pack_fields U R by (simp add: less_diff_conv2)
  next
    case 2 then show ?thesis unfolding bit_pack_fields U R by (simp add: less_diff_conv2)
  next
    case 3 then show ?thesis unfolding bit_pack_fields U R by (simp add: less_diff_conv2)
  next
    case 4 then show ?thesis unfolding bit_pack_fields U R by (simp add: less_diff_conv2)
  next
    case 5 then show ?thesis unfolding bit_pack_fields U R by (simp add: less_diff_conv2)
  next
    case 6 then show ?thesis unfolding bit_pack_fields U R by (simp add: less_diff_conv2)
  next
    case 7 then show ?thesis unfolding bit_pack_fields U R by (simp add: less_diff_conv2)
  next
    case 8 then show ?thesis unfolding bit_pack_fields U R by (simp add: less_diff_conv2)
  next
    case 9 then show ?thesis unfolding bit_pack_fields U R using nb by simp
  qed
qed

section \<open>The invariant\<close>

text \<open>
  What holds of the state between inputs: the level is an enumerator, the cooldown never
  exceeds its configured length, and the counters that decide a transition are below their
  threshold in every level in which reaching it would have caused that transition.
\<close>
definition breaker_ok :: "u16 \<Rightarrow> BreakerState \<Rightarrow> bool" where
  "breaker_ok cd s \<longleftrightarrow>
     level s \<in> {BlNormal, BrokenL1, BrokenL2, Safe, Recovering} \<and> cooldown_remaining s \<le> cd
     \<and> unat (direct_timeout_consec s) \<le> 3 \<and> unat (rtc_timeout_consec s) \<le> 3
     \<and> unat (high_watermark_consec s) \<le> 3 \<and> unat (low_watermark_consec s) \<le> 3
     \<and> unat (healthy_window_count s) \<le> 2
     \<and> (level s = BlNormal \<longrightarrow> unat (direct_timeout_consec s) \<le> 2)
     \<and> (level s \<in> {BlNormal, BrokenL1} \<longrightarrow> unat (rtc_timeout_consec s) \<le> 2 \<and> unat (high_watermark_consec s) \<le> 2)
     \<and> (level s = Recovering \<longrightarrow> direct_timeout_consec s = 0 \<and> rtc_timeout_consec s = 0 \<and> high_watermark_consec s = 0)
     \<and> (level s \<noteq> Recovering \<longrightarrow> healthy_window_count s = 0 \<and> \<not> probe_success s)"

definition breaker_inv :: "Breaker \<Rightarrow> bool" where
  "breaker_inv b \<longleftrightarrow> breaker_ok (cooldown_cycles b) (unpack (state_word b))"

lemma unat_increment: "unat (increment c) = (if unat c < 3 then unat c + 1 else unat c)"
  by (simp add: increment_def kCounterMask_def word_less_nat_alt unat_ucast_up unat_inc)

lemma breaker_ok_fits: "breaker_ok cd s \<Longrightarrow> fits s \<and> level_of_raw (level_raw (level s)) = level s"
  by (cases "level s") (simp_all add: breaker_ok_def fits_def word_le_nat_alt level_of_raw_def)

lemmas thresholds = kDirectTimeoutThreshold_def kRtcTimeoutThreshold_def kWatermarkViolationPct_def
  kLowWatermarkPct_def kHighWatermarkPersist_def kLowWatermarkPersist_def kHealthyWindowsRequired_def

lemmas enter_defs = enter_l1_def enter_l2_def enter_safe_def enter_recovering_def reset_metrics_def

lemmas transition_defs = direct_timeout_tr_def dispatcher_rtc_timeout_tr_def watermark_tr_def count_watermark_def
  overflow_tr_def key_reserve_exhausted_tr_def dispatch_cycle_tr_def probe_success_tr_def probe_failure_tr_def
  external_safe_restore_tr_def rtc_ok_tr_def

lemma enter_ok [simp]:
  "breaker_ok cd (enter_l1 cd s)" "breaker_ok cd (enter_l2 cd s)" "breaker_ok cd (enter_safe cd s)"
  "breaker_ok cd (enter_recovering s) \<longleftrightarrow> cooldown_remaining s \<le> cd"
  by (simp_all add: breaker_ok_def enter_defs)

lemma count_watermark_ok:
  "breaker_ok cd s \<Longrightarrow> level s \<noteq> Recovering \<Longrightarrow>
     (level s \<in> {BlNormal, BrokenL1} \<Longrightarrow> unat (high_watermark_consec (count_watermark p s)) \<le> 2) \<Longrightarrow>
     breaker_ok cd (count_watermark p s)"
  "breaker_ok cd s \<Longrightarrow> level s = Recovering \<Longrightarrow> p < kLowWatermarkPct \<Longrightarrow> breaker_ok cd (count_watermark p s)"
  by (auto simp: breaker_ok_def count_watermark_def thresholds unat_increment word_less_nat_alt)

lemma count_watermark_frame [simp]:
  "level (count_watermark p s) = level s" "cooldown_remaining (count_watermark p s) = cooldown_remaining s"
  by (simp_all add: count_watermark_def)

lemma breaker_ok_cooldown: "breaker_ok cd s \<Longrightarrow> cooldown_remaining s \<le> cd"
  by (simp add: breaker_ok_def)

lemma watermark_tr_ok: "breaker_ok cd s \<Longrightarrow> breaker_ok cd (watermark_tr cd p s)"
  using count_watermark_ok [of cd s p] breaker_ok_cooldown [of cd s]
  by (auto simp: watermark_tr_def Let_def thresholds word_le_nat_alt word_less_nat_alt split: BreakerLevel.splits)

lemma timeout_tr_ok:
  assumes "breaker_ok cd s"
  shows "breaker_ok cd (direct_timeout_tr cd s)" "breaker_ok cd (dispatcher_rtc_timeout_tr cd s)"
  using assms
  by (cases "level s"; simp add: direct_timeout_tr_def dispatcher_rtc_timeout_tr_def Let_def thresholds
      word_le_nat_alt unat_increment; simp add: breaker_ok_def unat_increment; fail)+

lemma dispatch_cycle_tr_ok: "breaker_ok cd s \<Longrightarrow> breaker_ok cd (dispatch_cycle_tr s)"
proof -
  assume ok: "breaker_ok cd s"
  define s' where "s' = (if cooldown_remaining s > 0 then s\<lparr>cooldown_remaining := cooldown_remaining s - 1\<rparr> else s)"
  have "breaker_ok cd s'"
    using ok by (auto simp: s'_def breaker_ok_def word_le_nat_alt word_less_nat_alt unat_dec)
  then show ?thesis unfolding dispatch_cycle_tr_def s'_def [symmetric] Let_def thresholds
    by (simp add: breaker_ok_def word_le_nat_alt unat_increment)
qed

lemma input_tr_ok: "breaker_ok cd s \<Longrightarrow> breaker_ok cd (input_tr cd i s)"
proof (cases i)
  case RtcOk
  then show "breaker_ok cd s \<Longrightarrow> ?thesis" by (simp add: rtc_ok_tr_def breaker_ok_def)
next
  case ProbeSuccess
  then show "breaker_ok cd s \<Longrightarrow> ?thesis" by (auto simp: probe_success_tr_def breaker_ok_def)
qed (simp_all add: timeout_tr_ok watermark_tr_ok dispatch_cycle_tr_ok breaker_ok_cooldown overflow_tr_def
    key_reserve_exhausted_tr_def probe_failure_tr_def external_safe_restore_tr_def split: BreakerLevel.split)

lemma update_refines:
  assumes "breaker_ok cd (f (unpack (state_word b)))"
  shows "unpack (state_word (update f b)) = f (unpack (state_word b))"
proof -
  have "unpack (pack (f (unpack (state_word b)))) = f (unpack (state_word b))"
    using breaker_ok_fits [OF assms] unpack_pack by blast
  then show ?thesis by (auto simp: update_def Let_def)
qed

lemma cooldown_cycles_update [simp]: "cooldown_cycles (update f b) = cooldown_cycles b"
  by (simp add: update_def Let_def)

lemma on_input_refines:
  assumes "breaker_inv b"
  shows "unpack (state_word (on_input i b)) = input_tr (cooldown_cycles b) i (unpack (state_word b))"
    "breaker_inv (on_input i b)" "cooldown_cycles (on_input i b) = cooldown_cycles b"
  using update_refines [OF input_tr_ok] input_tr_ok assms by (auto simp: breaker_inv_def on_input_update)

lemma breaker_new_inv: "breaker_inv (breaker_new cfg)"
proof -
  have "fits s \<Longrightarrow> level s = BlNormal \<Longrightarrow> unpack (pack s) = s" for s
    by (rule unpack_pack) (simp_all add: level_of_raw_def)
  then show ?thesis by (simp add: breaker_inv_def breaker_new_def breaker_ok_def fits_def)
qed

section \<open>Runs of inputs\<close>

definition run_inputs :: "BreakerInput list \<Rightarrow> Breaker \<Rightarrow> Breaker" where
  "run_inputs is b = fold on_input is b"

definition run_tr :: "u16 \<Rightarrow> BreakerInput list \<Rightarrow> BreakerState \<Rightarrow> BreakerState" where
  "run_tr cd is s = fold (input_tr cd) is s"

lemma run_tr_simps [simp]: "run_tr cd [] s = s" "run_tr cd (i # is) s = run_tr cd is (input_tr cd i s)"
  by (simp_all add: run_tr_def)

lemma run_tr_append: "run_tr cd (is @ js) s = run_tr cd js (run_tr cd is s)"
  by (simp add: run_tr_def)

lemma run_tr_ok: "breaker_ok cd s \<Longrightarrow> breaker_ok cd (run_tr cd is s)"
  by (induction "is" arbitrary: s) (simp_all add: input_tr_ok)

lemma run_inputs_refines:
  assumes "breaker_inv b"
  shows "unpack (state_word (run_inputs is b)) = run_tr (cooldown_cycles b) is (unpack (state_word b))
    \<and> breaker_inv (run_inputs is b) \<and> cooldown_cycles (run_inputs is b) = cooldown_cycles b"
  using assms
proof (induction "is" arbitrary: b)
  case (Cons i "is")
  then show ?case using Cons.IH [of "on_input i b"] on_input_refines [OF Cons.prems, of i]
    by (simp add: run_inputs_def)
qed (simp add: run_inputs_def)

section \<open>Recovery\<close>

text \<open>The dispatch cycles and the successful probes a state still needs to reach the normal level.\<close>
definition need_cycles :: "BreakerState \<Rightarrow> nat" where
  "need_cycles s = (case level s of
      BlNormal \<Rightarrow> 0
    | Recovering \<Rightarrow> 3 - unat (healthy_window_count s) + (unat (cooldown_remaining s) - 1)
    | _ \<Rightarrow> 3 + (unat (cooldown_remaining s) - 1))"

definition need_probes :: "BreakerState \<Rightarrow> nat" where
  "need_probes s = (case level s of
      BlNormal \<Rightarrow> 0
    | Recovering \<Rightarrow> 3 - unat (healthy_window_count s) - of_bool (probe_success s)
    | _ \<Rightarrow> 3)"

text \<open>Inputs that end a recovery.\<close>
fun relapse :: "BreakerInput \<Rightarrow> bool" where
  "relapse DirectTimeout = True"
| "relapse RtcTimeout = True"
| "relapse (Watermark p) = (kLowWatermarkPct \<le> p)"
| "relapse Overflow = True"
| "relapse KeyReserveExhausted = True"
| "relapse ProbeFailure = True"
| "relapse _ = False"

lemma need_enter:
  assumes "cooldown_remaining s \<le> cd"
  shows "need_cycles s \<le> need_cycles (enter_l1 cd s)" "need_cycles s \<le> need_cycles (enter_l2 cd s)"
    "need_cycles s \<le> need_cycles (enter_safe cd s)" "need_cycles s \<le> need_cycles (enter_recovering s)"
    "need_probes s \<le> need_probes (enter_l1 cd s)" "need_probes s \<le> need_probes (enter_l2 cd s)"
    "need_probes s \<le> need_probes (enter_safe cd s)" "need_probes s \<le> need_probes (enter_recovering s)"
  using assms
  by (cases "level s"; simp add: need_cycles_def need_probes_def enter_defs word_le_nat_alt)+

lemma enter_metrics [simp]:
  "enter_l1 cd (s\<lparr>direct_timeout_consec := a\<rparr>) = enter_l1 cd s" "enter_l2 cd (s\<lparr>direct_timeout_consec := a\<rparr>) = enter_l2 cd s"
  "enter_l2 cd (s\<lparr>rtc_timeout_consec := a\<rparr>) = enter_l2 cd s" "enter_l2 cd (count_watermark p s) = enter_l2 cd s"
  "enter_recovering (count_watermark p s) = enter_recovering s"
  by (simp_all add: enter_defs count_watermark_def)

text \<open>The metrics other than the healthy windows do not count for the need.\<close>
lemma need_metrics [simp]:
  "need_cycles (s\<lparr>direct_timeout_consec := a\<rparr>) = need_cycles s" "need_probes (s\<lparr>direct_timeout_consec := a\<rparr>) = need_probes s"
  "need_cycles (s\<lparr>rtc_timeout_consec := a\<rparr>) = need_cycles s" "need_probes (s\<lparr>rtc_timeout_consec := a\<rparr>) = need_probes s"
  "need_cycles (s\<lparr>high_watermark_consec := a\<rparr>) = need_cycles s" "need_probes (s\<lparr>high_watermark_consec := a\<rparr>) = need_probes s"
  "need_cycles (s\<lparr>low_watermark_consec := a\<rparr>) = need_cycles s" "need_probes (s\<lparr>low_watermark_consec := a\<rparr>) = need_probes s"
  "need_cycles (s\<lparr>probe_success := p\<rparr>) = need_cycles s"
  by (simp_all add: need_cycles_def need_probes_def cong: BreakerLevel.case_cong)

lemma need_count_watermark [simp]:
  "need_cycles (count_watermark p s) = need_cycles s" "need_probes (count_watermark p s) = need_probes s"
  by (simp_all add: count_watermark_def)

lemma need_cycle:
  assumes "unat (healthy_window_count s) \<le> 2"
  shows "need_cycles s \<le> need_cycles (dispatch_cycle_tr s) + 1" "need_probes s \<le> need_probes (dispatch_cycle_tr s)"
  using assms
  by (cases "level s"; simp add: need_cycles_def need_probes_def dispatch_cycle_tr_def Let_def thresholds
      word_le_nat_alt unat_increment word_less_nat_alt unat_dec unat_eq_0 [symmetric]; auto)+

lemma need_step:
  assumes "breaker_ok cd s"
  shows "need_cycles s \<le> need_cycles (input_tr cd i s) + of_bool (i = DispatchCycle)"
    and "need_probes s \<le> need_probes (input_tr cd i s) + of_bool (i = ProbeSuccess)"
proof -
  have cd: "cooldown_remaining s \<le> cd" and hw: "unat (healthy_window_count s) \<le> 2"
    using assms by (simp_all add: breaker_ok_def)
  have P: "need_probes s \<le> need_probes (probe_success_tr s) + 1"
    by (auto simp: probe_success_tr_def need_probes_def split: BreakerLevel.split)
  show "need_cycles s \<le> need_cycles (input_tr cd i s) + of_bool (i = DispatchCycle)"
    "need_probes s \<le> need_probes (input_tr cd i s) + of_bool (i = ProbeSuccess)"
    using cd P need_cycle [OF hw]
    by (cases i; simp add: need_enter direct_timeout_tr_def dispatcher_rtc_timeout_tr_def watermark_tr_def overflow_tr_def
        key_reserve_exhausted_tr_def probe_success_tr_def probe_failure_tr_def external_safe_restore_tr_def
        rtc_ok_tr_def Let_def split: BreakerLevel.split)+
qed

lemma need_run:
  "breaker_ok cd s \<Longrightarrow> need_cycles s \<le> need_cycles (run_tr cd is s) + count_list is DispatchCycle
     \<and> need_probes s \<le> need_probes (run_tr cd is s) + count_list is ProbeSuccess"
proof (induction "is" arbitrary: s)
  case (Cons i "is")
  note IH = Cons.IH [OF input_tr_ok [OF Cons.prems, of i]] and S = need_step [OF Cons.prems, of i]
  show ?case using IH S by (cases "i = DispatchCycle"; cases "i = ProbeSuccess"; simp)
qed simp_all

lemma enter_fields [simp]:
  "level (enter_l1 cd s) = BrokenL1" "level (enter_l2 cd s) = BrokenL2" "level (enter_safe cd s) = Safe"
  "level (enter_recovering s) = Recovering" "healthy_window_count (enter_recovering s) = 0"
  "\<not> probe_success (enter_recovering s)" "cooldown_remaining (enter_recovering s) = cooldown_remaining s"
  by (simp_all add: enter_defs)

lemmas level_tr = direct_timeout_tr_def dispatcher_rtc_timeout_tr_def watermark_tr_def overflow_tr_def
  key_reserve_exhausted_tr_def dispatch_cycle_tr_def probe_success_tr_def probe_failure_tr_def
  external_safe_restore_tr_def rtc_ok_tr_def

text \<open>How a level is left and entered.\<close>
lemma leave_to_normal:
  assumes "level s \<noteq> BlNormal" "level (input_tr cd i s) = BlNormal"
  shows "level s = Recovering \<and> i = DispatchCycle"
  using assms by (cases i; cases "level s"; simp add: level_tr Let_def split: if_splits)

lemma enter_recovering_fresh:
  assumes "level s \<noteq> Recovering" "level (input_tr cd i s) = Recovering"
  shows "healthy_window_count (input_tr cd i s) = 0 \<and> \<not> probe_success (input_tr cd i s)"
  using assms by (cases i; cases "level s"; simp add: level_tr Let_def split: if_splits)

lemma stay_recovering:
  assumes "level s = Recovering" "level (input_tr cd i s) = Recovering"
  shows "\<not> relapse i"
  using assms by (cases i) (simp_all add: level_tr Let_def thresholds split: if_splits)

text \<open>A recovery has a last part that starts on entering the recovering level and has no relapse.\<close>
lemma recovery_split:
  assumes "breaker_ok cd s" "level s \<noteq> BlNormal" "level (run_tr cd is s) = BlNormal"
  shows "\<exists>pre post rest. is = pre @ post @ rest \<and> level (run_tr cd pre s) = Recovering
    \<and> level (run_tr cd (pre @ post) s) = BlNormal \<and> (\<forall>i \<in> set post. \<not> relapse i)
    \<and> (pre = [] \<or> healthy_window_count (run_tr cd pre s) = 0 \<and> \<not> probe_success (run_tr cd pre s))"
  using assms
proof (induction "is" arbitrary: s)
  case (Cons i "is")
  let ?s = "input_tr cd i s"
  show ?case
  proof (cases "level ?s = BlNormal")
    case True
    then have "level s = Recovering" "i = DispatchCycle" using leave_to_normal [OF Cons.prems(2)] by blast+
    then show ?thesis using True by (intro exI [of _ "[]"] exI [of _ "[i]"] exI [of _ "is"]) simp
  next
    case False
    then obtain pre post rest where IH: "is = pre @ post @ rest" "level (run_tr cd pre ?s) = Recovering"
      "level (run_tr cd (pre @ post) ?s) = BlNormal" "\<forall>i \<in> set post. \<not> relapse i"
      "pre = [] \<or> healthy_window_count (run_tr cd pre ?s) = 0 \<and> \<not> probe_success (run_tr cd pre ?s)"
      using Cons.IH [OF input_tr_ok [OF Cons.prems(1)] False] Cons.prems(3) by auto
    show ?thesis
    proof (cases "pre = [] \<and> level s = Recovering")
      case True
      then have "\<not> relapse i" using stay_recovering [of s cd i] IH(2) by simp
      then show ?thesis using True IH by (intro exI [of _ "[]"] exI [of _ "i # post"] exI [of _ rest]) simp
    next
      case False
      then have "healthy_window_count (run_tr cd pre ?s) = 0 \<and> \<not> probe_success (run_tr cd pre ?s)"
        using IH(2,5) enter_recovering_fresh [of s cd i] by auto
      then show ?thesis using IH by (intro exI [of _ "i # pre"] exI [of _ post] exI [of _ rest]) simp
    qed
  qed
qed simp

section \<open>Reaching the normal level again\<close>

definition recovery_inputs :: "u16 \<Rightarrow> u8 \<Rightarrow> BreakerInput list" where
  "recovery_inputs cd p = ExternalSafeRestore # replicate (unat cd) DispatchCycle @ replicate 3 (Watermark p)
     @ concat (replicate 3 [ProbeSuccess, DispatchCycle])"

lemma cycles_cool_down:
  assumes "level s \<noteq> Safe" "unat (cooldown_remaining s) \<le> n"
  shows "level (run_tr cd (replicate n DispatchCycle) s) \<noteq> Safe
    \<and> cooldown_remaining (run_tr cd (replicate n DispatchCycle) s) = 0"
  using assms
proof (induction n arbitrary: s)
  case (Suc n)
  have "level (dispatch_cycle_tr s) \<noteq> Safe" "unat (cooldown_remaining (dispatch_cycle_tr s)) \<le> n"
    using Suc.prems by (auto simp: dispatch_cycle_tr_def Let_def word_less_nat_alt unat_dec unat_eq_0)
  then show ?case using Suc.IH by simp
qed (simp add: unat_eq_0)

definition calm :: "BreakerState \<Rightarrow> nat \<Rightarrow> bool" where
  "calm s k \<longleftrightarrow> cooldown_remaining s = 0
     \<and> (level s \<in> {BlNormal, Recovering} \<or> level s \<in> {BrokenL1, BrokenL2} \<and> k \<le> unat (low_watermark_consec s))"

lemma calm_low_sample:
  assumes "calm s k" "k \<le> 2" "p < kLowWatermarkPct" "breaker_ok cd s"
  shows "calm (watermark_tr cd p s) (Suc k)"
  using assms
  by (cases "level s"; simp add: calm_def watermark_tr_def count_watermark_def Let_def thresholds unat_increment
      word_le_nat_alt word_less_nat_alt breaker_ok_def)

lemma calm_last_sample:
  assumes "calm s 2" "p < kLowWatermarkPct"
  shows "level (watermark_tr cd p s) \<in> {BlNormal, Recovering} \<and> cooldown_remaining (watermark_tr cd p s) = 0"
  using assms
  by (cases "level s"; simp add: calm_def watermark_tr_def count_watermark_def Let_def thresholds unat_increment
      word_le_nat_alt word_less_nat_alt)

lemma low_samples_recover:
  assumes "breaker_ok cd s" "level s \<noteq> Safe" "cooldown_remaining s = 0" "p < kLowWatermarkPct"
  shows "level (run_tr cd (replicate 3 (Watermark p)) s) \<in> {BlNormal, Recovering}
    \<and> cooldown_remaining (run_tr cd (replicate 3 (Watermark p)) s) = 0"
proof -
  let ?s1 = "watermark_tr cd p s"
  have "calm s 0" using assms by (auto simp: calm_def breaker_ok_def)
  from calm_low_sample [OF this _ assms(4,1)] have "calm ?s1 1" by simp
  from calm_low_sample [OF this _ assms(4) watermark_tr_ok [OF assms(1)]]
  have "calm (watermark_tr cd p ?s1) 2" by (simp add: numeral_2_eq_2)
  from calm_last_sample [OF this assms(4)] show ?thesis by (simp add: numeral_3_eq_3)
qed

definition windows :: "BreakerState \<Rightarrow> nat \<Rightarrow> bool" where
  "windows s k \<longleftrightarrow> level s = BlNormal
     \<or> level s = Recovering \<and> cooldown_remaining s = 0 \<and> k \<le> unat (healthy_window_count s)"

lemma windows_step: "windows s k \<Longrightarrow> windows (run_tr cd [ProbeSuccess, DispatchCycle] s) (Suc k)"
  by (auto simp: windows_def probe_success_tr_def dispatch_cycle_tr_def Let_def unat_increment thresholds
      word_le_nat_alt)

lemma recovery_inputs_recover:
  assumes "breaker_ok cd s" "p < kLowWatermarkPct"
  shows "level (run_tr cd (recovery_inputs cd p) s) = BlNormal"
proof -
  let ?w = "[ProbeSuccess, DispatchCycle]"
  define s1 where "s1 = external_safe_restore_tr s"
  define s2 where "s2 = run_tr cd (replicate (unat cd) DispatchCycle) s1"
  define s3 where "s3 = run_tr cd (replicate 3 (Watermark p)) s2"
  define s4 where "s4 = run_tr cd ?w (run_tr cd ?w (run_tr cd ?w s3))"
  have ok: "breaker_ok cd s1" "breaker_ok cd s2" "breaker_ok cd s4"
    using input_tr_ok [OF assms(1), of ExternalSafeRestore] run_tr_ok
    by (simp_all add: s1_def s2_def s3_def s4_def del: run_tr_simps(2))
  have "level s1 \<noteq> Safe" by (auto simp: s1_def external_safe_restore_tr_def)
  then have "level s2 \<noteq> Safe" "cooldown_remaining s2 = 0"
    using cycles_cool_down [of s1 "unat cd" cd] breaker_ok_cooldown [OF ok(1)]
    by (auto simp: s2_def word_le_nat_alt)
  then have "windows s3 0"
    using low_samples_recover [OF ok(2) _ _ assms(2)] by (auto simp: s3_def windows_def)
  from windows_step [OF windows_step [OF windows_step [OF this]]] have "windows s4 3"
    by (simp add: s4_def numeral_3_eq_3)
  then have "level s4 = BlNormal" using ok(3) by (auto simp: windows_def breaker_ok_def)
  moreover have "run_tr cd (recovery_inputs cd p) s = s4"
    by (simp add: recovery_inputs_def run_tr_append s1_def s2_def s3_def s4_def numeral_3_eq_3)
  ultimately show ?thesis by simp
qed

section \<open>Concurrent updates\<close>

lemma update_decides:
  "(case cas_alone (update_decide (cooldown_cycles b)) i (state_word b) of (_, w) \<Rightarrow> b\<lparr>state_word := w\<rparr>) = on_input i b"
  by (simp add: cas_alone_def update_decide_def on_input_update update_def Let_def)

lemma cas_run_refines:
  assumes "breaker_ok cd (unpack w)" "cas_run (update_decide cd) L w = Some v"
  shows "unpack v = run_tr cd (map fst L) (unpack w)"
  using assms
proof (induction L arbitrary: w)
  case (Cons c L)
  let ?w = "pack (input_tr cd (fst c) (unpack w))"
  have ok: "breaker_ok cd (input_tr cd (fst c) (unpack w))" by (rule input_tr_ok [OF Cons.prems(1)])
  then have u: "unpack ?w = input_tr cd (fst c) (unpack w)" using breaker_ok_fits unpack_pack by blast
  have "cas_run (update_decide cd) L ?w = Some v"
    using Cons.prems(2) update_decide_def [of cd "fst c" w]
    by (cases c) (auto simp: cas_alone_def Let_def split: if_splits)
  then show ?case using Cons.IH [of ?w] ok u by simp
qed simp

section \<open>Properties\<close>

text \<open>
  Every input keeps the breaker's packed word and its logical state in step: the word
  after an input unpacks to the transition of the unpacked word, no field ever spills into
  its neighbour, and the invariant of the levels (enumerator values only, cooldown within
  its configured length, deciding counters below their thresholds, healthy windows and
  probes only while recovering) is kept. A new breaker satisfies it.
\<close>
lemma breaker_inputs_keep_invariant:
  "breaker_inv (breaker_new cfg) \<and>
   (breaker_inv b \<longrightarrow> unpack (state_word (on_input i b)) = input_tr (cooldown_cycles b) i (unpack (state_word b))
      \<and> breaker_inv (on_input i b))"
  using breaker_new_inv on_input_refines by blast

text \<open>
  Packing is lossless: a state whose counters are at most 3 and whose level has a value
  below 8 is recovered from its word, and a word that uses only its 30 assigned bits is
  recovered from its state.
\<close>
lemma pack_roundtrip:
  "(level s \<in> {BlNormal, BrokenL1, BrokenL2, Safe, Recovering} \<and> fits s \<longrightarrow> unpack (pack s) = s)
   \<and> (unat w < 2 ^ 30 \<longrightarrow> pack (unpack w) = w)"
  using unpack_pack [of s] pack_unpack [of w] by (auto simp: level_of_raw_def)

text \<open>
  C29. Recovery is never skipped: a breaker that is broken or safe and later admits direct
  dispatch again has, in between, counted down its remaining cooldown in dispatch cycles and
  gone through a phase that starts on entering the recovering level, contains at least three
  successful probes and three dispatch cycles, and no timeout, overflow, probe failure,
  exhausted reserve or watermark sample of 50 percent or more.
\<close>
theorem recovery_is_never_skipped:
  assumes "breaker_inv b" and "breaker_level b \<in> {BrokenL1, BrokenL2, Safe}"
    and "direct_allowed ao (run_inputs is b)"
  shows "unat (cooldown_remaining (unpack (state_word b))) \<le> count_list is DispatchCycle
    \<and> (\<exists>pre post rest. is = pre @ post @ rest \<and> breaker_level (run_inputs pre b) = Recovering
        \<and> 3 \<le> count_list post ProbeSuccess \<and> 3 \<le> count_list post DispatchCycle
        \<and> (\<forall>i \<in> set post. \<not> relapse i))"
proof -
  let ?cd = "cooldown_cycles b" and ?s = "unpack (state_word b)"
  have ok: "breaker_ok ?cd ?s" and lv: "level ?s \<in> {BrokenL1, BrokenL2, Safe}"
    using assms(1,2) by (simp_all add: breaker_inv_def breaker_level_def)
  have run: "level (run_tr ?cd is ?s) = BlNormal"
    using assms(3) run_inputs_refines [OF assms(1)] by (simp add: direct_allowed_def breaker_level_def split: if_splits)
  obtain pre post rest where S: "is = pre @ post @ rest" "level (run_tr ?cd pre ?s) = Recovering"
      "level (run_tr ?cd (pre @ post) ?s) = BlNormal" "\<forall>i \<in> set post. \<not> relapse i"
      "pre = [] \<or> healthy_window_count (run_tr ?cd pre ?s) = 0 \<and> \<not> probe_success (run_tr ?cd pre ?s)"
    using recovery_split [OF ok _ run] lv by auto
  moreover have "pre \<noteq> []" using S(2) lv by auto
  ultimately have "need_probes (run_tr ?cd pre ?s) = 3" "3 \<le> need_cycles (run_tr ?cd pre ?s)"
    by (simp_all add: need_probes_def need_cycles_def)
  moreover have "need_probes (run_tr ?cd (pre @ post) ?s) = 0" "need_cycles (run_tr ?cd (pre @ post) ?s) = 0"
    using S(3) by (simp_all add: need_probes_def need_cycles_def)
  ultimately have "3 \<le> count_list post ProbeSuccess" "3 \<le> count_list post DispatchCycle"
    using need_run [OF run_tr_ok [OF ok], of pre post] by (auto simp: run_tr_append)
  moreover have "unat (cooldown_remaining ?s) \<le> need_cycles ?s" using lv by (auto simp: need_cycles_def)
  then have "unat (cooldown_remaining ?s) \<le> count_list is DispatchCycle"
    using need_run [OF ok, of "is"] run by (simp add: need_cycles_def)
  moreover have "breaker_level (run_inputs pre b) = Recovering"
    using S(2) run_inputs_refines [OF assms(1), of pre] by (simp add: breaker_level_def)
  ultimately show ?thesis using S(1,4) by blast
qed

text \<open>
  C31. Recovery is always possible: from every reachable state the external restore, one
  dispatch cycle per cooldown cycle, three low watermark samples and three rounds of a
  successful probe and a dispatch cycle bring the breaker back to the normal level.
\<close>
theorem recovery_always_possible:
  assumes "breaker_inv b" and "p < 50"
  shows "breaker_level (run_inputs (recovery_inputs (cooldown_cycles b) p) b) = BlNormal"
  using recovery_inputs_recover [of "cooldown_cycles b" "unpack (state_word b)" p] assms
    run_inputs_refines [OF assms(1)]
  by (simp add: breaker_inv_def breaker_level_def kLowWatermarkPct_def)

theorem recovery_always_possible_witness:
  "breaker_level (run_inputs (recovery_inputs 100 10) (on_overflow (breaker_new DefaultConfig))) = BlNormal
   \<and> breaker_level (on_overflow (breaker_new DefaultConfig)) = BrokenL2"
proof -
  let ?b = "on_overflow (breaker_new DefaultConfig)"
  have "breaker_inv ?b" "cooldown_cycles ?b = 100"
    using on_input_refines [OF breaker_new_inv, of Overflow DefaultConfig]
    by (simp_all add: breaker_new_def DefaultConfig_def)
  moreover have "breaker_level ?b = BrokenL2" by code_simp
  ultimately show ?thesis using recovery_always_possible [of ?b 10] by simp
qed

theorem recovery_is_never_skipped_witness:
  "3 \<le> count_list (recovery_inputs 100 10) ProbeSuccess
   \<and> (\<exists>pre post rest. recovery_inputs 100 10 = pre @ post @ rest
        \<and> breaker_level (run_inputs pre (on_overflow (breaker_new DefaultConfig))) = Recovering
        \<and> 3 \<le> count_list post ProbeSuccess)"
proof -
  let ?b = "on_overflow (breaker_new DefaultConfig)"
  have I: "breaker_inv ?b" "cooldown_cycles ?b = 100"
    using on_input_refines [OF breaker_new_inv, of Overflow DefaultConfig]
    by (simp_all add: breaker_new_def DefaultConfig_def)
  have "breaker_level ?b = BrokenL2" by code_simp
  moreover have "level (run_tr 100 (recovery_inputs 100 10) (unpack (state_word ?b))) = BlNormal"
    using I by (intro recovery_inputs_recover) (simp_all add: breaker_inv_def kLowWatermarkPct_def)
  then have "direct_allowed 1 (run_inputs (recovery_inputs 100 10) ?b)"
    using run_inputs_refines [OF I(1)] I(2) by (simp add: direct_allowed_def kInvalidTarget_def breaker_level_def)
  moreover have "3 \<le> count_list (recovery_inputs 100 10) ProbeSuccess" by code_simp
  ultimately show ?thesis
    using recovery_is_never_skipped [OF I(1), of 1 "recovery_inputs 100 10"] by blast
qed

text \<open>
  C30. Concurrent inputs are not lost: whatever the interleaving of any number of threads in
  the retry loop of \<^verbatim>\<open>update\<close>, spurious exchange failures included, the shared word is the
  result of applying the inputs of all calls that have returned, each exactly once, one
  after the other in some order.
\<close>
theorem concurrent_updates_linearise:
  assumes "(cas_step (update_decide cd))\<^sup>*\<^sup>* (cas_start w) u" and "breaker_ok cd (unpack w)"
  shows "\<exists>is. mset is = mset (map fst (cas_returned u)) \<and> unpack (cas_word u) = run_tr cd is (unpack w)"
proof -
  obtain L where L: "mset L = mset (cas_returned u)" "cas_run (update_decide cd) L w = Some (cas_word u)"
    using cas_linearises [OF assms(1)] by blast
  then have "mset (map fst L) = mset (map fst (cas_returned u))" by simp
  then show ?thesis using cas_run_refines [OF assms(2) L(2)] by blast
qed

text \<open>Two overflow inputs: the second thread loads the word the first exchanges, then retries.\<close>
theorem concurrent_updates_linearise_witness:
  "\<exists>(u :: (BreakerInput, u32) CasSystem) is. (cas_step (update_decide 5))\<^sup>*\<^sup>* (cas_start 0) u
     \<and> cas_returned u = [(Overflow, True), (Overflow, False)]
     \<and> mset is = {#Overflow, Overflow#} \<and> unpack (cas_word u) = run_tr 5 is (unpack 0)"
proof -
  let ?f = "update_decide 5"
  define d where "d = pack (overflow_tr 5 (unpack 0))"
  have d: "?f Overflow 0 = Some d" "?f Overflow d = None" unfolding d_def by code_simp+
  define sys where "sys w a b rs = \<lparr>cas_word = w, cas_pc = (\<lambda>t. CasIdle)(0 := a, 1 := b), cas_returned = rs\<rparr>"
    for w :: u32 and a b and rs :: "(BreakerInput \<times> bool) list"
  have start: "cas_start 0 = sys 0 CasIdle CasIdle []"
    by (simp add: sys_def cas_start_def fun_eq_iff)
  have "cas_step ?f (sys 0 CasIdle CasIdle []) (sys 0 (CasLoaded Overflow 0) CasIdle [])"
    using cas_load [of "sys 0 CasIdle CasIdle []" 0 ?f Overflow] by (simp add: sys_def fun_upd_twist)
  moreover have "cas_step ?f (sys 0 (CasLoaded Overflow 0) CasIdle []) (sys 0 (CasLoaded Overflow 0) (CasLoaded Overflow 0) [])"
    using cas_load [of "sys 0 (CasLoaded Overflow 0) CasIdle []" 1 ?f Overflow] by (simp add: sys_def)
  moreover have "cas_step ?f (sys 0 (CasLoaded Overflow 0) (CasLoaded Overflow 0) []) (sys d CasIdle (CasLoaded Overflow 0) [(Overflow, True)])"
    using d cas_exchange [of "sys 0 (CasLoaded Overflow 0) (CasLoaded Overflow 0) []" 0 Overflow 0 ?f d]
    by (simp add: sys_def fun_upd_twist)
  moreover have "cas_step ?f (sys d CasIdle (CasLoaded Overflow 0) [(Overflow, True)]) (sys d CasIdle (CasLoaded Overflow d) [(Overflow, True)])"
    using d cas_retry [of "sys d CasIdle (CasLoaded Overflow 0) [(Overflow, True)]" 1 Overflow 0 ?f] by (simp add: sys_def)
  moreover have "cas_step ?f (sys d CasIdle (CasLoaded Overflow d) [(Overflow, True)]) (sys d CasIdle CasIdle [(Overflow, True), (Overflow, False)])"
    using d cas_give_up [of "sys d CasIdle (CasLoaded Overflow d) [(Overflow, True)]" 1 Overflow d ?f] by (simp add: sys_def)
  ultimately have run: "(cas_step ?f)\<^sup>*\<^sup>* (cas_start 0) (sys d CasIdle CasIdle [(Overflow, True), (Overflow, False)])"
    unfolding start by (meson converse_rtranclp_into_rtranclp rtranclp.rtrancl_refl)
  have "breaker_ok 5 (unpack 0)" by code_simp
  with run have "\<exists>is. mset is = mset (map fst (cas_returned (sys d CasIdle CasIdle [(Overflow, True), (Overflow, False)])))
      \<and> unpack (cas_word (sys d CasIdle CasIdle [(Overflow, True), (Overflow, False)])) = run_tr 5 is (unpack 0)"
    by (rule concurrent_updates_linearise)
  then show ?thesis using run
    by (intro exI [of _ "sys d CasIdle CasIdle [(Overflow, True), (Overflow, False)]"]) (simp add: sys_def)
qed

text \<open>
  Breakers are isolated: a target-scoped input never aborts, leaves the breakers of all
  other targets as they are, applies the input to the breaker of a valid target and does
  nothing for an invalid one, which reads as safe, refuses direct dispatch and drops
  non-critical input.
\<close>
lemma bank_targets_isolated:
  "\<exists>bank'. bank_apply (on_input i) target bank = Some bank'
     \<and> (\<forall>t. t \<noteq> target \<longrightarrow> target_breaker bank' t = target_breaker bank t)
     \<and> target_breaker bank' target = map_option (on_input i) (target_breaker bank target)
     \<and> (\<not> bank_valid bank target \<longrightarrow> bank' = bank \<and> bank_level bank target = Some Safe
          \<and> bank_direct_allowed bank target = Some False \<and> bank_drop_non_critical bank target = Some True
          \<and> bank_safe_events_only bank target = Some True)"
proof (cases "bank_valid bank target")
  case True
  have pos: "0 < unat t" if "bank_valid bank t" for t
    using that by (simp add: bank_valid_def kInvalidTarget_def unat_gt_0)
  have inj: "unat (t - 1) \<noteq> unat (target - 1)" if "t \<noteq> target" for t using that by (simp add: word_unat_eq_iff [symmetric])
  have lt: "unat (target - 1) < length (breakers bank)"
    using True pos [OF True] by (auto simp: bank_valid_def unat_dec)
  then show ?thesis using True inj
    by (auto simp: bank_apply_def bank_index_def target_breaker_def bank_valid_def coact_assert_def)
      (metis nth_list_update_neq)
next
  case False
  then show ?thesis
    by (simp add: bank_apply_def bank_level_def bank_direct_allowed_def bank_drop_non_critical_def
        bank_safe_events_only_def target_breaker_def bank_index_def)
qed

end
