(* ===== verification/Monitor.thy ===== *)
theory Monitor
  imports Breaker
begin

unbundle bit_operations_syntax

text \<open>
  The counters and the admission snapshot ring of monitor.hpp.

  \<^item> Every counter is an atomic that wraps at its width; a relaxed increment is a sum of words.
  \<^item> The snapshot ring is modelled twice from the same pieces: \<^verbatim>\<open>snapshot_record\<close> and
    \<^verbatim>\<open>snapshot_lookup\<close> run without interference, and \<^verbatim>\<open>snap_step\<close> interleaves any number of writers
    and readers at the level of single atomic accesses, each thread in source order and all
    in one total order. \<^verbatim>\<open>Snapshot_Orders\<close> has the reorderings that the code's memory orders
    allow.
  \<^item> \<^verbatim>\<open>size_t\<close> has 64 bits, so that the cast in the slot index keeps the sequence number.
\<close>

section \<open>Data\<close>

datatype RejectReason =
    kC1Eligibility | kC2Priority | kC3Nesting | kC4Watermark | kC5LeaseBusy | kC6Pending | kC7Context
  | kC8ArrivalInterval | kC9BacklogCap | kRejectCount

fun reject_index :: "RejectReason \<Rightarrow> nat" where
  "reject_index kC1Eligibility = 0"
| "reject_index kC2Priority = 1"
| "reject_index kC3Nesting = 2"
| "reject_index kC4Watermark = 3"
| "reject_index kC5LeaseBusy = 4"
| "reject_index kC6Pending = 5"
| "reject_index kC7Context = 6"
| "reject_index kC8ArrivalInterval = 7"
| "reject_index kC9BacklogCap = 8"
| "reject_index kRejectCount = 9"

record AoCounters =
  direct_duration_ns :: u64
  dispatcher_duration_ns :: u64
  direct_timeouts :: u32
  rtc_timeouts :: u32
  rejections :: "u32 list"
  lease_contention :: u32
  ao_pending :: u16
  ao_pending_max :: u16

definition ao_counters_zero :: AoCounters where
  "ao_counters_zero = \<lparr>direct_duration_ns = 0, dispatcher_duration_ns = 0, direct_timeouts = 0, rtc_timeouts = 0,
     rejections = replicate (reject_index kRejectCount) 0, lease_contention = 0, ao_pending = 0, ao_pending_max = 0\<rparr>"

record GlobalCounters =
  watermark_pct :: "u8 list"
  high_water_count :: "u32 list"
  full_count :: "u32 list"
  disposition_filter :: u32
  disposition_merge :: u32
  disposition_rate_limit :: u32
  disposition_overload :: u32
  overflow_count :: u32
  watchdog_heartbeats :: u32
  platform_faults :: u32
  global_pending_max :: u16

definition global_counters_zero :: GlobalCounters where
  "global_counters_zero = \<lparr>watermark_pct = replicate 3 0, high_water_count = replicate 3 0,
     full_count = replicate 3 0, disposition_filter = 0, disposition_merge = 0, disposition_rate_limit = 0,
     disposition_overload = 0, overflow_count = 0, watchdog_heartbeats = 0, platform_faults = 0,
     global_pending_max = 0\<rparr>"

record AdmissionSnapshot =
  sn_target :: u8
  sn_disposition :: u8
  sn_reason :: u16
  sn_seq :: u64
  sn_now_ns :: u64
  sn_budget_ns :: u64

datatype SnapshotError = kEmpty | kOutOfRange | kEvicted | kTorn | kDisabled

record SnapSlot =
  sl_target :: u8
  sl_disposition :: u8
  sl_reason :: u16
  sl_seq :: u64
  sl_now_ns :: u64
  sl_budget_ns :: u64
  sl_writing :: bool

definition snap_slot_zero :: SnapSlot where
  "snap_slot_zero = \<lparr>sl_target = 0, sl_disposition = 0, sl_reason = 0, sl_seq = 0, sl_now_ns = 0,
     sl_budget_ns = 0, sl_writing = False\<rparr>"

record AdmissionSnapshotRing =
  snap_slots :: "SnapSlot list"
  snap_count :: u64
  snap_dropped :: u32

definition snap_ring_new :: "u8 \<Rightarrow> AdmissionSnapshotRing" where
  "snap_ring_new n = \<lparr>snap_slots = replicate (unat n) snap_slot_zero, snap_count = 0, snap_dropped = 0\<rparr>"

fun disposition_raw :: "SubmitDisposition \<Rightarrow> u8" where
  "disposition_raw Direct = 0"
| "disposition_raw Queued = 1"
| "disposition_raw Merged = 2"
| "disposition_raw DroppedPolicy = 3"
| "disposition_raw DroppedRateLimit = 4"
| "disposition_raw DroppedOverload = 5"
| "disposition_raw RejectedFull = 6"
| "disposition_raw RejectedState = 7"

section \<open>The snapshot ring\<close>

text \<open>The field stores of record, in source order, and the field loads of lookup.\<close>
definition store_field :: "nat \<Rightarrow> AdmissionSnapshot \<Rightarrow> SnapSlot \<Rightarrow> SnapSlot" where
  "store_field k a s =
     (if k = 0 then s\<lparr>sl_target := sn_target a\<rparr>
      else if k = 1 then s\<lparr>sl_disposition := sn_disposition a\<rparr>
      else if k = 2 then s\<lparr>sl_reason := sn_reason a\<rparr>
      else if k = 3 then s\<lparr>sl_now_ns := sn_now_ns a\<rparr>
      else s\<lparr>sl_budget_ns := sn_budget_ns a\<rparr>)"

definition load_field :: "nat \<Rightarrow> SnapSlot \<Rightarrow> AdmissionSnapshot \<Rightarrow> AdmissionSnapshot" where
  "load_field k s a =
     (if k = 0 then a\<lparr>sn_target := sl_target s\<rparr>
      else if k = 1 then a\<lparr>sn_disposition := sl_disposition s\<rparr>
      else if k = 2 then a\<lparr>sn_reason := sl_reason s\<rparr>
      else if k = 3 then a\<lparr>sn_now_ns := sl_now_ns s\<rparr>
      else a\<lparr>sn_budget_ns := sl_budget_ns s\<rparr>)"

definition snap_index :: "AdmissionSnapshotRing \<Rightarrow> u64 \<Rightarrow> nat" where
  "snap_index r seq = unat (seq - 1) mod length (snap_slots r)"

definition upd_slot :: "AdmissionSnapshotRing \<Rightarrow> u64 \<Rightarrow> (SnapSlot \<Rightarrow> SnapSlot) \<Rightarrow> AdmissionSnapshotRing" where
  "upd_slot r seq f = r\<lparr>snap_slots := (snap_slots r)[snap_index r seq := f (snap_slots r ! snap_index r seq)]\<rparr>"

definition published :: "u64 \<Rightarrow> u64" where
  "published seq = push_bit 1 seq"

definition snapshot_record :: "AdmissionSnapshot \<Rightarrow> AdmissionSnapshotRing \<Rightarrow> AdmissionSnapshotRing" where
  "snapshot_record a r0 =
     (let seq = snap_count r0 + 1;
          r = r0\<lparr>snap_count := seq\<rparr>
      in if sl_writing (snap_slots r ! snap_index r seq) then r\<lparr>snap_dropped := snap_dropped r + 1\<rparr>
         else
           let r1 = upd_slot r seq (\<lambda>s. s\<lparr>sl_writing := True\<rparr>);
               r2 = upd_slot r1 seq (\<lambda>s. s\<lparr>sl_seq := published seq OR 1\<rparr>);
               r3 = fold (\<lambda>k r. upd_slot r seq (store_field k a)) [0..<5] r2;
               r4 = upd_slot r3 seq (\<lambda>s. s\<lparr>sl_seq := published seq\<rparr>)
           in upd_slot r4 seq (\<lambda>s. s\<lparr>sl_writing := False\<rparr>))"

definition snap_out :: "u64 \<Rightarrow> AdmissionSnapshot" where
  "snap_out seq = \<lparr>sn_target = 0, sn_disposition = 0, sn_reason = 0, sn_seq = seq, sn_now_ns = 0, sn_budget_ns = 0\<rparr>"

text \<open>The range checks of lookup, in terms of the count it has loaded.\<close>
definition lookup_range :: "nat \<Rightarrow> u64 \<Rightarrow> u64 \<Rightarrow> SnapshotError option" where
  "lookup_range n tot seq =
     (if 0 = tot then Some kEmpty
      else if 0 = seq \<or> seq > tot then Some kOutOfRange
      else if unat (tot - seq) \<ge> n then Some kEvicted
      else None)"

definition snapshot_lookup :: "u64 \<Rightarrow> AdmissionSnapshotRing \<Rightarrow> SnapshotError + AdmissionSnapshot" where
  "snapshot_lookup seq r =
     (case lookup_range (length (snap_slots r)) (snap_count r) seq of
        Some e \<Rightarrow> Inl e
      | None \<Rightarrow>
          let s = snap_slots r ! snap_index r seq
          in if sl_seq s \<noteq> published seq then Inl kTorn
             else let out = fold (\<lambda>k a. load_field k s a) [0..<5] (snap_out seq)
                  in if sl_seq s \<noteq> published seq then Inl kTorn else Inr out)"

text \<open>
  Writers and readers as threads. A writer has its sequence number and record, and after
  the flag is taken goes through the odd store, the five field stores, the even store and
  the release of the flag. A reader has passed the range checks, and loads the slot's
  sequence, the five fields and the sequence again. \<^verbatim>\<open>calls\<close> lists the records in the order of
  their sequence numbers and \<^verbatim>\<open>results\<close> what lookups have returned.
\<close>
datatype SnapPc =
    SIdle
  | WFetched u64 AdmissionSnapshot
  | WOwner u64 AdmissionSnapshot
  | WFields u64 AdmissionSnapshot nat
  | WDone u64 AdmissionSnapshot
  | RStart u64
  | RFields u64 AdmissionSnapshot nat

record SnapSystem =
  snap_ring :: AdmissionSnapshotRing
  snap_pc :: "nat \<Rightarrow> SnapPc"
  snap_calls :: "AdmissionSnapshot list"
  snap_results :: "(u64 \<times> (SnapshotError + AdmissionSnapshot)) list"

abbreviation slot_of :: "SnapSystem \<Rightarrow> u64 \<Rightarrow> SnapSlot" where
  "slot_of y seq \<equiv> snap_slots (snap_ring y) ! snap_index (snap_ring y) seq"

abbreviation goto :: "SnapSystem \<Rightarrow> nat \<Rightarrow> SnapPc \<Rightarrow> SnapSystem" where
  "goto y t p \<equiv> y\<lparr>snap_pc := (snap_pc y)(t := p)\<rparr>"

abbreviation return_lookup :: "SnapSystem \<Rightarrow> nat \<Rightarrow> u64 \<Rightarrow> SnapshotError + AdmissionSnapshot \<Rightarrow> SnapSystem" where
  "return_lookup y t seq res \<equiv> (goto y t SIdle)\<lparr>snap_results := snap_results y @ [(seq, res)]\<rparr>"

inductive snap_step :: "SnapSystem \<Rightarrow> SnapSystem \<Rightarrow> bool" where
  w_fetch: "snap_pc y t = SIdle \<Longrightarrow> seq = snap_count (snap_ring y) + 1 \<Longrightarrow>
     snap_step y ((goto y t (WFetched seq a))\<lparr>snap_ring := (snap_ring y)\<lparr>snap_count := seq\<rparr>,
       snap_calls := snap_calls y @ [a]\<rparr>)"
| w_drop: "snap_pc y t = WFetched seq a \<Longrightarrow> sl_writing (slot_of y seq) \<Longrightarrow>
     snap_step y ((goto y t SIdle)\<lparr>snap_ring := (snap_ring y)\<lparr>snap_dropped := snap_dropped (snap_ring y) + 1\<rparr>\<rparr>)"
| w_claim: "snap_pc y t = WFetched seq a \<Longrightarrow> \<not> sl_writing (slot_of y seq) \<Longrightarrow>
     snap_step y ((goto y t (WOwner seq a))\<lparr>snap_ring := upd_slot (snap_ring y) seq (\<lambda>s. s\<lparr>sl_writing := True\<rparr>)\<rparr>)"
| w_odd: "snap_pc y t = WOwner seq a \<Longrightarrow>
     snap_step y ((goto y t (WFields seq a 0))\<lparr>snap_ring := upd_slot (snap_ring y) seq (\<lambda>s. s\<lparr>sl_seq := published seq OR 1\<rparr>)\<rparr>)"
| w_field: "snap_pc y t = WFields seq a k \<Longrightarrow> k < 5 \<Longrightarrow>
     snap_step y ((goto y t (WFields seq a (Suc k)))\<lparr>snap_ring := upd_slot (snap_ring y) seq (store_field k a)\<rparr>)"
| w_even: "snap_pc y t = WFields seq a 5 \<Longrightarrow>
     snap_step y ((goto y t (WDone seq a))\<lparr>snap_ring := upd_slot (snap_ring y) seq (\<lambda>s. s\<lparr>sl_seq := published seq\<rparr>)\<rparr>)"
| w_clear: "snap_pc y t = WDone seq a \<Longrightarrow>
     snap_step y ((goto y t SIdle)\<lparr>snap_ring := upd_slot (snap_ring y) seq (\<lambda>s. s\<lparr>sl_writing := False\<rparr>)\<rparr>)"
| r_refuse: "snap_pc y t = SIdle \<Longrightarrow>
     lookup_range (length (snap_slots (snap_ring y))) (snap_count (snap_ring y)) seq = Some e \<Longrightarrow>
     snap_step y (return_lookup y t seq (Inl e))"
| r_start: "snap_pc y t = SIdle \<Longrightarrow>
     lookup_range (length (snap_slots (snap_ring y))) (snap_count (snap_ring y)) seq = None \<Longrightarrow>
     snap_step y (goto y t (RStart seq))"
| r_torn: "snap_pc y t = RStart seq \<Longrightarrow> sl_seq (slot_of y seq) \<noteq> published seq \<Longrightarrow>
     snap_step y (return_lookup y t seq (Inl kTorn))"
| r_enter: "snap_pc y t = RStart seq \<Longrightarrow> sl_seq (slot_of y seq) = published seq \<Longrightarrow>
     snap_step y (goto y t (RFields seq (snap_out seq) 0))"
| r_field: "snap_pc y t = RFields seq out k \<Longrightarrow> k < 5 \<Longrightarrow>
     snap_step y (goto y t (RFields seq (load_field k (slot_of y seq) out) (Suc k)))"
| r_reused: "snap_pc y t = RFields seq out 5 \<Longrightarrow> sl_seq (slot_of y seq) \<noteq> published seq \<Longrightarrow>
     snap_step y (return_lookup y t seq (Inl kTorn))"
| r_success: "snap_pc y t = RFields seq out 5 \<Longrightarrow> sl_seq (slot_of y seq) = published seq \<Longrightarrow>
     snap_step y (return_lookup y t seq (Inr out))"

section \<open>The monitor\<close>

record Monitor =
  mon_ao :: "AoCounters list"
  mon_global :: GlobalCounters
  mon_snapshots :: AdmissionSnapshotRing

text \<open>The ring of depth 0 has no storage: it records nothing and every lookup is refused.\<close>
definition monitor_new :: "Config \<Rightarrow> u8 \<Rightarrow> Monitor" where
  "monitor_new cfg n = \<lparr>mon_ao = replicate (unat (kMaxAo cfg) + 1) ao_counters_zero,
     mon_global = global_counters_zero, mon_snapshots = snap_ring_new n\<rparr>"

definition mon_slot :: "Monitor \<Rightarrow> TargetId \<Rightarrow> nat option" where
  "mon_slot m ao = (if kInvalidTarget = ao \<or> unat ao > length (mon_ao m) - 1 then None else Some (unat ao))"

fun partition_index :: "PriorityClass \<Rightarrow> nat" where
  "partition_index High = 0"
| "partition_index Normal = 1"
| "partition_index Low = 2"

definition upd_ao :: "Monitor \<Rightarrow> TargetId \<Rightarrow> (AoCounters \<Rightarrow> AoCounters) \<Rightarrow> Monitor" where
  "upd_ao m ao f = (case mon_slot m ao of None \<Rightarrow> m | Some i \<Rightarrow> m\<lparr>mon_ao := (mon_ao m)[i := f (mon_ao m ! i)]\<rparr>)"

definition add_direct_duration :: "TargetId \<Rightarrow> u64 \<Rightarrow> Monitor \<Rightarrow> Monitor" where
  "add_direct_duration ao ns m = upd_ao m ao (\<lambda>s. s\<lparr>direct_duration_ns := direct_duration_ns s + ns\<rparr>)"

definition add_dispatcher_duration :: "TargetId \<Rightarrow> u64 \<Rightarrow> Monitor \<Rightarrow> Monitor" where
  "add_dispatcher_duration ao ns m = upd_ao m ao (\<lambda>s. s\<lparr>dispatcher_duration_ns := dispatcher_duration_ns s + ns\<rparr>)"

definition record_direct_timeout :: "TargetId \<Rightarrow> Monitor \<Rightarrow> Monitor" where
  "record_direct_timeout ao m = upd_ao m ao (\<lambda>s. s\<lparr>direct_timeouts := direct_timeouts s + 1\<rparr>)"

definition record_rtc_timeout :: "TargetId \<Rightarrow> Monitor \<Rightarrow> Monitor" where
  "record_rtc_timeout ao m = upd_ao m ao (\<lambda>s. s\<lparr>rtc_timeouts := rtc_timeouts s + 1\<rparr>)"

definition record_rejection :: "TargetId \<Rightarrow> RejectReason \<Rightarrow> Monitor \<Rightarrow> Monitor" where
  "record_rejection ao rr m =
     (if reject_index rr \<ge> reject_index kRejectCount then m
      else upd_ao m ao (\<lambda>s. s\<lparr>rejections := (rejections s)[reject_index rr := rejections s ! reject_index rr + 1]\<rparr>))"

definition record_lease_contention :: "TargetId \<Rightarrow> Monitor \<Rightarrow> Monitor" where
  "record_lease_contention ao m = upd_ao m ao (\<lambda>s. s\<lparr>lease_contention := lease_contention s + 1\<rparr>)"

definition record_pending :: "TargetId \<Rightarrow> u16 \<Rightarrow> Monitor \<Rightarrow> Monitor" where
  "record_pending ao pend m =
     (case mon_slot m ao of
        None \<Rightarrow> m
      | Some i \<Rightarrow>
          let m1 = upd_ao m ao (\<lambda>s. s\<lparr>ao_pending := pend\<rparr>);
              m2 = (if pend > ao_pending_max (mon_ao m1 ! i)
                    then upd_ao m1 ao (\<lambda>s. s\<lparr>ao_pending_max := pend\<rparr>) else m1)
          in if pend > global_pending_max (mon_global m2)
             then m2\<lparr>mon_global := (mon_global m2)\<lparr>global_pending_max := pend\<rparr>\<rparr> else m2)"

definition kHighWatermarkPct :: u8 where "kHighWatermarkPct = 80"
definition kFullWatermarkPct :: u8 where "kFullWatermarkPct = 100"

definition sample_watermark :: "PriorityClass \<Rightarrow> u8 \<Rightarrow> Monitor \<Rightarrow> Monitor" where
  "sample_watermark p pct m =
     (let idx = partition_index p; g = mon_global m;
          g1 = g\<lparr>watermark_pct := (watermark_pct g)[idx := pct]\<rparr>;
          g2 = (if pct \<ge> kHighWatermarkPct
                then g1\<lparr>high_water_count := (high_water_count g1)[idx := high_water_count g1 ! idx + 1]\<rparr> else g1);
          g3 = (if pct \<ge> kFullWatermarkPct
                then g2\<lparr>full_count := (full_count g2)[idx := full_count g2 ! idx + 1]\<rparr> else g2)
      in m\<lparr>mon_global := g3\<rparr>)"

definition upd_global :: "Monitor \<Rightarrow> (GlobalCounters \<Rightarrow> GlobalCounters) \<Rightarrow> Monitor" where
  "upd_global m f = m\<lparr>mon_global := f (mon_global m)\<rparr>"

definition record_overflow :: "Monitor \<Rightarrow> Monitor" where
  "record_overflow m = upd_global m (\<lambda>g. g\<lparr>overflow_count := overflow_count g + 1\<rparr>)"

fun record_disposition :: "SubmitDisposition \<Rightarrow> Monitor \<Rightarrow> Monitor" where
  "record_disposition Merged m = upd_global m (\<lambda>g. g\<lparr>disposition_merge := disposition_merge g + 1\<rparr>)"
| "record_disposition DroppedPolicy m = upd_global m (\<lambda>g. g\<lparr>disposition_filter := disposition_filter g + 1\<rparr>)"
| "record_disposition DroppedRateLimit m = upd_global m (\<lambda>g. g\<lparr>disposition_rate_limit := disposition_rate_limit g + 1\<rparr>)"
| "record_disposition DroppedOverload m = upd_global m (\<lambda>g. g\<lparr>disposition_overload := disposition_overload g + 1\<rparr>)"
| "record_disposition _ m = m"

definition record_heartbeat :: "Monitor \<Rightarrow> Monitor" where
  "record_heartbeat m = upd_global m (\<lambda>g. g\<lparr>watchdog_heartbeats := watchdog_heartbeats g + 1\<rparr>)"

definition record_platform_fault :: "Monitor \<Rightarrow> Monitor" where
  "record_platform_fault m = upd_global m (\<lambda>g. g\<lparr>platform_faults := platform_faults g + 1\<rparr>)"

definition record_admission_snapshot ::
    "TargetId \<Rightarrow> SubmitDisposition \<Rightarrow> u16 \<Rightarrow> u64 \<Rightarrow> u64 \<Rightarrow> Monitor \<Rightarrow> Monitor" where
  "record_admission_snapshot target d why now_ns budget_ns m =
     (if snap_slots (mon_snapshots m) = [] then m
      else m\<lparr>mon_snapshots := snapshot_record \<lparr>sn_target = target, sn_disposition = disposition_raw d,
        sn_reason = why, sn_seq = snap_count (mon_snapshots m) + 1, sn_now_ns = now_ns, sn_budget_ns = budget_ns\<rparr>
        (mon_snapshots m)\<rparr>)"

definition admission_snapshot_count :: "Monitor \<Rightarrow> u64" where
  "admission_snapshot_count m = snap_count (mon_snapshots m)"

definition admission_snapshot_dropped :: "Monitor \<Rightarrow> u32" where
  "admission_snapshot_dropped m = snap_dropped (mon_snapshots m)"

definition admission_snapshot :: "u64 \<Rightarrow> Monitor \<Rightarrow> SnapshotError + AdmissionSnapshot" where
  "admission_snapshot seq m =
     (if snap_slots (mon_snapshots m) = [] then Inl kDisabled else snapshot_lookup seq (mon_snapshots m))"

definition ao_counters :: "TargetId \<Rightarrow> Monitor \<Rightarrow> AoCounters" where
  "ao_counters ao m = (case mon_slot m ao of None \<Rightarrow> mon_ao m ! 0 | Some i \<Rightarrow> mon_ao m ! i)"

end
