(* ===== verification/Monitor_Properties.thy ===== *)
theory Monitor_Properties
  imports Monitor
begin

unbundle bit_operations_syntax

text \<open>
  Properties of the admission snapshot ring and of the monitor's counters. The central
  one is that a lookup running beside any number of writers returns either an error or
  exactly one record as it was handed to \<^verbatim>\<open>record\<close>, provided every thread makes its accesses in
  source order; \<^verbatim>\<open>Snapshot_Orders\<close> shows that the code does not ask for this order.
\<close>

section \<open>Sequence words\<close>

lemma unat_published: "unat q < 2 ^ 63 \<Longrightarrow> unat (published q) = 2 * unat q"
proof -
  assume a: "unat q < 2 ^ 63"
  have "published q = q * 2" by (simp add: published_def push_bit_eq_mult)
  moreover have "unat q * 2 < 2 ^ 64" using a by simp
  ultimately show ?thesis by (simp add: unat_word_ariths)
qed

lemma published_inj: "\<lbrakk>unat q < 2 ^ 63; unat q' < 2 ^ 63; published q = published q'\<rbrakk> \<Longrightarrow> q = q'"
  using unat_published [of q] unat_published [of q'] by (simp add: word_unat_eq_iff)

lemma published_nonzero: "\<lbrakk>unat q < 2 ^ 63; 0 < unat q\<rbrakk> \<Longrightarrow> published q \<noteq> 0"
  using unat_published [of q] by (auto simp: word_unat_eq_iff)

lemma odd_not_published: "published q OR 1 \<noteq> published q'"
proof
  assume "published q OR 1 = published q'"
  then have "bit (published q OR 1) 0 = bit (published q') 0" by simp
  then show False unfolding published_def bit_or_iff bit_push_bit_iff by simp
qed

section \<open>The invariant of the writers\<close>

definition ix :: "nat \<Rightarrow> u64 \<Rightarrow> nat" where
  "ix L q = unat (q - 1) mod L"

fun writer :: "SnapPc \<Rightarrow> (u64 \<times> AdmissionSnapshot) option" where
  "writer (WFetched q a) = Some (q, a)"
| "writer (WOwner q a) = Some (q, a)"
| "writer (WFields q a k) = Some (q, a)"
| "writer (WDone q a) = Some (q, a)"
| "writer _ = None"

fun unpublished :: "SnapPc \<Rightarrow> u64 option" where
  "unpublished (WFetched q a) = Some q"
| "unpublished (WOwner q a) = Some q"
| "unpublished (WFields q a k) = Some q"
| "unpublished _ = None"

fun owner :: "SnapPc \<Rightarrow> u64 option" where
  "owner (WOwner q a) = Some q"
| "owner (WFields q a k) = Some q"
| "owner (WDone q a) = Some q"
| "owner _ = None"

fun filling :: "SnapPc \<Rightarrow> (u64 \<times> AdmissionSnapshot \<times> nat) option" where
  "filling (WFields q a k) = Some (q, a, k)"
| "filling _ = None"

text \<open>The first k fields of a slot, or of a record being read, are those of the record a.\<close>
definition holds :: "nat \<Rightarrow> SnapSlot \<Rightarrow> AdmissionSnapshot \<Rightarrow> bool" where
  "holds k s a \<longleftrightarrow> (0 < k \<longrightarrow> sl_target s = sn_target a) \<and> (1 < k \<longrightarrow> sl_disposition s = sn_disposition a)
     \<and> (2 < k \<longrightarrow> sl_reason s = sn_reason a) \<and> (3 < k \<longrightarrow> sl_now_ns s = sn_now_ns a)
     \<and> (4 < k \<longrightarrow> sl_budget_ns s = sn_budget_ns a)"

definition agrees :: "nat \<Rightarrow> AdmissionSnapshot \<Rightarrow> AdmissionSnapshot \<Rightarrow> bool" where
  "agrees k out a \<longleftrightarrow> (0 < k \<longrightarrow> sn_target out = sn_target a) \<and> (1 < k \<longrightarrow> sn_disposition out = sn_disposition a)
     \<and> (2 < k \<longrightarrow> sn_reason out = sn_reason a) \<and> (3 < k \<longrightarrow> sn_now_ns out = sn_now_ns a)
     \<and> (4 < k \<longrightarrow> sn_budget_ns out = sn_budget_ns a)"

definition quiet :: "(nat \<Rightarrow> SnapSlot) \<Rightarrow> AdmissionSnapshot list \<Rightarrow> u64 set \<Rightarrow> nat \<Rightarrow> bool" where
  "quiet S C pub i \<longleftrightarrow> sl_seq (S i) = 0
     \<or> (\<exists>q \<in> pub. sl_seq (S i) = published q \<and> holds 5 (S i) (C ! (unat q - 1)))"

definition seqs_inv :: "(nat \<Rightarrow> SnapPc) \<Rightarrow> AdmissionSnapshot list \<Rightarrow> u64 set \<Rightarrow> bool" where
  "seqs_inv pc C pub \<longleftrightarrow>
     (\<forall>t q a. writer (pc t) = Some (q, a) \<longrightarrow> 0 < unat q \<and> unat q \<le> length C \<and> a = C ! (unat q - 1))
     \<and> (\<forall>t t' q a b. writer (pc t) = Some (q, a) \<and> writer (pc t') = Some (q, b) \<longrightarrow> t = t')
     \<and> (\<forall>t q. unpublished (pc t) = Some q \<longrightarrow> q \<notin> pub)
     \<and> (\<forall>q \<in> pub. 0 < unat q \<and> unat q \<le> length C)"

definition slots_inv :: "nat \<Rightarrow> (nat \<Rightarrow> SnapPc) \<Rightarrow> (nat \<Rightarrow> SnapSlot) \<Rightarrow> AdmissionSnapshot list \<Rightarrow> u64 set \<Rightarrow> bool" where
  "slots_inv L pc S C pub \<longleftrightarrow>
     (\<forall>t q. owner (pc t) = Some q \<longrightarrow> sl_writing (S (ix L q)))
     \<and> (\<forall>t t' q q'. owner (pc t) = Some q \<and> owner (pc t') = Some q' \<and> ix L q = ix L q' \<longrightarrow> t = t')
     \<and> (\<forall>t q a k. filling (pc t) = Some (q, a, k) \<longrightarrow>
          k \<le> 5 \<and> sl_seq (S (ix L q)) = (published q OR 1) \<and> holds k (S (ix L q)) a)
     \<and> (\<forall>i < L. (\<forall>t q a k. filling (pc t) = Some (q, a, k) \<longrightarrow> ix L q \<noteq> i) \<longrightarrow> quiet S C pub i)"

lemma filling_owner: "filling p = Some (q, a, k) \<Longrightarrow> owner p = Some q \<and> writer p = Some (q, a) \<and> unpublished p = Some q"
  by (cases p) auto

lemma owner_writer: "owner p = Some q \<Longrightarrow> \<exists>a. writer p = Some (q, a)"
  by (cases p) auto

lemma seqs_invD:
  assumes "seqs_inv pc C pub"
  shows "writer (pc t) = Some (q, a) \<Longrightarrow> 0 < unat q" "writer (pc t) = Some (q, a) \<Longrightarrow> unat q \<le> length C"
    "writer (pc t) = Some (q, a) \<Longrightarrow> a = C ! (unat q - 1)"
    "writer (pc t) = Some (q, a) \<Longrightarrow> writer (pc t') = Some (q, b) \<Longrightarrow> t = t'"
    "unpublished (pc t) = Some q \<Longrightarrow> q \<notin> pub" "q \<in> pub \<Longrightarrow> 0 < unat q" "q \<in> pub \<Longrightarrow> unat q \<le> length C"
  using assms unfolding seqs_inv_def by blast+

lemma slots_invD:
  assumes "slots_inv L pc S C pub"
  shows "owner (pc t) = Some q \<Longrightarrow> sl_writing (S (ix L q))"
    "owner (pc t) = Some q \<Longrightarrow> owner (pc t') = Some q' \<Longrightarrow> ix L q = ix L q' \<Longrightarrow> t = t'"
    "filling (pc t) = Some (q, a, k) \<Longrightarrow> k \<le> 5" "filling (pc t) = Some (q, a, k) \<Longrightarrow> sl_seq (S (ix L q)) = (published q OR 1)"
    "filling (pc t) = Some (q, a, k) \<Longrightarrow> holds k (S (ix L q)) a"
    "i < L \<Longrightarrow> (\<And>t q a k. filling (pc t) = Some (q, a, k) \<Longrightarrow> ix L q \<noteq> i) \<Longrightarrow> quiet S C pub i"
  using assms unfolding slots_inv_def by blast+

lemma seqs_invI:
  assumes "\<And>t q a. writer (pc t) = Some (q, a) \<Longrightarrow> 0 < unat q \<and> unat q \<le> length C \<and> a = C ! (unat q - 1)"
    "\<And>t t' q a b. writer (pc t) = Some (q, a) \<Longrightarrow> writer (pc t') = Some (q, b) \<Longrightarrow> t = t'"
    "\<And>t q. unpublished (pc t) = Some q \<Longrightarrow> q \<notin> pub" "\<And>q. q \<in> pub \<Longrightarrow> 0 < unat q \<and> unat q \<le> length C"
  shows "seqs_inv pc C pub"
  using assms unfolding seqs_inv_def by blast

lemma slots_invI:
  assumes "\<And>t q. owner (pc t) = Some q \<Longrightarrow> sl_writing (S (ix L q))"
    "\<And>t t' q q'. owner (pc t) = Some q \<Longrightarrow> owner (pc t') = Some q' \<Longrightarrow> ix L q = ix L q' \<Longrightarrow> t = t'"
    "\<And>t q a k. filling (pc t) = Some (q, a, k) \<Longrightarrow>
       k \<le> 5 \<and> sl_seq (S (ix L q)) = (published q OR 1) \<and> holds k (S (ix L q)) a"
    "\<And>i. i < L \<Longrightarrow> (\<And>t q a k. filling (pc t) = Some (q, a, k) \<Longrightarrow> ix L q \<noteq> i) \<Longrightarrow> quiet S C pub i"
  shows "slots_inv L pc S C pub"
  unfolding slots_inv_def using assms by (intro conjI allI impI) blast+

section \<open>Writer steps\<close>

text \<open>A step of thread t that keeps its sequence number.\<close>
lemma seqs_step:
  assumes I: "seqs_inv pc C pub" and w: "writer p = None \<or> writer p = writer (pc t)"
    and u: "\<And>q. unpublished p = Some q \<Longrightarrow> unpublished (pc t) = Some q"
  shows "seqs_inv (pc(t := p)) C pub"
proof (rule seqs_invI)
  note D = seqs_invD [OF I]
  have old: "writer (pc t') = Some (q, a)" if "writer ((pc(t := p)) t') = Some (q, a)" for t' q a
    using that w by (auto split: if_splits)
  show "0 < unat q \<and> unat q \<le> length C \<and> a = C ! (unat q - 1)" if "writer ((pc(t := p)) t') = Some (q, a)" for t' q a
    using D(1-3) [OF old [OF that]] by blast
  show "t1 = t2" if "writer ((pc(t := p)) t1) = Some (q, a)" "writer ((pc(t := p)) t2) = Some (q, b)" for t1 t2 q a b
    using D(4) [OF old [OF that(1)] old [OF that(2)]] .
  show "q \<notin> pub" if "unpublished ((pc(t := p)) t') = Some q" for t' q
    using that u D(5) by (cases "t' = t") auto
  show "0 < unat q \<and> unat q \<le> length C" if "q \<in> pub" for q using D(6,7) [OF that] by blast
qed

lemma seqs_fetch:
  assumes I: "seqs_inv pc C pub" and q: "unat q = Suc (length C)"
  shows "seqs_inv (pc(t := WFetched q a)) (C @ [a]) pub"
proof (rule seqs_invI)
  note D = seqs_invD [OF I]
  have new: "q' \<noteq> q" if "writer (pc t') = Some (q', b)" for t' q' b using D(2) [OF that] q by auto
  show "0 < unat q' \<and> unat q' \<le> length (C @ [a]) \<and> b = (C @ [a]) ! (unat q' - 1)"
    if "writer ((pc(t := WFetched q a)) t') = Some (q', b)" for t' q' b
    using that q D(1-3) [of t' q' b] by (cases "t' = t") (auto simp: nth_append)
  show "t1 = t2" if "writer ((pc(t := WFetched q a)) t1) = Some (q', b)" "writer ((pc(t := WFetched q a)) t2) = Some (q', c)"
    for t1 t2 q' b c using that new D(4) [of t1 q' b t2 c] by (auto split: if_splits)
  show "q' \<notin> pub" if "unpublished ((pc(t := WFetched q a)) t') = Some q'" for t' q'
    using that q D(5) [of t' q'] D(7) [of q'] by (cases "t' = t") auto
  show "0 < unat q' \<and> unat q' \<le> length (C @ [a])" if "q' \<in> pub" for q' using D(6,7) [OF that] by simp
qed

lemma quiet_mono:
  assumes "seqs_inv pc C pub" "quiet S C pub i" "S' i = S i" "pub \<subseteq> pub'" "\<exists>ys. C' = C @ ys"
  shows "quiet S' C' pub' i"
proof -
  have "C' ! (unat q - 1) = C ! (unat q - 1)" if "q \<in> pub" for q
    using seqs_invD(6,7) [OF assms(1) that] assms(5) by (auto simp: nth_append)
  then show ?thesis using assms(2-4) unfolding quiet_def by auto
qed

text \<open>A step of thread t on slot j, which no other thread owns.\<close>
lemma slots_step:
  assumes I: "seqs_inv pc C pub" "slots_inv L pc S C pub"
    and alone: "\<And>t' q. t' \<noteq> t \<Longrightarrow> owner (pc t') = Some q \<Longrightarrow> ix L q \<noteq> j"
    and mine: "\<And>q a k. filling (pc t) = Some (q, a, k) \<Longrightarrow> ix L q = j"
    and own: "\<And>q. owner p = Some q \<Longrightarrow> ix L q = j \<and> sl_writing s"
    and fill: "\<And>q a k. filling p = Some (q, a, k) \<Longrightarrow> k \<le> 5 \<and> sl_seq s = (published q OR 1) \<and> holds k s a"
    and rest: "filling p = None \<Longrightarrow> quiet (S(j := s)) C pub' j" and pub: "pub \<subseteq> pub'"
  shows "slots_inv L (pc(t := p)) (S(j := s)) C pub'"
proof (rule slots_invI)
  note D = slots_invD [OF I(2)]
  show "sl_writing ((S(j := s)) (ix L q))" if "owner ((pc(t := p)) t') = Some q" for t' q
    using that own alone D(1) by (cases "t' = t") auto
  show "t1 = t2" if "owner ((pc(t := p)) t1) = Some q" "owner ((pc(t := p)) t2) = Some q'" "ix L q = ix L q'" for t1 t2 q q'
    using that own alone D(2) [of t1 q t2 q'] by (auto split: if_splits)
  show "k \<le> 5 \<and> sl_seq ((S(j := s)) (ix L q)) = (published q OR 1) \<and> holds k ((S(j := s)) (ix L q)) a"
    if "filling ((pc(t := p)) t') = Some (q, a, k)" for t' q a k
  proof (cases "t' = t")
    case True
    then show ?thesis using that fill [of q a k] own [of q] filling_owner [of p q a k] by auto
  next
    case False
    then show ?thesis using that D(3-5) [of t' q a k] alone [of t' q] filling_owner [of "pc t'" q a k] by auto
  qed
  show "quiet (S(j := s)) C pub' i"
    if i: "i < L" and none: "\<And>t' q a k. filling ((pc(t := p)) t') = Some (q, a, k) \<Longrightarrow> ix L q \<noteq> i" for i
  proof (cases "i = j")
    case True
    then have "filling p = None" using none [of t] own filling_owner by (cases "filling p") fastforce+
    then show ?thesis using rest True by simp
  next
    case False
    have "quiet S C pub i"
    proof (rule D(6) [OF i])
      show "ix L q \<noteq> i" if "filling (pc t') = Some (q, a, k)" for t' q a k
        using that none [of t' q a k] mine [of q a k] False by (cases "t' = t") auto
    qed
    then show ?thesis using quiet_mono [OF I(1)] False pub by fastforce
  qed
qed

lemma slots_pc_only:
  assumes I: "seqs_inv pc C pub" "slots_inv L pc S C pub" and n: "owner (pc t) = None" "owner p = None"
    and C: "\<exists>ys. C' = C @ ys"
  shows "slots_inv L (pc(t := p)) S C' pub"
proof (rule slots_invI)
  note D = slots_invD [OF I(2)]
  have f: "filling (pc t) = None" "filling p = None" using n by (cases "pc t"; auto) (use n in \<open>cases p; auto\<close>)
  show "sl_writing (S (ix L q))" if "owner ((pc(t := p)) t') = Some q" for t' q
    using that n D(1) by (auto split: if_splits)
  show "t1 = t2" if "owner ((pc(t := p)) t1) = Some q" "owner ((pc(t := p)) t2) = Some q'" "ix L q = ix L q'" for t1 t2 q q'
    using that n D(2) [of t1 q t2 q'] by (auto split: if_splits)
  show "k \<le> 5 \<and> sl_seq (S (ix L q)) = (published q OR 1) \<and> holds k (S (ix L q)) a"
    if "filling ((pc(t := p)) t') = Some (q, a, k)" for t' q a k
    using that f D(3-5) [of t' q a k] by (auto split: if_splits)
  show "quiet S C' pub i"
    if i: "i < L" and none: "\<And>t' q a k. filling ((pc(t := p)) t') = Some (q, a, k) \<Longrightarrow> ix L q \<noteq> i" for i
  proof -
    have "quiet S C pub i"
    proof (rule D(6) [OF i])
      show "ix L q \<noteq> i" if "filling (pc t') = Some (q, a, k)" for t' q a k
        using that none [of t' q a k] f by (cases "t' = t") auto
    qed
    then show ?thesis using quiet_mono [OF I(1) _ _ _ C] by blast
  qed
qed

section \<open>Readers\<close>

definition readers_inv :: "nat \<Rightarrow> (nat \<Rightarrow> SnapPc) \<Rightarrow> (nat \<Rightarrow> SnapSlot) \<Rightarrow> AdmissionSnapshot list \<Rightarrow> u64 set \<Rightarrow> bool" where
  "readers_inv L pc S C pub \<longleftrightarrow>
     (\<forall>t seq. pc t = RStart seq \<longrightarrow> 0 < unat seq \<and> unat seq \<le> length C)
     \<and> (\<forall>t seq out k. pc t = RFields seq out k \<longrightarrow> seq \<in> pub \<and> k \<le> 5 \<and> sn_seq out = seq
          \<and> (sl_seq (S (ix L seq)) = published seq \<longrightarrow> agrees k out (C ! (unat seq - 1))))"

lemma readers_invI:
  assumes "\<And>t seq. pc t = RStart seq \<Longrightarrow> 0 < unat seq \<and> unat seq \<le> length C"
    "\<And>t seq out k. pc t = RFields seq out k \<Longrightarrow> seq \<in> pub \<and> k \<le> 5 \<and> sn_seq out = seq"
    "\<And>t seq out k. pc t = RFields seq out k \<Longrightarrow> sl_seq (S (ix L seq)) = published seq \<Longrightarrow> agrees k out (C ! (unat seq - 1))"
  shows "readers_inv L pc S C pub"
  using assms unfolding readers_inv_def by blast

lemma readers_invD:
  assumes "readers_inv L pc S C pub"
  shows "pc t = RStart seq \<Longrightarrow> 0 < unat seq \<and> unat seq \<le> length C"
    "pc t = RFields seq out k \<Longrightarrow> seq \<in> pub \<and> k \<le> 5 \<and> sn_seq out = seq"
    "pc t = RFields seq out k \<Longrightarrow> sl_seq (S (ix L seq)) = published seq \<Longrightarrow> agrees k out (C ! (unat seq - 1))"
  using assms unfolding readers_inv_def by blast+

text \<open>A slot that shows an even sequence holds the whole record of that sequence.\<close>
lemma slot_published:
  assumes I: "seqs_inv pc C pub" "slots_inv L pc S C pub" and n: "length C < 2 ^ 63" "0 < L"
    and seq: "0 < unat seq" "unat seq \<le> length C" "sl_seq (S (ix L seq)) = published seq"
  shows "seq \<in> pub \<and> holds 5 (S (ix L seq)) (C ! (unat seq - 1))"
proof -
  have "ix L seq < L" using n(2) by (simp add: ix_def)
  moreover have "ix L q \<noteq> ix L seq" if "filling (pc t) = Some (q, a, k)" for t q a k
    using slots_invD(4) [OF I(2) that] seq(3) odd_not_published by metis
  ultimately have "quiet S C pub (ix L seq)" using slots_invD(6) [OF I(2)] by blast
  moreover have lt: "unat seq < 2 ^ 63" using n(1) seq(2) by linarith
  moreover have "unat q < 2 ^ 63" if "q \<in> pub" for q using seqs_invD(7) [OF I(1) that] n(1) by linarith
  ultimately show ?thesis
    using seq(3) published_nonzero [OF lt seq(1)] published_inj [OF lt] unfolding quiet_def by metis
qed

lemma readers_slot:
  assumes I: "seqs_inv pc C pub" "readers_inv L pc S C pub"
    and keep: "\<And>seq. seq \<in> pub \<Longrightarrow> ix L seq = j \<Longrightarrow> sl_seq s = published seq \<Longrightarrow> sl_seq (S j) = published seq"
    and p: "\<And>seq. p \<noteq> RStart seq" "\<And>seq out k. p \<noteq> RFields seq out k" and pub: "pub \<subseteq> pub'"
  shows "readers_inv L (pc(t := p)) (S(j := s)) C pub'"
proof (rule readers_invI)
  note D = readers_invD [OF I(2)]
  show "0 < unat seq \<and> unat seq \<le> length C" if "(pc(t := p)) t' = RStart seq" for t' seq
    using that p D(1) by (auto split: if_splits)
  show "seq \<in> pub' \<and> k \<le> 5 \<and> sn_seq out = seq" if "(pc(t := p)) t' = RFields seq out k" for t' seq out k
    using that p D(2) [of t' seq out k] pub by (auto split: if_splits)
  show "agrees k out (C ! (unat seq - 1))"
    if "(pc(t := p)) t' = RFields seq out k" "sl_seq ((S(j := s)) (ix L seq)) = published seq" for t' seq out k
    using that p D(2,3) [of t' seq out k] keep [of seq] by (auto split: if_splits)
qed

lemma readers_pc:
  assumes I: "seqs_inv pc C pub" "readers_inv L pc S C pub" and C: "\<exists>ys. C' = C @ ys"
    and p: "\<And>seq. p = RStart seq \<Longrightarrow> 0 < unat seq \<and> unat seq \<le> length C"
      "\<And>seq out k. p = RFields seq out k \<Longrightarrow> seq \<in> pub \<and> k \<le> 5 \<and> sn_seq out = seq
         \<and> (sl_seq (S (ix L seq)) = published seq \<longrightarrow> agrees k out (C ! (unat seq - 1)))"
  shows "readers_inv L (pc(t := p)) S C' pub"
proof (rule readers_invI)
  note D = readers_invD [OF I(2)]
  have nth: "C' ! (unat q - 1) = C ! (unat q - 1)" if "q \<in> pub" for q
    using seqs_invD(6,7) [OF I(1) that] C by (auto simp: nth_append)
  show "0 < unat seq \<and> unat seq \<le> length C'" if "(pc(t := p)) t' = RStart seq" for t' seq
    using that p(1) [of seq] D(1) [of t' seq] C by (auto split: if_splits)
  show "seq \<in> pub \<and> k \<le> 5 \<and> sn_seq out = seq" if "(pc(t := p)) t' = RFields seq out k" for t' seq out k
    using that p(2) [of seq out k] D(2) [of t' seq out k] by (auto split: if_splits)
  show "agrees k out (C' ! (unat seq - 1))"
    if "(pc(t := p)) t' = RFields seq out k" "sl_seq (S (ix L seq)) = published seq" for t' seq out k
    using that p(2) [of seq out k] D(2,3) [of t' seq out k] nth [of seq] by (auto split: if_splits)
qed

lemma agrees_load:
  "\<lbrakk>agrees k out a; holds 5 s a; k < 5\<rbrakk> \<Longrightarrow> agrees (Suc k) (load_field k s out) a"
  by (auto simp: agrees_def holds_def load_field_def)

lemma holds_store: "\<lbrakk>holds k s a; k < 5\<rbrakk> \<Longrightarrow> holds (Suc k) (store_field k a s) a"
  by (auto simp: holds_def store_field_def)

lemma store_field_frame [simp]:
  "sl_seq (store_field k a s) = sl_seq s" "sl_writing (store_field k a s) = sl_writing s"
  by (simp_all add: store_field_def)

lemma load_field_seq [simp]: "sn_seq (load_field k s a) = sn_seq a"
  by (simp add: load_field_def)

lemma holds_frame [simp]:
  "holds k (s\<lparr>sl_seq := x\<rparr>) a = holds k s a" "holds k (s\<lparr>sl_writing := b\<rparr>) a = holds k s a"
  by (simp_all add: holds_def)

section \<open>The system\<close>

abbreviation slot_fun :: "AdmissionSnapshotRing \<Rightarrow> nat \<Rightarrow> SnapSlot" where
  "slot_fun r \<equiv> (!) (snap_slots r)"

definition ring_view :: "AdmissionSnapshotRing \<Rightarrow> (nat \<Rightarrow> SnapPc) \<Rightarrow> AdmissionSnapshot list \<Rightarrow> u64 set \<Rightarrow> bool" where
  "ring_view r pc C pub \<longleftrightarrow>
     (let L = length (snap_slots r); S = slot_fun r
      in 0 < L \<and> unat (snap_count r) = length C \<and> length C < 2 ^ 63
         \<and> seqs_inv pc C pub \<and> slots_inv L pc S C pub \<and> readers_inv L pc S C pub)"

definition results_ok :: "AdmissionSnapshot list \<Rightarrow> (u64 \<times> (SnapshotError + AdmissionSnapshot)) list \<Rightarrow> bool" where
  "results_ok C res \<longleftrightarrow> (\<forall>seq out. (seq, Inr out) \<in> set res \<longrightarrow>
     0 < unat seq \<and> unat seq \<le> length C \<and> sn_seq out = seq \<and> agrees 5 out (C ! (unat seq - 1)))"

lemma upd_slot_view:
  assumes "snap_slots r \<noteq> []"
  shows "length (snap_slots (upd_slot r q f)) = length (snap_slots r)" "snap_count (upd_slot r q f) = snap_count r"
    "slot_fun (upd_slot r q f) = (slot_fun r)(ix (length (snap_slots r)) q := f (slot_fun r (ix (length (snap_slots r)) q)))"
proof -
  have "ix (length (snap_slots r)) q < length (snap_slots r)" using assms by (simp add: ix_def)
  then show "slot_fun (upd_slot r q f) = (slot_fun r)(ix (length (snap_slots r)) q := f (slot_fun r (ix (length (snap_slots r)) q)))"
    by (auto simp: upd_slot_def snap_index_def ix_def fun_eq_iff)
qed (simp_all add: upd_slot_def)

lemma snap_index_ix: "snap_index r q = ix (length (snap_slots r)) q"
  by (simp add: snap_index_def ix_def)

text \<open>A step of an owner on its slot, from the conditions on the slot alone.\<close>
lemma owner_step:
  fixes r :: AdmissionSnapshotRing and q :: u64 and f :: "SnapSlot \<Rightarrow> SnapSlot"
  defines "L \<equiv> length (snap_slots r)" and "S \<equiv> slot_fun r" and "j \<equiv> ix (length (snap_slots r)) q"
    and "s \<equiv> f (slot_fun r (ix (length (snap_slots r)) q))"
  assumes V: "ring_view r pc C pub" and w: "writer (pc t) = Some (q, a)"
    and alone: "owner (pc t) = Some q \<or> \<not> sl_writing (S j)"
    and p: "writer p = None \<or> writer p = Some (q, a)" "owner p \<noteq> None \<Longrightarrow> sl_writing s"
      "unpublished p = None \<or> unpublished p = unpublished (pc t)" "\<And>seq. p \<noteq> RStart seq" "\<And>seq out k. p \<noteq> RFields seq out k"
    and fill: "\<And>q' a' k. filling p = Some (q', a', k) \<Longrightarrow> k \<le> 5 \<and> sl_seq s = (published q OR 1) \<and> holds k s a"
    and rest: "filling p = None \<Longrightarrow> quiet (S(j := s)) C pub' j"
    and keep: "\<And>seq. seq \<in> pub \<Longrightarrow> sl_seq s = published seq \<Longrightarrow> sl_seq (S j) = published seq"
    and pub: "pub' = pub \<or> pub' = insert q pub \<and> unpublished p = None"
  shows "ring_view (upd_slot r q f) (pc(t := p)) C pub'"
proof -
  have I: "seqs_inv pc C pub" "slots_inv L pc S C pub" "readers_inv L pc S C pub" and L: "0 < L"
    and c: "unat (snap_count r) = length C" "length C < 2 ^ 63"
    using V by (simp_all add: ring_view_def Let_def L_def S_def)
  note U = upd_slot_view [of r q f, folded L_def j_def s_def]
  have sq: "seqs_inv (pc(t := p)) C pub" using seqs_step [OF I(1), of p t] p(1,3) w by auto
  have sq': "seqs_inv (pc(t := p)) C pub'"
  proof (cases "pub' = pub")
    case False
    then have pb: "pub' = insert q pub" "unpublished p = None" using pub by blast+
    have uq: "q' \<noteq> q" if "unpublished ((pc(t := p)) t') = Some q'" for t' q'
    proof -
      have "t' \<noteq> t" using that pb(2) by auto
      moreover have "\<exists>b. writer (pc t') = Some (q', b)" using that \<open>t' \<noteq> t\<close> by (cases "pc t'") auto
      ultimately show ?thesis using seqs_invD(4) [OF I(1) w] by auto
    qed
    show ?thesis unfolding pb(1) using seqs_invD [OF sq] uq seqs_invD(1,2) [OF I(1) w]
      by (intro seqs_invI) blast+
  qed (use sq in simp)
  have al: "ix L q' \<noteq> j" if "t' \<noteq> t" "owner (pc t') = Some q'" for t' q'
    using alone slots_invD(1,2) [OF I(2) that(2)] that(1) by (metis L_def j_def)
  have own: "ix L q' = j \<and> sl_writing s" if "owner p = Some q'" for q'
    using owner_writer [OF that] p(1,2) that by (auto simp: j_def L_def)
  have mine: "ix L q' = j" if "filling (pc t) = Some (q', a', k)" for q' a' k
    using filling_owner [OF that] w by (simp add: j_def L_def)
  have sl: "slots_inv L (pc(t := p)) (S(j := s)) C pub'"
  proof (rule slots_step [OF I(1,2) al mine own])
    show "k \<le> 5 \<and> sl_seq s = (published q' OR 1) \<and> holds k s a'" if "filling p = Some (q', a', k)" for q' a' k
      using fill [OF that] filling_owner [OF that] p(1) by auto
  qed (use rest pub in auto)
  have "readers_inv L (pc(t := p)) (S(j := s)) C pub'"
    using readers_slot [OF I(1,3) keep p(4,5)] pub by blast
  moreover have "snap_slots r \<noteq> []" using L by (auto simp: L_def)
  ultimately show ?thesis using L c sq' sl U [OF \<open>snap_slots r \<noteq> []\<close>] unfolding ring_view_def Let_def
    by (simp only: S_def)
qed

lemma pc_step:
  assumes V: "ring_view r pc C pub" and o: "owner (pc t) = None" "writer p = None"
    and r: "snap_slots r' = snap_slots r" "snap_count r' = snap_count r"
    and p: "\<And>seq. p = RStart seq \<Longrightarrow> 0 < unat seq \<and> unat seq \<le> length C"
      "\<And>seq out k. p = RFields seq out k \<Longrightarrow> seq \<in> pub \<and> k \<le> 5 \<and> sn_seq out = seq
         \<and> (sl_seq (slot_fun r (snap_index r seq)) = published seq \<longrightarrow> agrees k out (C ! (unat seq - 1)))"
  shows "ring_view r' (pc(t := p)) C pub"
proof -
  have n: "owner p = None" "unpublished p = None" using o(2) by (cases p; simp)+
  then show ?thesis
    using V seqs_step [of pc C pub p t] slots_pc_only [of pc C pub _ _ t p C] readers_pc [of pc C pub _ _ C p t] o r p
    by (simp add: ring_view_def Let_def snap_index_ix)
qed

lemma fetch_step:
  assumes V: "ring_view r pc C pub" and o: "writer (pc t) = None" and n: "Suc (length C) < 2 ^ 63"
  shows "ring_view (r\<lparr>snap_count := snap_count r + 1\<rparr>) (pc(t := WFetched (snap_count r + 1) a)) (C @ [a]) pub"
proof -
  have c: "unat (snap_count r) = length C" using V by (simp add: ring_view_def Let_def)
  then have q: "unat (snap_count r + 1) = Suc (length C)" using n by (simp add: unat_inc)
  have "owner (pc t) = None" using o by (cases "pc t") auto
  then show ?thesis
    using V seqs_fetch [OF _ q] slots_pc_only [of pc C pub _ _ t "WFetched (snap_count r + 1) a" "C @ [a]"]
      readers_pc [of pc C pub _ _ "C @ [a]" "WFetched (snap_count r + 1) a" t] q n
    by (simp add: ring_view_def Let_def)
qed

lemma view_slots: "ring_view r pc C pub \<Longrightarrow> slots_inv (length (snap_slots r)) pc (slot_fun r) C pub"
  by (simp add: ring_view_def Let_def)

lemma view_seqs: "ring_view r pc C pub \<Longrightarrow> seqs_inv pc C pub"
  by (simp add: ring_view_def Let_def)

lemma view_readers: "ring_view r pc C pub \<Longrightarrow> readers_inv (length (snap_slots r)) pc (slot_fun r) C pub"
  by (simp add: ring_view_def Let_def)

lemma view_published:
  assumes "ring_view r pc C pub" "0 < unat seq" "unat seq \<le> length C" "sl_seq (slot_fun r (snap_index r seq)) = published seq"
  shows "seq \<in> pub \<and> holds 5 (slot_fun r (snap_index r seq)) (C ! (unat seq - 1))"
  using slot_published [of pc C pub "length (snap_slots r)" "slot_fun r" seq] assms
  by (simp add: ring_view_def Let_def snap_index_ix)

text \<open>A slot that an owner has not started to fill is quiet.\<close>
lemma view_quiet:
  assumes V: "ring_view r pc C pub" and own: "owner (pc t) = Some q \<or> \<not> sl_writing (slot_fun r (snap_index r q))"
    and f: "filling (pc t) = None"
  shows "quiet (slot_fun r) C pub (snap_index r q)"
proof -
  let ?L = "length (snap_slots r)"
  note S = slots_invD [OF view_slots [OF V]]
  have "ix ?L q < ?L" using V by (simp add: ring_view_def Let_def ix_def)
  moreover have "ix ?L q' \<noteq> ix ?L q" if "filling (pc t') = Some (q', a, k)" for t' q' a k
    using own S(1,2) filling_owner [OF that] f that by (metis option.distinct(1) snap_index_ix)
  ultimately show ?thesis using S(6) by (simp add: snap_index_ix)
qed

lemma quiet_flag:
  "quiet S C pub j \<Longrightarrow> quiet (S(j := (S j)\<lparr>sl_writing := b\<rparr>)) C pub j"
  by (simp add: quiet_def)

lemma claim_view:
  assumes V: "ring_view r pc C pub" and "pc t = WFetched q a" "\<not> sl_writing (slot_fun r (snap_index r q))"
  shows "ring_view (upd_slot r q (\<lambda>s. s\<lparr>sl_writing := True\<rparr>)) (pc(t := WOwner q a)) C pub"
  using view_quiet [OF V, of t] assms
  by (intro owner_step [OF V]) (auto simp: snap_index_ix [symmetric] intro: quiet_flag)

lemma odd_view:
  assumes V: "ring_view r pc C pub" and "pc t = WOwner q a"
  shows "ring_view (upd_slot r q (\<lambda>s. s\<lparr>sl_seq := published q OR 1\<rparr>)) (pc(t := WFields q a 0)) C pub"
  using assms slots_invD(1) [OF view_slots [OF V], of t q]
  by (intro owner_step [OF V, where a = a]) (auto simp: holds_def odd_not_published)

lemma field_view:
  assumes V: "ring_view r pc C pub" and "pc t = WFields q a k" "k < 5"
  shows "ring_view (upd_slot r q (store_field k a)) (pc(t := WFields q a (Suc k))) C pub"
  using assms slots_invD(1) [OF view_slots [OF V], of t q] slots_invD(4,5) [OF view_slots [OF V], of t q a k]
  by (intro owner_step [OF V, where a = a]) (auto simp: holds_store)

lemma even_view:
  assumes V: "ring_view r pc C pub" and t: "pc t = WFields q a 5"
  shows "ring_view (upd_slot r q (\<lambda>s. s\<lparr>sl_seq := published q\<rparr>)) (pc(t := WDone q a)) C (insert q pub)"
proof -
  note S = slots_invD [OF view_slots [OF V]] and Q = seqs_invD [OF view_seqs [OF V]]
  have a: "a = C ! (unat q - 1)" "q \<notin> pub" "unat q \<le> length C"
    using Q(2,3) [of t q a] Q(5) [of t q] t by auto
  have lt: "unat q < 2 ^ 63" "length C < 2 ^ 63" using a(3) V by (auto simp: ring_view_def Let_def)
  have "published q \<noteq> published q'" if "q' \<in> pub" for q'
    using that a(2) published_inj [OF lt(1), of q'] Q(7) [OF that] lt(2) by force
  then show ?thesis using t S(1) [of t q] S(5) [of t q a 5] a(1)
    by (intro owner_step [OF V, where a = a]) (auto simp: quiet_def)
qed

lemma clear_view:
  assumes V: "ring_view r pc C pub" and "pc t = WDone q a"
  shows "ring_view (upd_slot r q (\<lambda>s. s\<lparr>sl_writing := False\<rparr>)) (pc(t := SIdle)) C pub"
  using view_quiet [OF V, of t] assms
  by (intro owner_step [OF V, where a = a]) (auto simp: snap_index_ix [symmetric] intro: quiet_flag)

lemma load_view:
  assumes V: "ring_view r pc C pub" and t: "pc t = RFields q out k" "k < 5"
  shows "ring_view r (pc(t := RFields q (load_field k (slot_fun r (snap_index r q)) out) (Suc k))) C pub"
proof -
  note R = readers_invD [OF view_readers [OF V]]
  have s: "q \<in> pub" "sn_seq out = q" using R(2) t by auto
  then have n: "0 < unat q" "unat q \<le> length C" using seqs_invD(6,7) [OF view_seqs [OF V]] by auto
  have "agrees (Suc k) (load_field k (slot_fun r (snap_index r q)) out) (C ! (unat q - 1))"
    if "sl_seq (slot_fun r (snap_index r q)) = published q"
    using agrees_load view_published [OF V n that] R(3) [of t q out k] t that by (simp add: snap_index_ix [symmetric])
  then show ?thesis using t s by (intro pc_step [OF V]) auto
qed

lemma step_view:
  assumes "snap_step y y'" and V: "ring_view (snap_ring y) (snap_pc y) (snap_calls y) pub" and n: "length (snap_calls y') < 2 ^ 63"
  shows "\<exists>pub'. ring_view (snap_ring y') (snap_pc y') (snap_calls y') pub'"
  using assms(1)
proof cases
  case (w_fetch t seq a)
  then have "writer (snap_pc y t) = None" by simp
  from fetch_step [OF V this] show ?thesis using w_fetch n by auto
next
  case (r_start t seq)
  have "unat seq \<le> length (snap_calls y)" "0 < unat seq"
    using r_start(3) V by (auto simp: lookup_range_def ring_view_def Let_def word_le_nat_alt unat_gt_0 not_less split: if_splits)
  then show ?thesis using pc_step [OF V, of t "RStart seq" "snap_ring y"] r_start by auto
next
  case (r_enter t seq)
  have "0 < unat seq" "unat seq \<le> length (snap_calls y)" using readers_invD(1) [OF view_readers [OF V]] r_enter by auto
  then have "seq \<in> pub" using view_published [OF V] r_enter by blast
  then show ?thesis
    using pc_step [OF V, of t "RFields seq (snap_out seq) 0" "snap_ring y"] r_enter by (auto simp: agrees_def snap_out_def)
next
  case (w_drop t seq a)
  then show ?thesis
    using pc_step [OF V, of t SIdle "snap_ring y\<lparr>snap_dropped := snap_dropped (snap_ring y) + 1\<rparr>"] by auto
next
  case (w_claim t seq a)
  then show ?thesis using claim_view [OF V w_claim(2,3)] by auto
next
  case (w_odd t seq a)
  then show ?thesis using odd_view [OF V w_odd(2)] by auto
next
  case (w_field t seq a k)
  then show ?thesis using field_view [OF V w_field(2,3)] by auto
next
  case (w_even t seq a)
  then show ?thesis using even_view [OF V w_even(2)] by auto
next
  case (w_clear t seq a)
  then show ?thesis using clear_view [OF V w_clear(2)] by auto
next
  case (r_field t seq out k)
  then show ?thesis using load_view [OF V r_field(2,3)] by auto
next
  case (r_refuse t seq e)
  then show ?thesis using pc_step [OF V, of t SIdle "snap_ring y"] by auto
next
  case (r_torn t seq)
  then show ?thesis using pc_step [OF V, of t SIdle "snap_ring y"] by auto
next
  case (r_reused t seq out)
  then show ?thesis using pc_step [OF V, of t SIdle "snap_ring y"] by auto
next
  case (r_success t seq out)
  then show ?thesis using pc_step [OF V, of t SIdle "snap_ring y"] by auto
qed

lemma step_calls:
  assumes "snap_step y y'"
  shows "\<exists>ys. snap_calls y' = snap_calls y @ ys"
  using assms by cases auto

lemma step_results:
  assumes "snap_step y y'" and V: "ring_view (snap_ring y) (snap_pc y) (snap_calls y) pub"
    and R: "results_ok (snap_calls y) (snap_results y)"
  shows "results_ok (snap_calls y') (snap_results y')"
proof -
  obtain ys where C: "snap_calls y' = snap_calls y @ ys" using step_calls [OF assms(1)] by blast
  then have old: "results_ok (snap_calls y') (snap_results y)"
    using R by (fastforce simp: results_ok_def nth_append)
  show ?thesis using assms(1)
  proof cases
    case (r_success t seq out)
    have s: "seq \<in> pub" "sn_seq out = seq" "agrees 5 out (snap_calls y ! (unat seq - 1))"
      using readers_invD(2,3) [OF view_readers [OF V], of t seq out 5] r_success by (simp_all add: snap_index_ix)
    moreover have "0 < unat seq" "unat seq \<le> length (snap_calls y)" using seqs_invD(6,7) [OF view_seqs [OF V] s(1)] .
    ultimately show ?thesis using old r_success by (auto simp: results_ok_def)
  qed (use old in \<open>auto simp: results_ok_def\<close>)
qed

definition snap_start :: "u8 \<Rightarrow> SnapSystem" where
  "snap_start n = \<lparr>snap_ring = snap_ring_new n, snap_pc = (\<lambda>t. SIdle), snap_calls = [], snap_results = []\<rparr>"

lemma start_view: "n \<noteq> 0 \<Longrightarrow> ring_view (snap_ring (snap_start n)) (snap_pc (snap_start n)) (snap_calls (snap_start n)) {}"
  by (simp add: ring_view_def Let_def snap_start_def snap_ring_new_def seqs_inv_def slots_inv_def readers_inv_def
      quiet_def snap_slot_zero_def unat_gt_0)

lemma reachable_view:
  assumes "snap_step\<^sup>*\<^sup>* (snap_start n) y" "n \<noteq> 0" "length (snap_calls y) < 2 ^ 63"
  shows "(\<exists>pub. ring_view (snap_ring y) (snap_pc y) (snap_calls y) pub) \<and> results_ok (snap_calls y) (snap_results y)"
  using assms(1,3)
proof (induction rule: rtranclp_induct)
  case base
  have "results_ok (snap_calls (snap_start n)) (snap_results (snap_start n))" by (simp add: results_ok_def snap_start_def)
  then show ?case using start_view [OF assms(2)] by blast
next
  case (step y z)
  then have "length (snap_calls y) < 2 ^ 63" using step_calls [OF step(2)] by auto
  then show ?case using step step_view step_results by blast
qed

section \<open>Recording and looking up without interference\<close>

definition ring_rep :: "nat \<Rightarrow> AdmissionSnapshotRing \<Rightarrow> AdmissionSnapshot list \<Rightarrow> bool" where
  "ring_rep n r rs \<longleftrightarrow> length (snap_slots r) = n \<and> unat (snap_count r) = length rs
     \<and> (\<forall>i < n. \<not> sl_writing (snap_slots r ! i))
     \<and> (\<forall>k < length rs. length rs \<le> k + n \<longrightarrow>
          sl_seq (snap_slots r ! (k mod n)) = published (of_nat (Suc k)) \<and> holds 5 (snap_slots r ! (k mod n)) (rs ! k))"

lemma snapshot_record_slots:
  assumes "snap_slots r \<noteq> []" "\<not> sl_writing (snap_slots r ! snap_index r (snap_count r + 1))"
  shows "\<exists>s. snap_slots (snapshot_record a r) = (snap_slots r)[snap_index r (snap_count r + 1) := s]
    \<and> sl_seq s = published (snap_count r + 1) \<and> holds 5 s a \<and> \<not> sl_writing s
    \<and> snap_count (snapshot_record a r) = snap_count r + 1"
proof -
  have five: "[0..<5] = [0, 1, 2, 3, 4 :: nat]" by (simp add: upt_rec)
  have "snap_index r (snap_count r + 1) < length (snap_slots r)" using assms(1) by (simp add: snap_index_def)
  then show ?thesis using assms(2)
    by (simp add: snapshot_record_def Let_def upd_slot_def snap_index_def five store_field_def holds_def)
      (intro exI conjI, rule refl, simp_all)
qed

lemma ring_rep_record:
  assumes R: "ring_rep n r rs" and n: "0 < n" "Suc (length rs) < 2 ^ 63"
  shows "ring_rep n (snapshot_record a r) (rs @ [a])"
proof -
  have L: "length (snap_slots r) = n" and c: "unat (snap_count r) = length rs" using R by (simp_all add: ring_rep_def)
  have sc: "snap_count r = of_nat (length rs)" by (simp flip: c)
  have q: "unat (snap_count r + 1) = Suc (length rs)" using c n(2) by (simp add: unat_inc)
  have i: "snap_index r (snap_count r + 1) = length rs mod n" by (simp add: snap_index_def L c)
  have ne: "length rs mod n < n" "snap_slots r \<noteq> []" using n(1) L by auto
  then have free: "\<not> sl_writing (snap_slots r ! snap_index r (snap_count r + 1))" using R i by (simp add: ring_rep_def)
  obtain s where S: "snap_slots (snapshot_record a r) = (snap_slots r)[length rs mod n := s]"
      "sl_seq s = published (snap_count r + 1)" "holds 5 s a" "\<not> sl_writing s"
      "snap_count (snapshot_record a r) = snap_count r + 1"
    using snapshot_record_slots [OF ne(2) free, of a] i by auto
  have other: "k mod n \<noteq> length rs mod n" if "k < length rs" "Suc (length rs) \<le> k + n" for k
  proof
    assume "k mod n = length rs mod n"
    then have "(k + 0) mod n = (k + (length rs - k)) mod n" using that(1) by simp
    from mod_add_cancel_eq [OF this] show False using that n(1) by linarith
  qed
  show ?thesis unfolding ring_rep_def
  proof (intro conjI allI impI)
    show "unat (snap_count (snapshot_record a r)) = length (rs @ [a])" using S(5) q by simp
  next
    fix k assume k: "k < length (rs @ [a])" "length (rs @ [a]) \<le> k + n"
    then have "k = length rs \<or> k < length rs \<and> length rs \<le> k + n \<and> k mod n \<noteq> length rs mod n"
      using other [of k] by auto
    then show "sl_seq (snap_slots (snapshot_record a r) ! (k mod n)) = published (of_nat (Suc k))"
      "holds 5 (snap_slots (snapshot_record a r) ! (k mod n)) ((rs @ [a]) ! k)"
      using R S(1-3) L ne(1) by (auto simp: ring_rep_def nth_append sc add.commute)
  qed (use R S(1,4) L in \<open>auto simp: ring_rep_def nth_list_update\<close>)
qed

lemma ring_rep_run:
  assumes "0 < n" "length rs < 2 ^ 63"
  shows "ring_rep (unat n) (fold snapshot_record rs (snap_ring_new n)) rs"
  using assms(2)
proof (induction rs rule: rev_induct)
  case Nil
  then show ?case by (simp add: ring_rep_def snap_ring_new_def snap_slot_zero_def)
next
  case (snoc a rs)
  then show ?case using ring_rep_record [of "unat n"] assms(1) by (simp add: word_less_nat_alt)
qed

lemma load_fields:
  "fold (\<lambda>k a. load_field k s a) [0..<5] (snap_out seq) =
     \<lparr>sn_target = sl_target s, sn_disposition = sl_disposition s, sn_reason = sl_reason s, sn_seq = seq,
      sn_now_ns = sl_now_ns s, sn_budget_ns = sl_budget_ns s\<rparr>"
  by (simp add: upt_rec load_field_def snap_out_def)

lemma ring_rep_lookup:
  assumes R: "ring_rep n r rs" and k: "k < length rs" "length rs \<le> k + n" "0 < n" "length rs < 2 ^ 63"
  shows "snapshot_lookup (of_nat (Suc k)) r = Inr ((rs ! k)\<lparr>sn_seq := of_nat (Suc k)\<rparr>)"
proof -
  have u: "unat (of_nat (Suc k) :: u64) = Suc k" using k by (intro unat_of_nat_small) simp
  have c: "unat (snap_count r) = length rs" and L: "length (snap_slots r) = n" using R by (simp_all add: ring_rep_def)
  have z: "of_nat (Suc k) \<noteq> (0 :: u64)" "of_nat (Suc k) \<le> snap_count r" "snap_count r \<noteq> 0"
    using u c k(1) by (auto simp: word_unat_eq_iff [of _ 0] word_le_nat_alt simp del: of_nat_Suc)
  then have "unat (snap_count r - of_nat (Suc k)) = length rs - Suc k" using u c by (simp add: unat_sub del: of_nat_Suc)
  then have "lookup_range n (snap_count r) (of_nat (Suc k)) = None"
    using z k by (auto simp: lookup_range_def simp del: of_nat_Suc)
  moreover have "snap_index r (of_nat (Suc k)) = k mod n" using k by (simp add: snap_index_def L unat_of_nat_small)
  ultimately show ?thesis using R k L
    by (simp add: snapshot_lookup_def Let_def load_fields ring_rep_def holds_def del: of_nat_Suc)
qed

section \<open>A thread running alone\<close>

text \<open>Steps of one thread without interference make up the sequential operations.\<close>
definition solo :: "AdmissionSnapshotRing \<Rightarrow> SnapPc \<Rightarrow> AdmissionSnapshot list \<Rightarrow>
    (u64 \<times> (SnapshotError + AdmissionSnapshot)) list \<Rightarrow> SnapSystem" where
  "solo r p C res = \<lparr>snap_ring = r, snap_pc = (\<lambda>t. SIdle)(0 := p), snap_calls = C, snap_results = res\<rparr>"

lemma solo_goto:
  "(solo r p C res)\<lparr>snap_ring := r'\<rparr> = solo r' p C res" "(solo r p C res)\<lparr>snap_calls := C'\<rparr> = solo r p C' res"
  "(solo r p C res)\<lparr>snap_results := res'\<rparr> = solo r p C res'" "goto (solo r p C res) 0 p' = solo r p' C res"
  by (simp_all add: solo_def)

lemma solo_sel [simp]:
  "snap_ring (solo r p C res) = r" "snap_pc (solo r p C res) 0 = p" "snap_calls (solo r p C res) = C"
  "snap_results (solo r p C res) = res"
  by (simp_all add: solo_def)

lemma solo_fields:
  "k \<le> 5 \<Longrightarrow> snap_step\<^sup>*\<^sup>* (solo r (WFields q a k) C res)
     (solo (fold (\<lambda>k r. upd_slot r q (store_field k a)) [k..<5] r) (WFields q a 5) C res)"
proof (induction "5 - k" arbitrary: k r)
  case (Suc n)
  then have "snap_step (solo r (WFields q a k) C res) (solo (upd_slot r q (store_field k a)) (WFields q a (Suc k)) C res)"
    using w_field [of "solo r (WFields q a k) C res" 0 q a k] by (simp add: solo_goto)
  moreover have "[k..<5] = k # [Suc k..<5]" using Suc.hyps(2) by (simp add: upt_conv_Cons)
  ultimately show ?case using Suc.hyps(1) [of "Suc k" "upd_slot r q (store_field k a)"] Suc.hyps(2)
    by (simp add: converse_rtranclp_into_rtranclp)
qed simp

lemma solo_loads:
  "k \<le> 5 \<Longrightarrow> snap_step\<^sup>*\<^sup>* (solo r (RFields q out k) C res)
     (solo r (RFields q (fold (\<lambda>k a. load_field k (snap_slots r ! snap_index r q) a) [k..<5] out) 5) C res)"
proof (induction "5 - k" arbitrary: k out)
  case (Suc n)
  let ?o = "load_field k (snap_slots r ! snap_index r q) out"
  have "snap_step (solo r (RFields q out k) C res) (solo r (RFields q ?o (Suc k)) C res)"
    using Suc r_field [of "solo r (RFields q out k) C res" 0 q out k] by (simp add: solo_goto)
  moreover have "[k..<5] = k # [Suc k..<5]" using Suc.hyps(2) by (simp add: upt_conv_Cons)
  ultimately show ?case using Suc.hyps(1) [of "Suc k" ?o] Suc.hyps(2)
    by (simp add: converse_rtranclp_into_rtranclp)
qed simp

lemma solo_record: "snap_step\<^sup>*\<^sup>* (solo r SIdle C res) (solo (snapshot_record a r) SIdle (C @ [a]) res)"
proof -
  let ?q = "snap_count r + 1" and ?C = "C @ [a]" and ?u = "\<lambda>f r. upd_slot r (snap_count r + 1) f"
  define r0 where "r0 = r\<lparr>snap_count := ?q\<rparr>"
  define r1 where "r1 = upd_slot r0 ?q (\<lambda>s. s\<lparr>sl_writing := True\<rparr>)"
  define r2 where "r2 = upd_slot r1 ?q (\<lambda>s. s\<lparr>sl_seq := published ?q OR 1\<rparr>)"
  define r3 where "r3 = fold (\<lambda>k r. upd_slot r ?q (store_field k a)) [0..<5] r2"
  define r4 where "r4 = upd_slot r3 ?q (\<lambda>s. s\<lparr>sl_seq := published ?q\<rparr>)"
  define r5 where "r5 = upd_slot r4 ?q (\<lambda>s. s\<lparr>sl_writing := False\<rparr>)"
  have 0: "snap_step (solo r SIdle C res) (solo r0 (WFetched ?q a) ?C res)"
    using w_fetch [of "solo r SIdle C res" 0 ?q a] by (simp add: solo_goto r0_def)
  show ?thesis
  proof (cases "sl_writing (snap_slots r0 ! snap_index r0 ?q)")
    case True
    then have "snap_step (solo r0 (WFetched ?q a) ?C res) (solo (snapshot_record a r) SIdle ?C res)"
      using w_drop [of "solo r0 (WFetched ?q a) ?C res" 0 ?q a]
      by (simp add: solo_goto snapshot_record_def Let_def r0_def)
    then show ?thesis using 0 by (meson r_into_rtranclp rtranclp.rtrancl_into_rtrancl)
  next
    case False
    then have "snap_step (solo r0 (WFetched ?q a) ?C res) (solo r1 (WOwner ?q a) ?C res)"
      using w_claim [of "solo r0 (WFetched ?q a) ?C res" 0 ?q a] by (simp add: solo_goto r1_def)
    moreover have "snap_step (solo r1 (WOwner ?q a) ?C res) (solo r2 (WFields ?q a 0) ?C res)"
      using w_odd [of "solo r1 (WOwner ?q a) ?C res" 0 ?q a] by (simp add: solo_goto r2_def)
    moreover have "snap_step\<^sup>*\<^sup>* (solo r2 (WFields ?q a 0) ?C res) (solo r3 (WFields ?q a 5) ?C res)"
      unfolding r3_def by (rule solo_fields) simp
    moreover have "snap_step (solo r3 (WFields ?q a 5) ?C res) (solo r4 (WDone ?q a) ?C res)"
      using w_even [of "solo r3 (WFields ?q a 5) ?C res" 0 ?q a] by (simp add: solo_goto r4_def)
    moreover have "snap_step (solo r4 (WDone ?q a) ?C res) (solo r5 SIdle ?C res)"
      using w_clear [of "solo r4 (WDone ?q a) ?C res" 0 ?q a] by (simp add: solo_goto r5_def)
    ultimately have "snap_step\<^sup>*\<^sup>* (solo r0 (WFetched ?q a) ?C res) (solo r5 SIdle ?C res)"
      by (meson converse_rtranclp_into_rtranclp rtranclp.rtrancl_into_rtrancl)
    moreover have "snapshot_record a r = r5"
      using False by (simp add: snapshot_record_def Let_def r0_def r1_def r2_def r3_def r4_def r5_def)
    ultimately show ?thesis using 0 by (simp add: converse_rtranclp_into_rtranclp)
  qed
qed

lemma solo_lookup:
  "snap_step\<^sup>*\<^sup>* (solo r SIdle C res) (solo r SIdle C (res @ [(q, snapshot_lookup q r)]))"
proof (cases "lookup_range (length (snap_slots r)) (snap_count r) q")
  case (Some e)
  then show ?thesis using r_refuse [of "solo r SIdle C res" 0 q e]
    by (auto simp: solo_goto snapshot_lookup_def)
next
  case None
  let ?s = "snap_slots r ! snap_index r q"
  have s: "snap_step (solo r SIdle C res) (solo r (RStart q) C res)"
    using None r_start [of "solo r SIdle C res" 0 q] by (simp add: solo_goto)
  show ?thesis
  proof (cases "sl_seq ?s = published q")
    case False
    then have "snap_step (solo r (RStart q) C res) (solo r SIdle C (res @ [(q, Inl kTorn)]))"
      using r_torn [of "solo r (RStart q) C res" 0 q] by (simp add: solo_goto)
    then show ?thesis using s None False by (simp add: snapshot_lookup_def Let_def)
  next
    case True
    define out where "out = fold (\<lambda>k a. load_field k ?s a) [0..<5] (snap_out q)"
    have "snap_step (solo r (RStart q) C res) (solo r (RFields q (snap_out q) 0) C res)"
      using True r_enter [of "solo r (RStart q) C res" 0 q] by (simp add: solo_goto)
    moreover have "snap_step\<^sup>*\<^sup>* (solo r (RFields q (snap_out q) 0) C res) (solo r (RFields q out 5) C res)"
      unfolding out_def by (rule solo_loads) simp
    moreover have "snap_step (solo r (RFields q out 5) C res) (solo r SIdle C (res @ [(q, Inr out)]))"
      using True r_success [of "solo r (RFields q out 5) C res" 0 q out] by (simp add: solo_goto)
    moreover have "snapshot_lookup q r = Inr out" using None True by (simp add: snapshot_lookup_def Let_def out_def)
    ultimately show ?thesis using s by simp
  qed
qed

lemma solo_start: "snap_start n = solo (snap_ring_new n) SIdle [] []"
  by (simp add: snap_start_def solo_def fun_eq_iff)

section \<open>Counters\<close>

datatype MonitorOp =
    AddDirect TargetId u64 | AddDispatcher TargetId u64 | DirectTimeoutOf TargetId | RtcTimeoutOf TargetId
  | RejectionOf TargetId RejectReason | ContentionOf TargetId | PendingOf TargetId u16
  | SampleOf PriorityClass u8 | OverflowOp | DispositionOf SubmitDisposition | HeartbeatOp | PlatformFaultOp

fun monitor_op :: "MonitorOp \<Rightarrow> Monitor \<Rightarrow> Monitor" where
  "monitor_op (AddDirect ao ns) = add_direct_duration ao ns"
| "monitor_op (AddDispatcher ao ns) = add_dispatcher_duration ao ns"
| "monitor_op (DirectTimeoutOf ao) = record_direct_timeout ao"
| "monitor_op (RtcTimeoutOf ao) = record_rtc_timeout ao"
| "monitor_op (RejectionOf ao rr) = record_rejection ao rr"
| "monitor_op (ContentionOf ao) = record_lease_contention ao"
| "monitor_op (PendingOf ao n) = record_pending ao n"
| "monitor_op (SampleOf p pct) = sample_watermark p pct"
| "monitor_op OverflowOp = record_overflow"
| "monitor_op (DispositionOf d) = record_disposition d"
| "monitor_op HeartbeatOp = record_heartbeat"
| "monitor_op PlatformFaultOp = record_platform_fault"

definition monitor_inv :: "Monitor \<Rightarrow> bool" where
  "monitor_inv m \<longleftrightarrow> mon_ao m \<noteq> [] \<and> mon_ao m ! 0 = ao_counters_zero
     \<and> (\<forall>i < length (mon_ao m). length (rejections (mon_ao m ! i)) = 9
          \<and> ao_pending (mon_ao m ! i) \<le> ao_pending_max (mon_ao m ! i)
          \<and> ao_pending_max (mon_ao m ! i) \<le> global_pending_max (mon_global m))"

lemma upd_ao_frame [simp]:
  "mon_global (upd_ao m ao f) = mon_global m" "length (mon_ao (upd_ao m ao f)) = length (mon_ao m)"
  "mon_slot (upd_ao m ao f) t = mon_slot m t" "mon_ao (upd_ao m ao f) = [] \<longleftrightarrow> mon_ao m = []"
  by (simp_all add: upd_ao_def mon_slot_def split: option.split)

lemma mon_slot_bounds: "mon_ao m \<noteq> [] \<Longrightarrow> mon_slot m ao = Some i \<Longrightarrow> 0 < i \<and> i < length (mon_ao m)"
  by (auto simp: mon_slot_def kInvalidTarget_def unat_gt_0 not_less split: if_splits) (metis One_nat_def diff_less le_less_trans length_greater_0_conv less_Suc_eq_0_disj)

lemma upd_ao_nth:
  "mon_ao m \<noteq> [] \<Longrightarrow> mon_ao (upd_ao m ao f) ! i = (if mon_slot m ao = Some i then f (mon_ao m ! i) else mon_ao m ! i)"
  using mon_slot_bounds [of m ao] by (auto simp: upd_ao_def split: option.split)

text \<open>An update that does not touch the pending marks.\<close>
lemma upd_ao_inv:
  assumes "monitor_inv m" "\<And>s. ao_pending (f s) = ao_pending s \<and> ao_pending_max (f s) = ao_pending_max s"
    "\<And>s. length (rejections (f s)) = length (rejections s)"
  shows "monitor_inv (upd_ao m ao f)"
  using assms mon_slot_bounds [of m ao 0]
  by (auto simp: monitor_inv_def upd_ao_nth simp flip: length_greater_0_conv)

lemma record_pending_inv:
  assumes I: "monitor_inv m"
  shows "monitor_inv (record_pending ao n m)"
proof (cases "mon_slot m ao")
  case None
  then show ?thesis using I by (simp add: record_pending_def)
next
  case (Some i)
  have ne: "mon_ao m \<noteq> []" using I by (simp add: monitor_inv_def)
  note b = mon_slot_bounds [OF ne Some]
  have B: "ao_pending_max (mon_ao m ! j) \<le> global_pending_max (mon_global m)" "ao_pending (mon_ao m ! j) \<le> ao_pending_max (mon_ao m ! j)"
    "length (rejections (mon_ao m ! j)) = 9" if "j < length (mon_ao m)" for j
    using I that by (simp_all add: monitor_inv_def)
  have z: "mon_ao m ! 0 = ao_counters_zero" using I by (simp add: monitor_inv_def)
  show ?thesis
    using Some b ne z B
    by (auto simp: record_pending_def Let_def monitor_inv_def upd_ao_nth not_less intro: order_trans [OF _ less_imp_le])
qed

lemma upd_global_inv:
  "monitor_inv m \<Longrightarrow> (\<And>g. global_pending_max (f g) = global_pending_max g) \<Longrightarrow> monitor_inv (upd_global m f)"
  by (simp add: monitor_inv_def upd_global_def)

lemma record_disposition_inv: "monitor_inv m \<Longrightarrow> monitor_inv (record_disposition d m)"
  by (cases d) (simp_all add: upd_global_inv)

lemma monitor_op_inv: "monitor_inv m \<Longrightarrow> monitor_inv (monitor_op op m)"
proof (cases op)
  case (SampleOf p pct)
  then show "monitor_inv m \<Longrightarrow> ?thesis" by (simp add: sample_watermark_def Let_def monitor_inv_def)
qed (simp_all add: add_direct_duration_def add_dispatcher_duration_def record_direct_timeout_def record_rtc_timeout_def
    record_rejection_def record_lease_contention_def record_pending_inv record_disposition_inv record_overflow_def
    record_heartbeat_def record_platform_fault_def upd_ao_inv upd_global_inv)

section \<open>Properties\<close>

text \<open>
  With accesses in source order a snapshot lookup never returns a mix of two records: however
  any number of recording and reading threads interleave, every successful lookup of a
  sequence number returns all five fields of the one record that was given this number, as
  long as fewer than 2^63 records have been made.
\<close>
lemma snapshot_lookup_never_mixed:
  assumes "snap_step\<^sup>*\<^sup>* (snap_start n) y" and "n \<noteq> 0" and "length (snap_calls y) < 2 ^ 63"
    and "(seq, Inr out) \<in> set (snap_results y)"
  shows "0 < unat seq \<and> unat seq \<le> length (snap_calls y) \<and> out = (snap_calls y ! (unat seq - 1))\<lparr>sn_seq := seq\<rparr>"
proof -
  have "results_ok (snap_calls y) (snap_results y)" using reachable_view [OF assms(1-3)] by blast
  then have "0 < unat seq" "unat seq \<le> length (snap_calls y)" "sn_seq out = seq" "agrees 5 out (snap_calls y ! (unat seq - 1))"
    using assms(4) by (auto simp: results_ok_def)
  then show ?thesis by (simp add: agrees_def)
qed

text \<open>
  C33. Without interference the ring keeps exactly the latest records: after any sequence of
  \<^verbatim>\<open>record\<close> calls a lookup of one of the last n sequence numbers returns its record, an older
  one is reported evicted, and a number never given is out of range.
\<close>
theorem snapshot_record_lookup_roundtrip:
  assumes "0 < n" and "length rs < 2 ^ 63"
  shows "snapshot_lookup seq (fold snapshot_record rs (snap_ring_new n)) =
    (if rs = [] then Inl kEmpty
     else if seq = 0 \<or> unat seq > length rs then Inl kOutOfRange
     else if unat seq + unat n \<le> length rs then Inl kEvicted
     else Inr ((rs ! (unat seq - 1))\<lparr>sn_seq := seq\<rparr>))"
proof -
  let ?r = "fold snapshot_record rs (snap_ring_new n)"
  have R: "ring_rep (unat n) ?r rs" by (rule ring_rep_run [OF assms])
  then have c: "unat (snap_count ?r) = length rs" and L: "length (snap_slots ?r) = unat n" by (simp_all add: ring_rep_def)
  have z: "snap_count ?r = 0 \<longleftrightarrow> rs = []" using c by (metis length_0_conv unat_eq_zero)
  have gt: "seq > snap_count ?r \<longleftrightarrow> unat seq > length rs" by (simp add: word_less_nat_alt c)
  show ?thesis
  proof (cases "rs = [] \<or> seq = 0 \<or> unat seq > length rs")
    case True
    then show ?thesis using z gt by (auto simp: snapshot_lookup_def lookup_range_def)
  next
    case False
    then have u: "0 < unat seq" by (simp add: unat_gt_0)
    have "unat (snap_count ?r - seq) = length rs - unat seq" using False c by (simp add: unat_sub word_le_nat_alt)
    moreover have "snapshot_lookup (of_nat (Suc (unat seq - 1))) ?r = Inr ((rs ! (unat seq - 1))\<lparr>sn_seq := of_nat (Suc (unat seq - 1))\<rparr>)"
      if "length rs < unat seq + unat n"
      using False that assms by (intro ring_rep_lookup [OF R]) (use u in \<open>auto simp: word_less_nat_alt\<close>)
    moreover have "Suc (unat seq - 1) = unat seq" using u by simp
    ultimately show ?thesis using False z gt L
      by (auto simp: snapshot_lookup_def lookup_range_def not_le simp del: of_nat_Suc)
  qed
qed

theorem snapshot_record_lookup_roundtrip_witness:
  "snapshot_lookup 2 (fold snapshot_record [snap_out 7, snap_out 8] (snap_ring_new 1)) = Inr (snap_out 2)
   \<and> snapshot_lookup 1 (fold snapshot_record [snap_out 7, snap_out 8] (snap_ring_new 1)) = Inl kEvicted"
  using snapshot_record_lookup_roundtrip [of 1 "[snap_out 7, snap_out 8]" 2]
    snapshot_record_lookup_roundtrip [of 1 "[snap_out 7, snap_out 8]" 1]
  by (simp add: snap_out_def)

text \<open>
  Telemetry keeps its bounds: whatever sequence of accounting calls is made, for valid and
  invalid targets, slot 0 stays zero (it is what an invalid target reads), the current pending
  count of a target never exceeds its recorded maximum, and no target's maximum exceeds the
  global one.
\<close>
lemma monitor_bounds_kept:
  "monitor_inv (fold monitor_op ops (monitor_new cfg n))
   \<and> (mon_slot (fold monitor_op ops (monitor_new cfg n)) ao = None
      \<longrightarrow> ao_counters ao (fold monitor_op ops (monitor_new cfg n)) = ao_counters_zero)"
proof -
  have "monitor_inv (monitor_new cfg n)"
    by (auto simp: monitor_inv_def monitor_new_def ao_counters_zero_def nth_Cons' global_counters_zero_def simp del: replicate.simps)
  then have "monitor_inv (fold monitor_op ops (monitor_new cfg n))"
    by (induction ops rule: rev_induct) (simp_all add: monitor_op_inv)
  then show ?thesis by (auto simp: ao_counters_def monitor_inv_def)
qed

end
