(* ===== verification/Admission.thy ===== *)
theory Admission
  imports Coact_Config
begin

text \<open>
  The admission strategies: the token bucket and the merge cell of policy.hpp, and the
  arrival gates and rule tables of admission.hpp.

  \<^item> Every gate operation runs inside one critical section and is one step.
  \<^item> The merge cell is a word of atomic states and a plain event pointer; \<^verbatim>\<open>merge_step\<close> interleaves
    producers and consumers at the level of single accesses.
  \<^item> A reservation handle is a move-only object: the gate it holds, if any, and its time.
\<close>

section \<open>Policy results and the token bucket\<close>

record PolicyResult =
  accept :: bool
  try_merge :: bool
  policy_reason :: u16

definition kReasonOk :: u16 where "kReasonOk = 0"
definition kReasonFiltered :: u16 where "kReasonFiltered = 1"
definition kReasonRateLimit :: u16 where "kReasonRateLimit = 2"
definition kReasonCriticalBlocked :: u16 where "kReasonCriticalBlocked = 3"

record RateLimitRule =
  rl_capacity :: u64
  rl_rate :: u64
  rl_refill_interval :: u64
  rl_enabled :: bool

record TokenBucket =
  tb_rule :: RateLimitRule
  tb_tokens :: u64
  tb_last :: u64

definition bucket_init :: "RateLimitRule \<Rightarrow> u64 \<Rightarrow> TokenBucket" where
  "bucket_init rule now = \<lparr>tb_rule = rule, tb_tokens = rl_capacity rule, tb_last = now\<rparr>"

definition bucket_refill :: "u64 \<Rightarrow> TokenBucket \<Rightarrow> TokenBucket" where
  "bucket_refill now b =
     (if rl_refill_interval (tb_rule b) = 0 then b
      else if now \<le> tb_last b then b
      else
        let elapsed = now - tb_last b; added = elapsed div rl_refill_interval (tb_rule b)
        in if added = 0 then b
           else
             let gain = added * rl_rate (tb_rule b); room = rl_capacity (tb_rule b) - tb_tokens b
             in if gain \<ge> room then b\<lparr>tb_last := now, tb_tokens := rl_capacity (tb_rule b)\<rparr>
                else b\<lparr>tb_last := now, tb_tokens := tb_tokens b + gain\<rparr>)"

definition bucket_acquire :: "u64 \<Rightarrow> TokenBucket \<Rightarrow> bool \<times> TokenBucket" where
  "bucket_acquire now b =
     (if \<not> rl_enabled (tb_rule b) then (True, b)
      else let b1 = bucket_refill now b
           in if tb_tokens b1 > 0 then (True, b1\<lparr>tb_tokens := tb_tokens b1 - 1\<rparr>) else (False, b1))"

section \<open>The merge cell\<close>

datatype MergeCellState = McEmpty | McPublishing | McPublished | McMerging | McConsuming

record MergeCell =
  mc_target :: TargetId
  mc_signal :: u16
  mc_state :: MergeCellState
  mc_event :: nat

definition merge_init :: "TargetId \<Rightarrow> u16 \<Rightarrow> MergeCell" where
  "merge_init target sig = \<lparr>mc_target = target, mc_signal = sig, mc_state = McEmpty, mc_event = 0\<rparr>"

definition try_publish :: "nat \<Rightarrow> MergeCell \<Rightarrow> bool \<times> MergeCell" where
  "try_publish e c =
     (if e = 0 then (False, c)
      else if mc_state c \<noteq> McEmpty then (False, c)
      else (True, c\<lparr>mc_event := e, mc_state := McPublished\<rparr>))"

definition try_acquire_merge :: "MergeCell \<Rightarrow> nat option \<times> MergeCell" where
  "try_acquire_merge c =
     (if mc_state c \<noteq> McPublished then (None, c) else (Some (mc_event c), c\<lparr>mc_state := McMerging\<rparr>))"

definition release_merge :: "MergeCell \<Rightarrow> MergeCell" where
  "release_merge c = (if mc_state c = McMerging then c\<lparr>mc_state := McPublished\<rparr> else c)"

definition take_owning :: "MergeCell \<Rightarrow> nat option \<times> MergeCell" where
  "take_owning c =
     (if mc_state c \<noteq> McPublished then (None, c) else (Some (mc_event c), c\<lparr>mc_state := McConsuming\<rparr>))"

definition release_empty :: "MergeCell \<Rightarrow> MergeCell" where
  "release_empty c =
     (let c1 = c\<lparr>mc_event := 0\<rparr> in if mc_state c1 = McConsuming then c1\<lparr>mc_state := McEmpty\<rparr> else c1)"

text \<open>Where a thread is between the accesses of the operations above.\<close>
datatype MergePc =
    MgIdle
  | MgClaimed nat
  | MgStored nat
  | MgMergeClaimed
  | MgMerging nat
  | MgTakeClaimed
  | MgOwning nat
  | MgCleared nat

record MergeSystem =
  mg_cell :: MergeCell
  mg_pc :: "nat \<Rightarrow> MergePc"
  mg_published :: "nat list"
  mg_taken :: "nat list"

abbreviation mg_goto :: "MergeSystem \<Rightarrow> nat \<Rightarrow> MergePc \<Rightarrow> MergeSystem" where
  "mg_goto y t p \<equiv> y\<lparr>mg_pc := (mg_pc y)(t := p)\<rparr>"

abbreviation mg_state :: "MergeSystem \<Rightarrow> MergeCellState" where
  "mg_state y \<equiv> mc_state (mg_cell y)"

inductive merge_step :: "MergeSystem \<Rightarrow> MergeSystem \<Rightarrow> bool" where
  mg_claim: "\<lbrakk>mg_pc y t = MgIdle; e \<noteq> 0; mg_state y = McEmpty\<rbrakk> \<Longrightarrow>
     merge_step y ((mg_goto y t (MgClaimed e))\<lparr>mg_cell := (mg_cell y)\<lparr>mc_state := McPublishing\<rparr>\<rparr>)"
| mg_store: "mg_pc y t = MgClaimed e \<Longrightarrow>
     merge_step y ((mg_goto y t (MgStored e))\<lparr>mg_cell := (mg_cell y)\<lparr>mc_event := e\<rparr>\<rparr>)"
| mg_release: "mg_pc y t = MgStored e \<Longrightarrow>
     merge_step y ((mg_goto y t MgIdle)\<lparr>mg_cell := (mg_cell y)\<lparr>mc_state := McPublished\<rparr>, mg_published := mg_published y @ [e]\<rparr>)"
| mg_merge_claim: "\<lbrakk>mg_pc y t = MgIdle; mg_state y = McPublished\<rbrakk> \<Longrightarrow>
     merge_step y ((mg_goto y t MgMergeClaimed)\<lparr>mg_cell := (mg_cell y)\<lparr>mc_state := McMerging\<rparr>\<rparr>)"
| mg_merge_read: "mg_pc y t = MgMergeClaimed \<Longrightarrow> merge_step y (mg_goto y t (MgMerging (mc_event (mg_cell y))))"
| mg_merge_done: "mg_pc y t = MgMerging q \<Longrightarrow>
     merge_step y ((mg_goto y t MgIdle)\<lparr>mg_cell := release_merge (mg_cell y)\<rparr>)"
| mg_take_claim: "\<lbrakk>mg_pc y t = MgIdle; mg_state y = McPublished\<rbrakk> \<Longrightarrow>
     merge_step y ((mg_goto y t MgTakeClaimed)\<lparr>mg_cell := (mg_cell y)\<lparr>mc_state := McConsuming\<rparr>\<rparr>)"
| mg_take_read: "mg_pc y t = MgTakeClaimed \<Longrightarrow>
     merge_step y ((mg_goto y t (MgOwning (mc_event (mg_cell y))))\<lparr>mg_taken := mg_taken y @ [mc_event (mg_cell y)]\<rparr>)"
| mg_clear: "mg_pc y t = MgOwning q \<Longrightarrow>
     merge_step y ((mg_goto y t (MgCleared q))\<lparr>mg_cell := (mg_cell y)\<lparr>mc_event := 0\<rparr>\<rparr>)"
| mg_empty: "mg_pc y t = MgCleared q \<Longrightarrow>
     merge_step y ((mg_goto y t MgIdle)\<lparr>mg_cell := (mg_cell y)\<lparr>mc_state := (if mg_state y = McConsuming then McEmpty else mg_state y)\<rparr>\<rparr>)"

section \<open>Rule tables\<close>

definition kMaxMinArrivalNs :: u64 where "kMaxMinArrivalNs = 3600 * 1000000000"

record TargetAdmission =
  ta_target :: TargetId
  ta_min_arrival :: u64
  ta_max_backlog :: u16

record TargetLimits =
  min_arrival :: u64
  max_backlog :: u16

definition no_limits :: TargetLimits where
  "no_limits = \<lparr>min_arrival = 0, max_backlog = 0\<rparr>"

definition targets_in_range :: "TargetAdmission list \<Rightarrow> u8 \<Rightarrow> bool" where
  "targets_in_range rows max_ao \<longleftrightarrow> list_all (\<lambda>r. \<not> (0 = ta_target r \<or> ta_target r > max_ao)) rows"

fun no_duplicate_targets :: "TargetAdmission list \<Rightarrow> bool" where
  "no_duplicate_targets [] = True"
| "no_duplicate_targets (r # rs) = (list_all (\<lambda>s. ta_target r \<noteq> ta_target s) rs \<and> no_duplicate_targets rs)"

definition intervals_bounded :: "TargetAdmission list \<Rightarrow> bool" where
  "intervals_bounded rows \<longleftrightarrow> list_all (\<lambda>r. \<not> ta_min_arrival r > kMaxMinArrivalNs) rows"

definition rules_valid :: "TargetAdmission list \<Rightarrow> u8 \<Rightarrow> bool" where
  "rules_valid rows max_ao \<longleftrightarrow> targets_in_range rows max_ao \<and> no_duplicate_targets rows \<and> intervals_bounded rows"

section \<open>The arrival gate\<close>

record ArrivalGate =
  last_admit_ns :: u64
  hold_ns :: u64
  holds :: u16
  ever :: bool

definition gate_new :: ArrivalGate where
  "gate_new = \<lparr>last_admit_ns = 0, hold_ns = 0, holds = 0, ever = False\<rparr>"

definition kMaxHolds :: u16 where "kMaxHolds = 0xFFFF"

definition gate_try_reserve :: "u64 \<Rightarrow> u64 \<Rightarrow> ArrivalGate \<Rightarrow> bool \<times> ArrivalGate" where
  "gate_try_reserve now min_ns g =
     (let held = (0 \<noteq> holds g); barrier = (if held then hold_ns g else last_admit_ns g)
      in if 0 \<noteq> min_ns \<and> (held \<or> ever g) \<and> (now < barrier \<or> now - barrier < min_ns) then (False, g)
         else if kMaxHolds = holds g then (False, g)
         else (True, g\<lparr>hold_ns := now, holds := holds g + 1\<rparr>))"

definition release_hold :: "ArrivalGate \<Rightarrow> ArrivalGate" where
  "release_hold g =
     (if 0 \<noteq> holds g then
        let g1 = g\<lparr>holds := holds g - 1\<rparr> in if 0 = holds g1 then g1\<lparr>hold_ns := 0\<rparr> else g1
      else g)"

definition gate_commit :: "u64 \<Rightarrow> ArrivalGate \<Rightarrow> ArrivalGate" where
  "gate_commit now g =
     (let g1 = g\<lparr>ever := True\<rparr>; g2 = (if now > last_admit_ns g1 then g1\<lparr>last_admit_ns := now\<rparr> else g1)
      in release_hold g2)"

definition gate_rollback :: "ArrivalGate \<Rightarrow> ArrivalGate" where
  "gate_rollback g = release_hold g"

section \<open>The static admission policy\<close>

record StaticAdmission =
  adm_rules :: "TargetAdmission list"
  adm_max_ao :: u8
  adm_gates :: "ArrivalGate list"

definition build_index :: "TargetAdmission list \<Rightarrow> u8 \<Rightarrow> TargetLimits list" where
  "build_index rows max_ao =
     fold (\<lambda>row index. index[unat (ta_target row) := \<lparr>min_arrival = ta_min_arrival row, max_backlog = ta_max_backlog row\<rparr>])
       rows (replicate (unat max_ao + 1) no_limits)"

definition static_admission_new :: "TargetAdmission list \<Rightarrow> u8 \<Rightarrow> StaticAdmission" where
  "static_admission_new rows max_ao =
     \<lparr>adm_rules = rows, adm_max_ao = max_ao, adm_gates = replicate (unat max_ao + 1) gate_new\<rparr>"

definition limits_for :: "TargetId \<Rightarrow> StaticAdmission \<Rightarrow> TargetLimits" where
  "limits_for target a =
     (let index = build_index (adm_rules a) (adm_max_ao a)
      in if target \<le> adm_max_ao a then index ! unat target else index ! 0)"

definition backlog_cap :: "TargetId \<Rightarrow> StaticAdmission \<Rightarrow> u16" where
  "backlog_cap target a = max_backlog (limits_for target a)"

definition gate_index :: "TargetId \<Rightarrow> StaticAdmission \<Rightarrow> nat" where
  "gate_index target a = (if target \<le> adm_max_ao a then unat target else 0)"

text \<open>A reservation handle: the gate it holds, or none, and the time it reserved.\<close>
record ArrivalReservation =
  res_gate :: "nat option"
  res_now :: u64

definition inert_reservation :: ArrivalReservation where
  "inert_reservation = \<lparr>res_gate = None, res_now = 0\<rparr>"

definition upd_gate :: "nat \<Rightarrow> (ArrivalGate \<Rightarrow> ArrivalGate) \<Rightarrow> StaticAdmission \<Rightarrow> StaticAdmission" where
  "upd_gate i f a = a\<lparr>adm_gates := (adm_gates a)[i := f (adm_gates a ! i)]\<rparr>"

definition reservation_commit :: "ArrivalReservation \<Rightarrow> StaticAdmission \<Rightarrow> ArrivalReservation \<times> StaticAdmission" where
  "reservation_commit r a =
     (case res_gate r of
        None \<Rightarrow> (r, a)
      | Some i \<Rightarrow> (r\<lparr>res_gate := None\<rparr>, upd_gate i (gate_commit (res_now r)) a))"

definition reservation_rollback :: "ArrivalReservation \<Rightarrow> StaticAdmission \<Rightarrow> ArrivalReservation \<times> StaticAdmission" where
  "reservation_rollback r a =
     (case res_gate r of
        None \<Rightarrow> (r, a)
      | Some i \<Rightarrow> (r\<lparr>res_gate := None\<rparr>, upd_gate i gate_rollback a))"

text \<open>Move assignment: the old window is handed back first.\<close>
definition reservation_assign ::
    "ArrivalReservation \<Rightarrow> ArrivalReservation \<Rightarrow> StaticAdmission \<Rightarrow> ArrivalReservation \<times> StaticAdmission" where
  "reservation_assign out new a = (case reservation_rollback out a of (_, a1) \<Rightarrow> (new, a1))"

definition admission_reserve ::
    "TargetId \<Rightarrow> u64 \<Rightarrow> ArrivalReservation \<Rightarrow> StaticAdmission \<Rightarrow> bool \<times> ArrivalReservation \<times> StaticAdmission" where
  "admission_reserve target now_ns out a =
     (let min_ns = min_arrival (limits_for target a)
      in if 0 = min_ns then (True, reservation_assign out inert_reservation a)
         else
           let i = gate_index target a
           in case gate_try_reserve now_ns min_ns (adm_gates a ! i) of
                (False, g) \<Rightarrow> (False, reservation_assign out inert_reservation (upd_gate i (\<lambda>_. g) a))
              | (True, g) \<Rightarrow> (True, reservation_assign out \<lparr>res_gate = Some i, res_now = now_ns\<rparr> (upd_gate i (\<lambda>_. g) a)))"

end
