(* ===== verification/Admission_Properties.thy ===== *)
theory Admission_Properties
  imports Admission
begin

text \<open>
  Properties of the admission strategies: the token bucket's rate bound, the single owner
  of the merge cell, the spacing of the arrivals an arrival gate admits, and the agreement
  of the generated rule index with the rule table.
\<close>

section \<open>The token bucket\<close>

fun bucket_run :: "u64 list \<Rightarrow> TokenBucket \<Rightarrow> nat \<times> TokenBucket" where
  "bucket_run [] b = (0, b)"
| "bucket_run (now # nows) b =
     (case bucket_acquire now b of (ok, b1) \<Rightarrow> case bucket_run nows b1 of (n, b2) \<Rightarrow> (of_bool ok + n, b2))"

lemma div_sum_le: "(a::nat) div c + b div c \<le> (a + b) div c"
proof (cases "c = 0")
  case False
  have "(a div c + b div c) * c \<le> a + b"
    by (simp add: add_mult_distrib add_mono div_times_less_eq_dividend)
  then show ?thesis using False by (simp add: less_eq_div_iff_mult_less_eq)
qed simp

lemma add_below_room:
  assumes "(t :: u64) \<le> c" "g < c - t"
  shows "unat (t + g) = unat t + unat g" "t + g \<le> c"
proof -
  have "unat g < unat c - unat t" using assms by (simp add: word_less_nat_alt unat_sub)
  then have "unat t + unat g \<le> unat c" by linarith
  moreover have "unat c < 2 ^ LENGTH(64)" by (rule unsigned_less)
  ultimately have "unat t + unat g < 2 ^ LENGTH(64)" by (rule order.strict_trans1)
  then show "unat (t + g) = unat t + unat g" by (rule unat_add_small)
  then show "t + g \<le> c" using \<open>unat t + unat g \<le> unat c\<close> by (simp add: word_le_nat_alt)
qed

lemma unat_mult_le: "unat (x * y :: u64) \<le> unat x * unat y"
  by (simp add: unat_word_ariths)

definition bucket_ok :: "TokenBucket \<Rightarrow> bool" where
  "bucket_ok b \<longleftrightarrow> tb_tokens b \<le> rl_capacity (tb_rule b)"

lemma refill_bound:
  assumes "bucket_ok b"
  shows "tb_rule (bucket_refill now b) = tb_rule b" "bucket_ok (bucket_refill now b)"
    "tb_last b \<le> tb_last (bucket_refill now b)"
    "unat (tb_tokens (bucket_refill now b)) \<le> unat (tb_tokens b)
       + unat (rl_rate (tb_rule b)) * ((unat (tb_last (bucket_refill now b)) - unat (tb_last b)) div unat (rl_refill_interval (tb_rule b)))"
proof -
  let ?r = "tb_rule b"
  let ?added = "(now - tb_last b) div rl_refill_interval ?r"
  show "tb_rule (bucket_refill now b) = ?r" by (simp add: bucket_refill_def Let_def)
  show "bucket_ok (bucket_refill now b)"
    using assms add_below_room(2) [of "tb_tokens b" "rl_capacity ?r"]
    by (simp add: bucket_refill_def Let_def bucket_ok_def not_le)
  show "tb_last b \<le> tb_last (bucket_refill now b)" by (auto simp: bucket_refill_def Let_def not_le)
  show "unat (tb_tokens (bucket_refill now b)) \<le> unat (tb_tokens b)
       + unat (rl_rate ?r) * ((unat (tb_last (bucket_refill now b)) - unat (tb_last b)) div unat (rl_refill_interval ?r))"
  proof (cases "rl_refill_interval ?r = 0 \<or> now \<le> tb_last b \<or> ?added = 0")
    case True
    then show ?thesis by (auto simp: bucket_refill_def Let_def)
  next
    case False
    let ?gain = "?added * rl_rate ?r"
    have "tb_last b \<le> now" using False by (simp add: not_le less_imp_le)
    then have a: "unat ?added = (unat now - unat (tb_last b)) div unat (rl_refill_interval ?r)"
      by (simp add: unat_div unat_sub)
    have g: "unat ?gain \<le> unat (rl_rate ?r) * ((unat now - unat (tb_last b)) div unat (rl_refill_interval ?r))"
      using unat_mult_le [of ?added "rl_rate ?r"] by (simp add: a mult.commute)
    have room: "unat (rl_capacity ?r - tb_tokens b) = unat (rl_capacity ?r) - unat (tb_tokens b)"
      using assms by (simp add: bucket_ok_def unat_sub)
    show ?thesis
    proof (cases "?gain \<ge> rl_capacity ?r - tb_tokens b")
      case True
      then have "bucket_refill now b = b\<lparr>tb_last := now, tb_tokens := rl_capacity ?r\<rparr>"
        using False by (simp add: bucket_refill_def Let_def)
      then show ?thesis using True g room by (simp add: word_le_nat_alt)
    next
      case nroom: False
      then have "bucket_refill now b = b\<lparr>tb_last := now, tb_tokens := tb_tokens b + ?gain\<rparr>"
        using False by (simp add: bucket_refill_def Let_def)
      then show ?thesis using g add_below_room(1) [of "tb_tokens b" "rl_capacity ?r" ?gain] assms nroom
        by (simp add: bucket_ok_def not_le)
    qed
  qed
qed

lemma acquire_bound:
  assumes "bucket_ok b" "rl_enabled (tb_rule b)"
  shows "bucket_ok (snd (bucket_acquire now b))" "tb_rule (snd (bucket_acquire now b)) = tb_rule b"
    "tb_last b \<le> tb_last (snd (bucket_acquire now b))"
    "of_bool (fst (bucket_acquire now b)) + unat (tb_tokens (snd (bucket_acquire now b))) \<le> unat (tb_tokens b)
       + unat (rl_rate (tb_rule b)) * ((unat (tb_last (snd (bucket_acquire now b))) - unat (tb_last b)) div unat (rl_refill_interval (tb_rule b)))"
proof -
  note R = refill_bound [OF assms(1), of now]
  have d: "tb_tokens (bucket_refill now b) > 0 \<Longrightarrow> unat (tb_tokens (bucket_refill now b) - 1) = unat (tb_tokens (bucket_refill now b)) - 1"
    by (simp add: unat_dec word_less_nat_alt)
  show "bucket_ok (snd (bucket_acquire now b))" "tb_rule (snd (bucket_acquire now b)) = tb_rule b"
    "tb_last b \<le> tb_last (snd (bucket_acquire now b))"
    using R(1-3) assms(2) d by (auto simp: bucket_acquire_def Let_def bucket_ok_def word_le_nat_alt)
  show "of_bool (fst (bucket_acquire now b)) + unat (tb_tokens (snd (bucket_acquire now b))) \<le> unat (tb_tokens b)
       + unat (rl_rate (tb_rule b)) * ((unat (tb_last (snd (bucket_acquire now b))) - unat (tb_last b)) div unat (rl_refill_interval (tb_rule b)))"
    using R(4) assms(2) d by (auto simp: bucket_acquire_def Let_def word_less_nat_alt)
qed

lemma bucket_run_bound:
  assumes "bucket_ok b" "rl_enabled (tb_rule b)" "bucket_run nows b = (n, b')"
  shows "bucket_ok b' \<and> tb_last b \<le> tb_last b' \<and> n + unat (tb_tokens b') \<le> unat (tb_tokens b)
    + unat (rl_rate (tb_rule b)) * ((unat (tb_last b') - unat (tb_last b)) div unat (rl_refill_interval (tb_rule b)))"
  using assms
proof (induction nows arbitrary: b n)
  case (Cons now nows)
  let ?r = "unat (rl_rate (tb_rule b))" and ?i = "unat (rl_refill_interval (tb_rule b))"
  obtain ok b1 where A: "bucket_acquire now b = (ok, b1)" by fastforce
  note B = acquire_bound [OF Cons.prems(1,2), of now, unfolded A, simplified]
  obtain m where M: "bucket_run nows b1 = (m, b')" "n = of_bool ok + m" using Cons.prems(3) A by (auto split: prod.splits)
  note IH = Cons.IH [OF B(1) _ M(1)]
  have IH: "bucket_ok b'" "tb_last b1 \<le> tb_last b'"
    "m + unat (tb_tokens b') \<le> unat (tb_tokens b1) + ?r * ((unat (tb_last b') - unat (tb_last b1)) div ?i)"
    using IH Cons.prems(2) B(2) by simp_all
  have "(unat (tb_last b1) - unat (tb_last b)) div ?i + (unat (tb_last b') - unat (tb_last b1)) div ?i
      \<le> (unat (tb_last b') - unat (tb_last b)) div ?i"
    using div_sum_le [of "unat (tb_last b1) - unat (tb_last b)" ?i "unat (tb_last b') - unat (tb_last b1)"] IH(2) B(3)
    by (simp add: word_le_nat_alt)
  then have "?r * ((unat (tb_last b1) - unat (tb_last b)) div ?i) + ?r * ((unat (tb_last b') - unat (tb_last b1)) div ?i)
      \<le> ?r * ((unat (tb_last b') - unat (tb_last b)) div ?i)"
    by (metis add_mult_distrib2 mult_le_mono2)
  then show ?case using IH B M(2) by auto
qed simp


section \<open>The arrival gate\<close>

text \<open>
  A gate with its reservations in flight and its committed arrivals. A handle commits or
  rolls back the time it reserved, once.
\<close>
inductive gate_step :: "u64 \<Rightarrow> ArrivalGate \<times> u64 multiset \<times> u64 list \<Rightarrow> ArrivalGate \<times> u64 multiset \<times> u64 list \<Rightarrow> bool"
  for min_ns where
  gs_reserve: "gate_try_reserve now min_ns g = (True, g') \<Longrightarrow> gate_step min_ns (g, R, C) (g', add_mset now R, C)"
| gs_refuse: "gate_try_reserve now min_ns g = (False, g') \<Longrightarrow> gate_step min_ns (g, R, C) (g', R, C)"
| gs_commit: "now \<in># R \<Longrightarrow> gate_step min_ns (g, R, C) (gate_commit now g, R - {#now#}, now # C)"
| gs_rollback: "now \<in># R \<Longrightarrow> gate_step min_ns (g, R, C) (gate_rollback g, R - {#now#}, C)"

text \<open>Any two of the times are at least the interval apart.\<close>
definition spaced :: "u64 \<Rightarrow> u64 multiset \<Rightarrow> bool" where
  "spaced m M \<longleftrightarrow> (\<forall>x y. {#x, y#} \<subseteq># M \<longrightarrow> unat x + unat m \<le> unat y \<or> unat y + unat m \<le> unat x)"

lemma spaced_mono: "spaced m M \<Longrightarrow> N \<subseteq># M \<Longrightarrow> spaced m N"
  unfolding spaced_def using subset_mset.order_trans by blast

lemma spaced_add:
  assumes "spaced m M" "\<And>x. x \<in># M \<Longrightarrow> unat x + unat m \<le> unat z"
  shows "spaced m (add_mset z M)"
  unfolding spaced_def
proof (intro allI impI)
  fix x y assume xy: "{#x, y#} \<subseteq># add_mset z M"
  show "unat x + unat m \<le> unat y \<or> unat y + unat m \<le> unat x"
  proof (cases "x = z \<or> y = z")
    case True
    then have "(x = z \<and> y \<in># M) \<or> (y = z \<and> x \<in># M)"
      using xy by (auto simp: insert_subset_eq_iff)
    then show ?thesis using assms(2) by blast
  next
    case False
    then have "{#x, y#} \<subseteq># M" using xy by (auto simp: insert_subset_eq_iff subset_eq_diff_conv)
    then show ?thesis using assms(1) by (simp add: spaced_def)
  qed
qed

definition gate_inv :: "u64 \<Rightarrow> ArrivalGate \<times> u64 multiset \<times> u64 list \<Rightarrow> bool" where
  "gate_inv m = (\<lambda>(g, R, C). spaced m (R + mset C) \<and> unat (holds g) = size R \<and> (ever g \<longleftrightarrow> C \<noteq> [])
     \<and> (R = {#} \<longrightarrow> hold_ns g = 0) \<and> (R \<noteq> {#} \<longrightarrow> (\<forall>x \<in># R + mset C. x \<le> hold_ns g))
     \<and> last_admit_ns g = Max (insert 0 (set C)))"

lemma gate_invI:
  assumes "spaced m (R + mset C)" "unat (holds g) = size R" "ever g \<longleftrightarrow> C \<noteq> []" "R = {#} \<Longrightarrow> hold_ns g = 0"
    "\<And>x. R \<noteq> {#} \<Longrightarrow> x \<in># R + mset C \<Longrightarrow> x \<le> hold_ns g" "last_admit_ns g = Max (insert 0 (set C))"
  shows "gate_inv m (g, R, C)"
  unfolding gate_inv_def case_prod_conv using assms by blast

lemma gate_invD:
  assumes "gate_inv m (g, R, C)"
  shows "spaced m (R + mset C)" "unat (holds g) = size R" "ever g \<longleftrightarrow> C \<noteq> []" "R = {#} \<Longrightarrow> hold_ns g = 0"
    "R \<noteq> {#} \<Longrightarrow> x \<in># R + mset C \<Longrightarrow> x \<le> hold_ns g" "last_admit_ns g = Max (insert 0 (set C))"
  using assms unfolding gate_inv_def case_prod_conv by blast+

lemma gate_barrier:
  assumes "gate_inv m (g, R, C)" "x \<in># R + mset C"
  shows "x \<le> (if holds g \<noteq> 0 then hold_ns g else last_admit_ns g)" "holds g \<noteq> 0 \<or> ever g"
proof -
  have h: "holds g \<noteq> 0 \<longleftrightarrow> R \<noteq> {#}" using assms(1) by (auto simp: gate_inv_def) (metis size_empty unat_eq_0)+
  show "holds g \<noteq> 0 \<or> ever g" using assms h by (auto simp: gate_inv_def)
  show "x \<le> (if holds g \<noteq> 0 then hold_ns g else last_admit_ns g)"
    using assms h by (auto simp: gate_inv_def)
qed

lemma reserve_inv:
  assumes I: "gate_inv m (g, R, C)" and m: "0 < m" and r: "gate_try_reserve now m g = (True, g')"
  shows "gate_inv m (g', add_mset now R, C)"
proof -
  have g': "g' = g\<lparr>hold_ns := now, holds := holds g + 1\<rparr>" and h: "holds g \<noteq> 0xFFFF"
    using r by (auto simp: gate_try_reserve_def Let_def kMaxHolds_def split: if_splits)
  have gap: "unat x + unat m \<le> unat now \<and> x \<le> now" if x: "x \<in># R + mset C" for x
  proof -
    define b where "b = (if holds g \<noteq> 0 then hold_ns g else last_admit_ns g)"
    note B = gate_barrier [OF I x, folded b_def]
    have "b \<le> now" "m \<le> now - b"
      using r m B(2) by (auto simp: gate_try_reserve_def Let_def not_less b_def split: if_splits)
    then have "unat b + unat m \<le> unat now" by (simp add: word_le_nat_alt unat_sub)
    then show ?thesis using B(1) by (auto simp: word_le_nat_alt)
  qed
  have "unat (holds g) \<noteq> 65535" using h by (auto simp: word_unat_eq_iff)
  then have "unat (holds g) < 65535" using unat_less_16 [of "holds g"] by linarith
  then have "unat (holds g + 1) = size R + 1" using I by (simp add: gate_inv_def unat_inc)
  moreover have "spaced m (add_mset now (R + mset C))" using spaced_add [of m "R + mset C" now] gap I by (auto simp: gate_inv_def)
  ultimately show ?thesis using I gap by (auto simp: gate_inv_def g')
qed

lemma release_hold_fields [simp]:
  "last_admit_ns (release_hold g) = last_admit_ns g" "ever (release_hold g) = ever g"
  by (simp_all add: release_hold_def Let_def)

text \<open>Leaving a hold, in terms of the reservations that remain.\<close>
lemma release_hold_inv:
  assumes "unat (holds g) = size R" "now \<in># R"
  shows "unat (holds (release_hold g)) = size (R - {#now#})"
    "R - {#now#} = {#} \<Longrightarrow> hold_ns (release_hold g) = 0" "R - {#now#} \<noteq> {#} \<Longrightarrow> hold_ns (release_hold g) = hold_ns g"
proof -
  have pos: "0 < size R" "size (R - {#now#}) = size R - 1" using assms(2) by (cases "R = {#}"; simp add: size_Diff_singleton nonempty_has_size)+
  have nz: "holds g \<noteq> 0" using assms(1) pos by auto
  have d: "unat (holds g - 1) = size R - 1" using assms(1) pos by (simp add: unat_dec)
  have z: "holds g - 1 = 0 \<longleftrightarrow> R - {#now#} = {#}" using d pos by (metis size_eq_0_iff_empty unat_eq_zero)
  show "unat (holds (release_hold g)) = size (R - {#now#})" using nz d pos by (auto simp: release_hold_def Let_def)
  show "R - {#now#} = {#} \<Longrightarrow> hold_ns (release_hold g) = 0" "R - {#now#} \<noteq> {#} \<Longrightarrow> hold_ns (release_hold g) = hold_ns g"
    using nz z by (simp_all add: release_hold_def Let_def)
qed

lemma commit_inv:
  assumes I: "gate_inv m (g, R, C)" and now: "now \<in># R"
  shows "gate_inv m (gate_commit now g, R - {#now#}, now # C)"
proof -
  define g2 where "g2 = g\<lparr>ever := True, last_admit_ns := max now (last_admit_ns g)\<rparr>"
  have c: "gate_commit now g = release_hold g2" by (simp add: gate_commit_def Let_def g2_def max_def not_less)
  have "unat (holds g2) = size R" using I by (simp add: gate_inv_def g2_def)
  note H = release_hold_inv [OF this now]
  have M: "R - {#now#} + mset (now # C) = R + mset C" using now by simp
  have "Max (insert 0 (set (now # C))) = Max (insert now (insert 0 (set C)))" by (metis insert_commute list.simps(15))
  also have "\<dots> = max now (last_admit_ns g)" using I by (subst Max_insert) (simp_all add: gate_inv_def)
  finally have "max now (last_admit_ns g) = Max (insert 0 (set (now # C)))" by simp
  then have max: "last_admit_ns (release_hold g2) = Max (insert 0 (set (now # C)))" by (simp add: g2_def)
  have nonempty: "R \<noteq> {#}" using now by auto
  note D = gate_invD [OF I]
  show ?thesis unfolding c
  proof (rule gate_invI [OF _ H(1) _ H(2) _ max])
    show "spaced m (R - {#now#} + mset (now # C))" using D(1) by (simp only: M)
    show "x \<le> hold_ns (release_hold g2)" if "R - {#now#} \<noteq> {#}" "x \<in># R - {#now#} + mset (now # C)" for x
      using D(5) [OF nonempty] that H(3) [OF that(1)] unfolding M by (simp add: g2_def)
  qed (simp_all add: g2_def)
qed

lemma rollback_inv:
  assumes I: "gate_inv m (g, R, C)" and now: "now \<in># R"
  shows "gate_inv m (gate_rollback g, R - {#now#}, C)"
proof -
  have "unat (holds g) = size R" using I by (simp add: gate_inv_def)
  note H = release_hold_inv [OF this now]
  have sub: "R - {#now#} + mset C \<subseteq># R + mset C" by simp
  then have "spaced m (R - {#now#} + mset C)" using I spaced_mono by (auto simp: gate_inv_def)
  moreover have "x \<le> hold_ns (release_hold g)" if "R - {#now#} \<noteq> {#}" "x \<in># R - {#now#} + mset C" for x
  proof -
    have "R \<noteq> {#}" using now by auto
    moreover have "x \<in># R + mset C" using that(2) sub by (rule mset_subset_eqD [rotated])
    ultimately show ?thesis using gate_invD(5) [OF I] H(3) [OF that(1)] by simp
  qed
  ultimately show ?thesis unfolding gate_rollback_def
    using H(1,2) gate_invD(3,6) [OF I] by (intro gate_invI) simp_all
qed

lemma gate_reachable:
  assumes "(gate_step m)\<^sup>*\<^sup>* (gate_new, {#}, []) s" "0 < m"
  shows "gate_inv m s"
  using assms(1)
proof (induction rule: rtranclp_induct)
  case base
  then show ?case by (simp add: gate_inv_def gate_new_def spaced_def)
next
  case (step s s')
  from step(2) show ?case
  proof cases
    case (gs_refuse now g g' R C)
    then have "g' = g" by (auto simp: gate_try_reserve_def Let_def split: if_splits)
    then show ?thesis using step(3) gs_refuse by simp
  qed (use step(3) reserve_inv commit_inv rollback_inv assms(2) in auto)
qed

section \<open>The merge cell\<close>

fun mg_holds :: "MergePc \<Rightarrow> MergeCellState" where
  "mg_holds MgIdle = McEmpty"
| "mg_holds (MgClaimed e) = McPublishing"
| "mg_holds (MgStored e) = McPublishing"
| "mg_holds MgMergeClaimed = McMerging"
| "mg_holds (MgMerging q) = McMerging"
| "mg_holds MgTakeClaimed = McConsuming"
| "mg_holds (MgOwning q) = McConsuming"
| "mg_holds (MgCleared q) = McConsuming"

text \<open>What the thread at this position knows of the event pointer and of the handles given out.\<close>
fun mg_data :: "MergeSystem \<Rightarrow> MergePc \<Rightarrow> bool" where
  "mg_data y MgIdle = True"
| "mg_data y (MgClaimed e) = (e \<noteq> 0 \<and> mg_published y = mg_taken y)"
| "mg_data y (MgStored e) = (e \<noteq> 0 \<and> mc_event (mg_cell y) = e \<and> mg_published y = mg_taken y)"
| "mg_data y MgMergeClaimed = (mg_published y = mg_taken y @ [mc_event (mg_cell y)])"
| "mg_data y (MgMerging q) = (q = mc_event (mg_cell y) \<and> mg_published y = mg_taken y @ [q])"
| "mg_data y MgTakeClaimed = (mg_published y = mg_taken y @ [mc_event (mg_cell y)])"
| "mg_data y (MgOwning q) = (q = mc_event (mg_cell y) \<and> mg_published y = mg_taken y \<and> mg_taken y \<noteq> [] \<and> last (mg_taken y) = q)"
| "mg_data y (MgCleared q) = (mg_published y = mg_taken y)"

definition merge_inv :: "MergeSystem \<Rightarrow> bool" where
  "merge_inv y \<longleftrightarrow>
     (\<forall>t t'. mg_pc y t \<noteq> MgIdle \<and> mg_pc y t' \<noteq> MgIdle \<longrightarrow> t = t')
     \<and> (\<forall>t. mg_pc y t \<noteq> MgIdle \<longrightarrow> mg_state y = mg_holds (mg_pc y t) \<and> mg_data y (mg_pc y t))
     \<and> ((\<forall>t. mg_pc y t = MgIdle) \<longrightarrow> mg_state y = McEmpty \<and> mg_published y = mg_taken y
          \<or> mg_state y = McPublished \<and> mg_published y = mg_taken y @ [mc_event (mg_cell y)])"

lemma merge_invD:
  assumes "merge_inv y" "mg_pc y t \<noteq> MgIdle"
  shows "t' \<noteq> t \<Longrightarrow> mg_pc y t' = MgIdle" "mg_state y = mg_holds (mg_pc y t)" "mg_data y (mg_pc y t)"
  using assms unfolding merge_inv_def by blast+

lemma merge_inv_free:
  assumes "merge_inv y" "mg_state y \<in> {McEmpty, McPublished}"
  shows "mg_pc y t = MgIdle"
    and "mg_state y = McEmpty \<Longrightarrow> mg_published y = mg_taken y"
    and "mg_state y = McPublished \<Longrightarrow> mg_published y = mg_taken y @ [mc_event (mg_cell y)]"
proof -
  have idle: "mg_pc y t = MgIdle" for t
    using merge_invD(2) [OF assms(1), of t] assms(2) by (cases "mg_pc y t") auto
  then show "mg_pc y t = MgIdle" .
  show "mg_state y = McEmpty \<Longrightarrow> mg_published y = mg_taken y"
    "mg_state y = McPublished \<Longrightarrow> mg_published y = mg_taken y @ [mc_event (mg_cell y)]"
    using assms(1) idle unfolding merge_inv_def by auto
qed

lemma merge_inv_busyI:
  assumes "\<And>t'. t' \<noteq> t \<Longrightarrow> pc t' = MgIdle" "mg_pc y = pc(t := p)" "p \<noteq> MgIdle" "mg_state y = mg_holds p" "mg_data y p"
  shows "merge_inv y"
proof -
  have "mg_pc y t' = (if t' = t then p else MgIdle)" for t' using assms(1,2) by simp
  then show ?thesis unfolding merge_inv_def using assms(3-5) by (auto split: if_splits)
qed

lemma merge_inv_idleI:
  assumes "\<And>t'. t' \<noteq> t \<Longrightarrow> pc t' = MgIdle" "mg_pc y = pc(t := MgIdle)"
    "mg_state y = McEmpty \<and> mg_published y = mg_taken y \<or> mg_state y = McPublished \<and> mg_published y = mg_taken y @ [mc_event (mg_cell y)]"
  shows "merge_inv y"
proof -
  have "mg_pc y t' = MgIdle" for t' using assms(1,2) by (cases "t' = t") auto
  then show ?thesis unfolding merge_inv_def using assms(3) by auto
qed

lemma merge_step_inv:
  assumes "merge_step y y'" "merge_inv y"
  shows "merge_inv y'"
  using assms(1)
proof cases
  case (mg_claim t e)
  then show ?thesis using merge_inv_free [OF assms(2)] by (intro merge_inv_busyI [of t "mg_pc y"]) auto
next
  case (mg_store t e)
  then show ?thesis using merge_invD [OF assms(2), of t] by (intro merge_inv_busyI [of t "mg_pc y"]) auto
next
  case (mg_release t e)
  then show ?thesis using merge_invD [OF assms(2), of t] by (intro merge_inv_idleI [of t "mg_pc y"]) auto
next
  case (mg_merge_claim t)
  then show ?thesis using merge_inv_free [OF assms(2)] by (intro merge_inv_busyI [of t "mg_pc y"]) auto
next
  case (mg_merge_read t)
  then show ?thesis using merge_invD [OF assms(2), of t] by (intro merge_inv_busyI [of t "mg_pc y"]) auto
next
  case (mg_merge_done t q)
  then show ?thesis using merge_invD [OF assms(2), of t] by (intro merge_inv_idleI [of t "mg_pc y"]) (auto simp: release_merge_def)
next
  case (mg_take_claim t)
  then show ?thesis using merge_inv_free [OF assms(2)] by (intro merge_inv_busyI [of t "mg_pc y"]) auto
next
  case (mg_take_read t)
  then show ?thesis using merge_invD [OF assms(2), of t] by (intro merge_inv_busyI [of t "mg_pc y"]) auto
next
  case (mg_clear t q)
  then show ?thesis using merge_invD [OF assms(2), of t] by (intro merge_inv_busyI [of t "mg_pc y"]) auto
next
  case (mg_empty t q)
  then show ?thesis using merge_invD [OF assms(2), of t] by (intro merge_inv_idleI [of t "mg_pc y"]) auto
qed

definition merge_start :: "TargetId \<Rightarrow> u16 \<Rightarrow> MergeSystem" where
  "merge_start target sig = \<lparr>mg_cell = merge_init target sig, mg_pc = (\<lambda>t. MgIdle), mg_published = [], mg_taken = []\<rparr>"

lemma merge_reachable: "merge_step\<^sup>*\<^sup>* (merge_start target sig) y \<Longrightarrow> merge_inv y"
proof (induction rule: rtranclp_induct)
  case base
  then show ?case by (simp add: merge_inv_def merge_start_def merge_init_def)
qed (rule merge_step_inv)

section \<open>The rule index\<close>

definition row_limits :: "TargetAdmission \<Rightarrow> TargetLimits" where
  "row_limits r = \<lparr>min_arrival = ta_min_arrival r, max_backlog = ta_max_backlog r\<rparr>"

lemma no_duplicate_targets_iff: "no_duplicate_targets rows \<longleftrightarrow> distinct (map ta_target rows)"
  by (induction rows) (auto simp: list_all_iff)

lemma index_fold:
  assumes "distinct (map ta_target rows)" "unat t < length idx"
  shows "fold (\<lambda>row index. index[unat (ta_target row) := row_limits row]) rows idx ! unat t =
    (case map_of (map (\<lambda>r. (ta_target r, row_limits r)) rows) t of None \<Rightarrow> idx ! unat t | Some l \<Rightarrow> l)"
  using assms
proof (induction rows arbitrary: idx)
  case (Cons r rows)
  let ?idx = "idx[unat (ta_target r) := row_limits r]"
  have "map_of (map (\<lambda>r. (ta_target r, row_limits r)) rows) t = None" if "ta_target r = t"
    using Cons.prems(1) that by (auto simp: map_of_eq_None_iff image_image)
  then show ?case using Cons.IH [of ?idx] Cons.prems by (cases "ta_target r = t") (auto simp: nth_list_update word_unat_eq_iff split: option.splits)
qed simp

lemma build_index_lookup:
  assumes "rules_valid rows max_ao" "t \<le> max_ao"
  shows "build_index rows max_ao ! unat t =
    (case map_of (map (\<lambda>r. (ta_target r, row_limits r)) rows) t of None \<Rightarrow> no_limits | Some l \<Rightarrow> l)"
  using index_fold [of rows t "replicate (unat max_ao + 1) no_limits"] assms
  by (simp add: build_index_def row_limits_def rules_valid_def no_duplicate_targets_iff word_le_nat_alt less_Suc_eq_le
      del: replicate.simps replicate_Suc split: option.splits)

section \<open>Properties\<close>

text \<open>
  C34. Arrivals are spaced: whatever the interleaving of reservations, commits and rollbacks
  of overlapping submissions, any two admitted (committed) arrivals of a target are at
  least the configured interval apart; and once no reservation is in flight the gate is
  exactly the gate of the committed arrivals, so a failed submission leaves no trace.
\<close>
theorem admitted_arrivals_spaced:
  assumes "(gate_step min_ns)\<^sup>*\<^sup>* (gate_new, {#}, []) (g, R, C)" and "0 < min_ns"
  shows "(\<forall>i j. i < length C \<and> j < length C \<and> i \<noteq> j
           \<longrightarrow> unat (C ! i) + unat min_ns \<le> unat (C ! j) \<or> unat (C ! j) + unat min_ns \<le> unat (C ! i))
    \<and> (R = {#} \<longrightarrow> g = \<lparr>last_admit_ns = Max (insert 0 (set C)), hold_ns = 0, holds = 0, ever = (C \<noteq> [])\<rparr>)"
proof -
  note D = gate_invD [OF gate_reachable [OF assms]]
  have pair: "{#C ! i, C ! j#} \<subseteq># mset C" if "i < length C" "j < length C" "i \<noteq> j" for i j
    using that
  proof (induction C arbitrary: i j)
    case (Cons c C)
    then show ?case by (cases i; cases j) (auto simp: insert_subset_eq_iff)
  qed simp
  have "spaced min_ns (mset C)" using spaced_mono [OF D(1)] by simp
  then have "unat (C ! i) + unat min_ns \<le> unat (C ! j) \<or> unat (C ! j) + unat min_ns \<le> unat (C ! i)"
    if "i < length C" "j < length C" "i \<noteq> j" for i j using pair [OF that] by (simp add: spaced_def)
  moreover have "g = \<lparr>last_admit_ns = Max (insert 0 (set C)), hold_ns = 0, holds = 0, ever = (C \<noteq> [])\<rparr>" if "R = {#}"
    using D(2,3,6) D(4) [OF that] that by (simp add: unat_eq_0)
  ultimately show ?thesis by blast
qed

theorem admitted_arrivals_spaced_witness:
  "\<exists>g. (gate_step 10)\<^sup>*\<^sup>* (gate_new, {#}, []) (g, {#}, [25, 5])
    \<and> g = \<lparr>last_admit_ns = 25, hold_ns = 0, holds = 0, ever = True\<rparr>"
proof -
  define g1 where "g1 = snd (gate_try_reserve 5 10 gate_new)"
  define g2 where "g2 = gate_commit 5 g1"
  define g3 where "g3 = snd (gate_try_reserve 25 10 g2)"
  have "gate_step 10 (gate_new, {#}, []) (g1, {#5#}, [])"
    by (rule gs_reserve) (simp add: g1_def gate_try_reserve_def gate_new_def kMaxHolds_def)
  moreover have "gate_step 10 (g1, {#5#}, []) (g2, {#}, [5])" using gs_commit [of 5 "{#5#}" 10 g1 "[]"] by (simp add: g2_def)
  moreover have "gate_step 10 (g2, {#}, [5]) (g3, {#25#}, [5])"
    by (rule gs_reserve) (simp add: g3_def g2_def g1_def gate_try_reserve_def gate_new_def kMaxHolds_def gate_commit_def
        release_hold_def Let_def)
  moreover have "gate_step 10 (g3, {#25#}, [5]) (gate_commit 25 g3, {#}, [25, 5])"
    using gs_commit [of 25 "{#25#}" 10 g3 "[5]"] by simp
  ultimately have run: "(gate_step 10)\<^sup>*\<^sup>* (gate_new, {#}, []) (gate_commit 25 g3, {#}, [25, 5])"
    by (meson converse_rtranclp_into_rtranclp rtranclp.rtrancl_refl)
  have "gate_commit 25 g3 = \<lparr>last_admit_ns = Max (insert 0 (set [25, 5])), hold_ns = 0, holds = 0, ever = True\<rparr>"
    using admitted_arrivals_spaced [OF run] by simp
  then show ?thesis using run by (intro exI [of _ "gate_commit 25 g3"]) (simp add: max_def)
qed

text \<open>
  C35. The token bucket limits the rate: over any sequence of acquisition times, in order or
  not, the admitted events are at most the burst capacity plus the rate for every whole
  refill interval that has passed since initialisation, and the tokens never exceed the
  capacity.
\<close>
theorem token_bucket_rate_bound:
  assumes "rl_enabled rule" and "bucket_run nows (bucket_init rule now) = (n, b)"
  shows "n + unat (tb_tokens b) \<le> unat (rl_capacity rule)
      + unat (rl_rate rule) * ((unat (tb_last b) - unat now) div unat (rl_refill_interval rule))
    \<and> tb_tokens b \<le> rl_capacity (tb_rule b)"
  using bucket_run_bound [of "bucket_init rule now" nows n b] assms by (simp add: bucket_init_def bucket_ok_def)

theorem token_bucket_rate_bound_witness:
  "bucket_run [1, 2, 3, 25] (bucket_init \<lparr>rl_capacity = 2, rl_rate = 1, rl_refill_interval = 10, rl_enabled = True\<rparr> 0)
     = (3, \<lparr>tb_rule = \<lparr>rl_capacity = 2, rl_rate = 1, rl_refill_interval = 10, rl_enabled = True\<rparr>, tb_tokens = 1, tb_last = 25\<rparr>)
   \<and> 3 + 1 \<le> 2 + 1 * ((25 - 0) div (10 :: nat))"
proof -
  let ?r = "\<lparr>rl_capacity = 2, rl_rate = 1, rl_refill_interval = 10, rl_enabled = True\<rparr>"
  have run: "bucket_run [1, 2, 3, 25] (bucket_init ?r 0) = (3, \<lparr>tb_rule = ?r, tb_tokens = 1, tb_last = 25\<rparr>)" by code_simp
  then show ?thesis using token_bucket_rate_bound [OF _ run] by simp
qed

text \<open>
  C36. A merge cell has one owner: however producers and consumers interleave, at most one
  thread is between claiming and releasing the cell, the handles given to consumers are
  the published ones in their order and each once, and a producer that merges sees the
  handle that is published and not yet taken.
\<close>
theorem merge_cell_single_owner:
  assumes "merge_step\<^sup>*\<^sup>* (merge_start target sig) y"
  shows "(\<forall>t t'. mg_pc y t \<noteq> MgIdle \<and> mg_pc y t' \<noteq> MgIdle \<longrightarrow> t = t')
    \<and> (mg_published y = mg_taken y \<or> mg_published y = mg_taken y @ [mc_event (mg_cell y)])
    \<and> (\<forall>t q. mg_pc y t = MgMerging q \<longrightarrow> mg_published y = mg_taken y @ [q])"
proof -
  have I: "merge_inv y" by (rule merge_reachable [OF assms])
  have "mg_published y = mg_taken y \<or> mg_published y = mg_taken y @ [mc_event (mg_cell y)]"
  proof (cases "\<forall>t. mg_pc y t = MgIdle")
    case True
    then show ?thesis using I by (auto simp: merge_inv_def)
  next
    case False
    then obtain t where t: "mg_pc y t \<noteq> MgIdle" by blast
    show ?thesis using merge_invD(3) [OF I t] t by (cases "mg_pc y t") auto
  qed
  moreover have "mg_published y = mg_taken y @ [q]" if "mg_pc y t = MgMerging q" for t q
    using merge_invD(3) [OF I, of t] that by simp
  ultimately show ?thesis using I unfolding merge_inv_def by blast
qed

theorem merge_cell_single_owner_witness:
  "\<exists>y. merge_step\<^sup>*\<^sup>* (merge_start 1 7) y \<and> mg_taken y = [40] \<and> mg_published y = [40]"
proof -
  define sys where "sys c p ps ts = \<lparr>mg_cell = c, mg_pc = (\<lambda>t. MgIdle)(0 := p), mg_published = ps, mg_taken = ts\<rparr>" for c p ps ts
  define c where "c st e = \<lparr>mc_target = 1, mc_signal = 7, mc_state = st, mc_event = e\<rparr>" for st e
  have start: "merge_start 1 7 = sys (c McEmpty 0) MgIdle [] []"
    by (simp add: merge_start_def merge_init_def sys_def c_def fun_eq_iff)
  have "merge_step (sys (c McEmpty 0) MgIdle [] []) (sys (c McPublishing 0) (MgClaimed 40) [] [])"
    using mg_claim [of "sys (c McEmpty 0) MgIdle [] []" 0 40] by (simp add: sys_def c_def)
  moreover have "merge_step (sys (c McPublishing 0) (MgClaimed 40) [] []) (sys (c McPublishing 40) (MgStored 40) [] [])"
    using mg_store [of "sys (c McPublishing 0) (MgClaimed 40) [] []" 0 40] by (simp add: sys_def c_def)
  moreover have "merge_step (sys (c McPublishing 40) (MgStored 40) [] []) (sys (c McPublished 40) MgIdle [40] [])"
    using mg_release [of "sys (c McPublishing 40) (MgStored 40) [] []" 0 40] by (simp add: sys_def c_def)
  moreover have "merge_step (sys (c McPublished 40) MgIdle [40] []) (sys (c McConsuming 40) MgTakeClaimed [40] [])"
    using mg_take_claim [of "sys (c McPublished 40) MgIdle [40] []" 0] by (simp add: sys_def c_def)
  moreover have "merge_step (sys (c McConsuming 40) MgTakeClaimed [40] []) (sys (c McConsuming 40) (MgOwning 40) [40] [40])"
    using mg_take_read [of "sys (c McConsuming 40) MgTakeClaimed [40] []" 0] by (simp add: sys_def c_def)
  ultimately have run: "merge_step\<^sup>*\<^sup>* (merge_start 1 7) (sys (c McConsuming 40) (MgOwning 40) [40] [40])"
    unfolding start by (meson converse_rtranclp_into_rtranclp rtranclp.rtrancl_refl)
  have "mg_published (sys (c McConsuming 40) (MgOwning 40) [40] [40]) = [40]"
    using merge_cell_single_owner [OF run] by (auto simp: sys_def c_def)
  then show ?thesis using run by (intro exI [of _ "sys (c McConsuming 40) (MgOwning 40) [40] [40]"]) (simp add: sys_def)
qed

text \<open>
  The generated index agrees with the rule table: for a rule set the compile-time checks
  accept, every target reads the limits of its own row, and a target without a row, or out
  of range, reads no limits.
\<close>
lemma limits_match_rules:
  assumes "rules_valid rows max_ao"
  shows "limits_for t (static_admission_new rows max_ao) =
    (case map_of (map (\<lambda>r. (ta_target r, row_limits r)) rows) t of None \<Rightarrow> no_limits | Some l \<Rightarrow> l)"
proof -
  have none: "map_of (map (\<lambda>r. (ta_target r, row_limits r)) rows) t = None" if "t = 0 \<or> max_ao < t" for t
    using assms that by (auto simp: rules_valid_def targets_in_range_def list_all_iff map_of_eq_None_iff image_iff)
  show ?thesis
  proof (cases "t \<le> max_ao")
    case True
    then show ?thesis using build_index_lookup [OF assms True] by (simp add: limits_for_def static_admission_new_def)
  next
    case False
    then show ?thesis using build_index_lookup [OF assms, of 0] none [of 0] none [of t]
      by (simp add: limits_for_def static_admission_new_def Let_def not_le)
  qed
qed

end
