(* ===== verification/Active_Object.thy ===== *)
theory Active_Object
  imports Hsm_Properties Cas_Loop
begin

text \<open>
  The active object of ao.hpp: execution lease, pending counter, the \<^verbatim>\<open>Ao\<close> template and the
  registry.

  \<^item> An AO is a record of its injected traits, its context, its state machine, its lease, its
    pending counter and its counter of unhandled events. All AOs of a system share one context
    type, which is the sum of theirs.
  \<^item> An AO pointer is a natural number, its address in a store of AOs; the null pointer is
    \<^verbatim>\<open>None\<close>. The registry is a table of such pointers.
  \<^item> The operations of one thread are functions. The lease is also modelled under any number of
    threads that dispatch to one AO (\<^verbatim>\<open>ao_step\<close>): a dispatch is its compare-and-exchange, the
    run of the state machine (which reads the AO at its beginning and writes it at its end) and
    the release.
  \<^item> Handlers act on their AO's context only; submitting from inside a handler is not modelled.
\<close>

section \<open>Execution lease\<close>

datatype AoRunState = RunIdle | RunningDirect | RunningDispatcher

definition lease_try_acquire :: "AoRunState \<Rightarrow> AoRunState \<Rightarrow> bool \<times> AoRunState" where
  "lease_try_acquire desired state =
     (if desired = RunIdle then (False, state)
      else if state = RunIdle then (True, desired) else (False, state))"

definition lease_release :: "AoRunState \<Rightarrow> AoRunState \<Rightarrow> AoRunState option" where
  "lease_release expected state = do { coact_assert (state = expected); Some RunIdle }"

section \<open>Pending counter\<close>

text \<open>The decision of the retry loop of \<^verbatim>\<open>try_increment\<close>.\<close>
definition increment_decide :: "u16 \<Rightarrow> u16 \<Rightarrow> u16 option" where
  "increment_decide limit observed =
     (if observed = 0xffff \<or> limit \<noteq> 0 \<and> observed \<ge> limit then None else Some (observed + 1))"

definition pending_try_increment :: "u16 \<Rightarrow> u16 \<Rightarrow> bool \<times> u16" where
  "pending_try_increment limit observed = cas_alone increment_decide limit observed"

definition pending_increment :: "u16 \<Rightarrow> u16 option" where
  "pending_increment prior = do { coact_assert (prior \<noteq> 0xffff); Some (prior + 1) }"

definition pending_decrement :: "u16 \<Rightarrow> u16 option" where
  "pending_decrement prior = do { coact_assert (prior > 0); Some (prior - 1) }"

section \<open>Active objects\<close>

record 'c Ao =
  ao_rtc_budget_ns :: u64
  ao_logical_prio :: LogicalPrio
  ao_priority_class :: PriorityClass
  ao_direct_eligible :: bool
  ao_isr_direct_safe :: bool
  ao_context :: 'c
  ao_hsm :: "'c Hsm"
  ao_lease :: AoRunState
  ao_initialized :: bool
  pending_ctr :: u16
  ao_unhandled :: u32

text \<open>The traits of an AO type are its template argument.\<close>
record Traits =
  tr_rtc_budget_ns :: u64
  tr_logical_prio :: LogicalPrio
  tr_priority_class :: PriorityClass
  tr_direct_eligible :: bool
  tr_isr_direct_safe :: bool

definition ao_new ::
    "Traits \<Rightarrow> 'c \<Rightarrow> 'c StateDef list \<Rightarrow> 'c TransitionDef list \<Rightarrow> int \<Rightarrow> u8 \<Rightarrow> 'c Ao option" where
  "ao_new tr ctx sts trs init depth = do {
     h \<leftarrow> hsm_new sts trs init depth;
     Some \<lparr>ao_rtc_budget_ns = tr_rtc_budget_ns tr, ao_logical_prio = tr_logical_prio tr,
       ao_priority_class = tr_priority_class tr, ao_direct_eligible = tr_direct_eligible tr,
       ao_isr_direct_safe = tr_isr_direct_safe tr, ao_context = ctx, ao_hsm = h, ao_lease = RunIdle,
       ao_initialized = False, pending_ctr = 0, ao_unhandled = 0\<rparr>
   }"

definition ao_init :: "'c Ao \<Rightarrow> 'c Ao option" where
  "ao_init ao = do {
     (h, ctx) \<leftarrow> hsm_init (ao_hsm ao) (ao_context ao);
     coact_assert (current h \<ge> 0);
     Some (ao\<lparr>ao_hsm := h, ao_context := ctx, ao_initialized := True\<rparr>)
   }"

definition ao_init_default :: "'c Ao \<Rightarrow> 'c Ao option" where
  "ao_init_default ao = (if \<not> ao_initialized ao then ao_init ao else Some ao)"

text \<open>The body both dispatch entries run while they hold the lease.\<close>
definition ao_run_hsm :: "Event \<Rightarrow> 'c Ao \<Rightarrow> 'c Ao option" where
  "ao_run_hsm evt ao = do {
     (handled, h, ctx) \<leftarrow> hsm_dispatch (ao_hsm ao) (ao_context ao) evt;
     Some (ao\<lparr>ao_hsm := h, ao_context := ctx,
       ao_unhandled := (if handled then ao_unhandled ao else ao_unhandled ao + 1)\<rparr>)
   }"

definition dispatch_holding :: "AoRunState \<Rightarrow> Event \<Rightarrow> 'c Ao \<Rightarrow> (bool \<times> 'c Ao) option" where
  "dispatch_holding held evt ao =
     (case lease_try_acquire held (ao_lease ao) of
        (False, l) \<Rightarrow> Some (False, ao)
      | (True, l) \<Rightarrow> do {
          ao1 \<leftarrow> ao_run_hsm evt (ao\<lparr>ao_lease := l\<rparr>);
          l' \<leftarrow> lease_release held (ao_lease ao1);
          Some (True, ao1\<lparr>ao_lease := l'\<rparr>)
        })"

definition try_dispatch_queued :: "Event \<Rightarrow> 'c Ao \<Rightarrow> (bool \<times> 'c Ao) option" where
  "try_dispatch_queued = dispatch_holding RunningDispatcher"

definition dispatch_direct :: "Event \<Rightarrow> 'c Ao \<Rightarrow> (bool \<times> 'c Ao) option" where
  "dispatch_direct = dispatch_holding RunningDirect"

definition ao_dispatch :: "Event \<Rightarrow> 'c Ao \<Rightarrow> 'c Ao option" where
  "ao_dispatch evt ao = do {
     (taken, ao1) \<leftarrow> try_dispatch_queued evt ao;
     coact_assert taken;
     Some ao1
   }"

section \<open>Registry\<close>

type_synonym AoRegistry = "nat option list"

definition registry_new :: "Config \<Rightarrow> AoRegistry" where
  "registry_new cfg = replicate (unat (kMaxAo cfg)) None"

definition registry_lookup :: "AoRegistry \<Rightarrow> TargetId \<Rightarrow> nat option" where
  "registry_lookup slots target =
     (if target = kInvalidTarget \<or> unat target > length slots then None else slots ! (unat target - 1))"

text \<open>The first loop of the two bind operations.\<close>
definition prio_bound :: "(nat \<Rightarrow> 'c Ao) \<Rightarrow> AoRegistry \<Rightarrow> LogicalPrio \<Rightarrow> bool" where
  "prio_bound aos slots prio = list_ex (\<lambda>s. case s of None \<Rightarrow> False | Some a \<Rightarrow> ao_logical_prio (aos a) = prio) slots"

fun bind_lowest :: "nat \<Rightarrow> AoRegistry \<Rightarrow> bool \<times> AoRegistry" where
  "bind_lowest a [] = (False, [])"
| "bind_lowest a (None # slots) = (True, Some a # slots)"
| "bind_lowest a (Some b # slots) = (case bind_lowest a slots of (ok, slots') \<Rightarrow> (ok, Some b # slots'))"

definition registry_bind ::
    "(nat \<Rightarrow> 'c Ao) \<Rightarrow> nat option \<Rightarrow> LogicalPrio \<Rightarrow> AoRegistry \<Rightarrow> bool \<times> AoRegistry" where
  "registry_bind aos ao prio slots =
     (case ao of
        None \<Rightarrow> (False, slots)
      | Some a \<Rightarrow> if prio = kInvalidPrio \<or> prio_bound aos slots prio then (False, slots)
                 else bind_lowest a slots)"

definition registry_bind_at ::
    "(nat \<Rightarrow> 'c Ao) \<Rightarrow> TargetId \<Rightarrow> nat \<Rightarrow> LogicalPrio \<Rightarrow> AoRegistry \<Rightarrow> bool \<times> AoRegistry" where
  "registry_bind_at aos target a prio slots =
     (if target = kInvalidTarget \<or> unat target > length slots \<or> prio = kInvalidPrio
          \<or> prio \<noteq> ao_logical_prio (aos a) \<or> slots ! (unat target - 1) \<noteq> None then (False, slots)
      else if prio_bound aos slots prio then (False, slots)
      else (True, slots[unat target - 1 := Some a]))"

fun target_scan :: "nat \<Rightarrow> nat \<Rightarrow> AoRegistry \<Rightarrow> TargetId" where
  "target_scan a i [] = kInvalidTarget"
| "target_scan a i (s # slots) = (if s = Some a then of_nat (i + 1) else target_scan a (i + 1) slots)"

definition target_of :: "nat option \<Rightarrow> AoRegistry \<Rightarrow> TargetId" where
  "target_of ao slots = (case ao of None \<Rightarrow> kInvalidTarget | Some a \<Rightarrow> target_scan a 0 slots)"

section \<open>Concurrent dispatch\<close>

text \<open>
  Where a thread is in a dispatch: the lease taken, the machine and context read, the
  results written.
\<close>
datatype 'c AoPc =
    PcIdle
  | PcHeld AoRunState Event
  | PcRunning AoRunState Event "'c Hsm" 'c
  | PcRan AoRunState

record 'c AoSystem =
  sys_ao :: "'c Ao"
  sys_pc :: "nat \<Rightarrow> 'c AoPc"
  sys_done :: "Event list"

inductive ao_step :: "'c AoSystem \<Rightarrow> 'c AoSystem \<Rightarrow> bool" where
  ao_acquire: "\<lbrakk>sys_pc y t = PcIdle; held \<noteq> RunIdle; lease_try_acquire held (ao_lease (sys_ao y)) = (True, l)\<rbrakk> \<Longrightarrow>
     ao_step y (y\<lparr>sys_ao := (sys_ao y)\<lparr>ao_lease := l\<rparr>, sys_pc := (sys_pc y)(t := PcHeld held evt)\<rparr>)"
| ao_begin: "sys_pc y t = PcHeld held evt \<Longrightarrow>
     ao_step y (y\<lparr>sys_pc := (sys_pc y)(t := PcRunning held evt (ao_hsm (sys_ao y)) (ao_context (sys_ao y)))\<rparr>)"
| ao_finish: "\<lbrakk>sys_pc y t = PcRunning held evt h ctx; hsm_dispatch h ctx evt = Some (handled, h', ctx')\<rbrakk> \<Longrightarrow>
     ao_step y (y\<lparr>sys_ao := (sys_ao y)\<lparr>ao_hsm := h', ao_context := ctx',
         ao_unhandled := (if handled then ao_unhandled (sys_ao y) else ao_unhandled (sys_ao y) + 1)\<rparr>,
       sys_pc := (sys_pc y)(t := PcRan held), sys_done := sys_done y @ [evt]\<rparr>)"
| ao_release: "\<lbrakk>sys_pc y t = PcRan held; lease_release held (ao_lease (sys_ao y)) = Some l\<rbrakk> \<Longrightarrow>
     ao_step y (y\<lparr>sys_ao := (sys_ao y)\<lparr>ao_lease := l\<rparr>, sys_pc := (sys_pc y)(t := PcIdle)\<rparr>)"

end
