(* ===== verification/Ao_Properties.thy ===== *)
theory Ao_Properties
  imports Active_Object
begin

text \<open>
  Correctness of the active object: a dispatch returns and keeps the AO's machine usable, the
  lease admits one execution at a time, so that concurrent dispatches run to completion one
  after the other, the pending counter respects its cap, and the registry is a bijection
  between bound targets and AOs of distinct priorities.
\<close>

section \<open>Dispatch\<close>

text \<open>A machine with a validated table that is not initialised yet or in a leaf.\<close>
definition hsm_ok :: "'c Hsm \<Rightarrow> bool" where
  "hsm_ok h \<longleftrightarrow> valid h \<and> targets_ok h \<and> depth_ok h \<and> (current h < 0 \<or> active_leaf h)"

lemma tables_current [simp]:
  "valid (h\<lparr>current := c\<rparr>) = valid h" "targets_ok (h\<lparr>current := c\<rparr>) = targets_ok h"
  "depth_ok (h\<lparr>current := c\<rparr>) = depth_ok h"
proof -
  have d: "descends (h\<lparr>current := c\<rparr>) s ds = descends h s ds" for s ds
    by (induction ds arbitrary: s) (simp_all add: in_range_def)
  show "valid (h\<lparr>current := c\<rparr>) = valid h" by (simp add: valid_def validate_topology_def)
  show "targets_ok (h\<lparr>current := c\<rparr>) = targets_ok h" by (simp add: targets_ok_def in_range_def)
  show "depth_ok (h\<lparr>current := c\<rparr>) = depth_ok h" by (simp add: depth_ok_def d in_range_def)
qed

lemma hsm_dispatch_ok:
  assumes "hsm_ok h"
  shows "\<exists>handled h' ctx'. hsm_dispatch h ctx evt = Some (handled, h', ctx') \<and> hsm_ok h'"
proof (cases "current h < 0")
  case True
  then show ?thesis using assms by (auto simp: hsm_dispatch_def)
next
  case False
  then have V: "valid h" "targets_ok h" "depth_ok h" "active_leaf h" using assms by (simp_all add: hsm_ok_def)
  have r: "in_range h (current h)" using V(4) by (simp add: active_leaf_def)
  note L = dispatch_loop_acceptor [OF V(1) r, of ctx evt "unat (max_depth h)"]
  show ?thesis
  proof (cases "acceptor h ctx evt (unat (max_depth h)) (current h)")
    case None
    then show ?thesis using L False assms by (auto simp: hsm_dispatch_def)
  next
    case (Some src)
    then obtain tran where t: "find_transition h ctx evt src = Some tran" and src: "src \<in> set (path h (current h))"
      by (auto simp: acceptor_def find_Some_iff dest: in_set_takeD)
    have "in_range h (t_target tran)" if "t_kind tran = External"
      using find_transition_Some [OF t] V(2) that by (simp add: targets_ok_def)
    then obtain b exited entered h' ctx' where e: "execute_transition h ctx evt src tran = Some (h', ctx')"
        "moves h ctx evt tran b exited entered h' ctx'"
      using execute_moves [OF V(1,3) r V(4) src] by blast
    then have h': "h' = h\<lparr>current := current h'\<rparr>" "active_leaf h'" by (auto simp: moves_def)
    then have "valid h'" "targets_ok h'" "depth_ok h'" using V(1-3) tables_current [of "current h'" h] by simp_all
    then show ?thesis using L Some t e(1) False h' by (auto simp: hsm_dispatch_def hsm_ok_def)
  qed
qed

definition ao_ok :: "'c Ao \<Rightarrow> bool" where
  "ao_ok ao \<longleftrightarrow> hsm_ok (ao_hsm ao)"

lemma ao_run_hsm_ok:
  assumes "ao_ok ao"
  obtains ao' where "ao_run_hsm evt ao = Some ao'" "ao_ok ao'" "pending_ctr ao' = pending_ctr ao"
    "ao_lease ao' = ao_lease ao" "ao_logical_prio ao' = ao_logical_prio ao" "ao_priority_class ao' = ao_priority_class ao"
proof -
  obtain handled h' ctx' where "hsm_dispatch (ao_hsm ao) (ao_context ao) evt = Some (handled, h', ctx')" "hsm_ok h'"
    using hsm_dispatch_ok [of "ao_hsm ao" "ao_context ao" evt] assms unfolding ao_ok_def by blast
  then show thesis by (intro that [of "ao\<lparr>ao_hsm := h', ao_context := ctx',
      ao_unhandled := (if handled then ao_unhandled ao else ao_unhandled ao + 1)\<rparr>"]) (simp_all add: ao_run_hsm_def ao_ok_def)
qed

text \<open>With a free lease both dispatch entries run the machine once and leave the lease free.\<close>
lemma dispatch_holding_idle:
  assumes "held \<noteq> RunIdle" "ao_lease ao = RunIdle"
  shows "dispatch_holding held evt ao = map_option (Pair True) (ao_run_hsm evt ao)"
  using assms by (cases "hsm_dispatch (ao_hsm ao) (ao_context ao) evt")
    (auto simp: dispatch_holding_def lease_try_acquire_def lease_release_def ao_run_hsm_def)

lemma dispatch_holding_busy:
  assumes "ao_lease ao \<noteq> RunIdle"
  shows "dispatch_holding held evt ao = Some (False, ao)"
  using assms by (simp add: dispatch_holding_def lease_try_acquire_def)

section \<open>Concurrent dispatch\<close>

fun run_events :: "Event list \<Rightarrow> 'c Ao \<Rightarrow> 'c Ao option" where
  "run_events [] ao = Some ao"
| "run_events (e # es) ao = Option.bind (ao_run_hsm e ao) (run_events es)"

lemma run_events_append: "run_events (es @ fs) ao = Option.bind (run_events es ao) (run_events fs)"
proof (induction es arbitrary: ao)
  case (Cons e es)
  then show ?case by (cases "ao_run_hsm e ao") simp_all
qed simp

definition ao_start :: "'c Ao \<Rightarrow> 'c AoSystem" where
  "ao_start ao = \<lparr>sys_ao = ao, sys_pc = (\<lambda>t. PcIdle), sys_done = []\<rparr>"

fun pc_lease :: "'c AoPc \<Rightarrow> AoRunState" where
  "pc_lease PcIdle = RunIdle"
| "pc_lease (PcHeld held evt) = held"
| "pc_lease (PcRunning held evt h ctx) = held"
| "pc_lease (PcRan held) = held"

definition ao_sys_inv :: "'c Ao \<Rightarrow> 'c AoSystem \<Rightarrow> bool" where
  "ao_sys_inv ao0 y \<longleftrightarrow>
     (\<forall>t t'. sys_pc y t \<noteq> PcIdle \<and> sys_pc y t' \<noteq> PcIdle \<longrightarrow> t = t')
     \<and> (\<forall>t. sys_pc y t \<noteq> PcIdle \<longrightarrow> pc_lease (sys_pc y t) = ao_lease (sys_ao y) \<and> ao_lease (sys_ao y) \<noteq> RunIdle)
     \<and> (\<forall>t held evt h ctx. sys_pc y t = PcRunning held evt h ctx \<longrightarrow> h = ao_hsm (sys_ao y) \<and> ctx = ao_context (sys_ao y))
     \<and> run_events (sys_done y) ao0 = Some ((sys_ao y)\<lparr>ao_lease := RunIdle\<rparr>)
     \<and> ao_ok (sys_ao y)"

lemma ao_sys_invD:
  assumes "ao_sys_inv ao0 y"
  shows "sys_pc y t \<noteq> PcIdle \<Longrightarrow> sys_pc y t' \<noteq> PcIdle \<Longrightarrow> t = t'"
    and "sys_pc y t \<noteq> PcIdle \<Longrightarrow> pc_lease (sys_pc y t) = ao_lease (sys_ao y) \<and> ao_lease (sys_ao y) \<noteq> RunIdle"
    and "sys_pc y t = PcRunning held evt h ctx \<Longrightarrow> h = ao_hsm (sys_ao y) \<and> ctx = ao_context (sys_ao y)"
    and "run_events (sys_done y) ao0 = Some ((sys_ao y)\<lparr>ao_lease := RunIdle\<rparr>)"
    and "ao_ok (sys_ao y)"
  using assms unfolding ao_sys_inv_def by blast+

lemma ao_sys_invI:
  assumes "\<And>t'. t' \<noteq> t \<Longrightarrow> sys_pc y t' = PcIdle"
    and "sys_pc y t \<noteq> PcIdle \<Longrightarrow> pc_lease (sys_pc y t) = ao_lease (sys_ao y) \<and> ao_lease (sys_ao y) \<noteq> RunIdle"
    and "\<And>held evt h ctx. sys_pc y t = PcRunning held evt h ctx \<Longrightarrow> h = ao_hsm (sys_ao y) \<and> ctx = ao_context (sys_ao y)"
    and "run_events (sys_done y) ao0 = Some ((sys_ao y)\<lparr>ao_lease := RunIdle\<rparr>)" "ao_ok (sys_ao y)"
  shows "ao_sys_inv ao0 y"
proof -
  have one: "t' = t" if "sys_pc y t' \<noteq> PcIdle" for t' using assms(1) that by blast
  have "h = ao_hsm (sys_ao y) \<and> ctx = ao_context (sys_ao y)" if "sys_pc y t' = PcRunning held evt h ctx" for t' held evt h ctx
    using assms(3) one [of t'] that by auto
  then show ?thesis unfolding ao_sys_inv_def using one assms(2,4,5) by blast
qed

lemma ao_step_inv:
  assumes "ao_step y y'" "ao_sys_inv ao0 y"
  shows "ao_sys_inv ao0 y'"
  using assms(1)
proof cases
  case (ao_acquire t held l evt)
  note D = ao_sys_invD [OF assms(2)]
  have l: "ao_lease (sys_ao y) = RunIdle" "l = held"
    using ao_acquire(4) by (auto simp: lease_try_acquire_def split: if_splits)
  then have "sys_pc y t' = PcIdle" for t' using D(2) by blast
  then show ?thesis using ao_acquire(3) l D(4,5) unfolding ao_acquire(1)
    by (intro ao_sys_invI [of t]) (simp_all add: ao_ok_def)
next
  case (ao_begin t held evt)
  note D = ao_sys_invD [OF assms(2)]
  have idle: "sys_pc y t' = PcIdle" if "t' \<noteq> t" for t' using D(1) [of t t'] ao_begin(2) that by auto
  have "held = ao_lease (sys_ao y)" "ao_lease (sys_ao y) \<noteq> RunIdle" using D(2) [of t] ao_begin(2) by simp_all
  then show ?thesis unfolding ao_begin(1) by (intro ao_sys_invI [of t]) (simp_all add: idle D(4,5))
next
  case (ao_finish t held evt h ctx handled h' ctx')
  note D = ao_sys_invD [OF assms(2)]
  have idle: "sys_pc y t' = PcIdle" if "t' \<noteq> t" for t' using D(1) [of t t'] ao_finish(2) that by auto
  have h: "h = ao_hsm (sys_ao y)" "ctx = ao_context (sys_ao y)" using D(3) [OF ao_finish(2)] by simp_all
  have "run_events (sys_done y') ao0 = Some ((sys_ao y')\<lparr>ao_lease := RunIdle\<rparr>)"
    using D(4) ao_finish(3) h unfolding ao_finish(1) by (simp add: run_events_append ao_run_hsm_def)
  moreover have "ao_ok (sys_ao y')"
    using hsm_dispatch_ok [of h ctx evt] D(5) ao_finish(3) h(1) unfolding ao_finish(1) by (simp add: ao_ok_def)
  ultimately show ?thesis using ao_finish(1) D(2) [of t] ao_finish(2) idle
    by (intro ao_sys_invI [of t]) simp_all
next
  case (ao_release t held l)
  note D = ao_sys_invD [OF assms(2)]
  have idle: "sys_pc y t' = PcIdle" if "t' \<noteq> t" for t' using D(1) [of t t'] ao_release(2) that by auto
  then show ?thesis using ao_release(1) D(4,5) by (intro ao_sys_invI [of t]) (auto simp: ao_ok_def)
qed

lemma ao_reachable:
  assumes "ao_step\<^sup>*\<^sup>* (ao_start ao) y" "ao_lease ao = RunIdle" "ao_ok ao"
  shows "ao_sys_inv ao y"
  using assms(1)
proof (induction rule: rtranclp_induct)
  case base
  show ?case using assms(2,3) by (simp add: ao_sys_inv_def ao_start_def)
next
  case (step y z)
  then show ?case by (blast intro: ao_step_inv)
qed

section \<open>Pending counter\<close>

lemma increment_run:
  assumes "cas_run increment_decide L w = Some v" "\<forall>c \<in> set L. fst c = limit" "w \<le> limit" "limit \<noteq> 0"
  shows "unat v = unat w + length (filter snd L) \<and> v \<le> limit \<and> (False \<in> snd ` set L \<longrightarrow> v = limit)"
  using assms
proof (induction L arbitrary: w)
  case (Cons c L)
  obtain r where c: "c = (limit, r)" using Cons.prems(2) by (cases c) simp
  show ?case
  proof (cases "w \<ge> limit")
    case True
    then have w: "w = limit" using Cons.prems(3) by simp
    then have f: "increment_decide limit w = None" using assms(4) by (simp add: increment_decide_def)
    then have "\<not> r" "cas_run increment_decide L w = Some v"
      using Cons.prems(1) c by (auto simp: cas_alone_def split: if_splits)
    then have IH: "unat v = unat limit + length (filter snd L)" "v \<le> limit" using Cons.IH [of w] Cons.prems w by simp_all
    then have "v = limit" by (simp add: word_le_nat_alt word_unat_eq_iff)
    then show ?thesis using IH \<open>\<not> r\<close> c w by simp
  next
    case False
    then have lt: "unat w < unat limit" by (simp add: word_less_nat_alt not_le)
    then have "unat w + 1 < 65536" using unat_less_16 [of limit] by linarith
    then have inc: "unat (w + 1) = unat w + 1" by (intro unat_inc) simp
    then have le: "w + 1 \<le> limit" using lt by (simp add: word_le_nat_alt)
    have "w \<noteq> 0xffff" using \<open>unat w + 1 < 65536\<close> by auto
    then have "increment_decide limit w = Some (w + 1)" using False by (simp add: increment_decide_def)
    then have "r" "cas_run increment_decide L (w + 1) = Some v"
      using Cons.prems(1) c by (auto simp: cas_alone_def split: if_splits)
    then show ?thesis using Cons.IH [of "w + 1"] Cons.prems(2,4) le c inc by auto
  qed
qed simp

section \<open>Registry\<close>

text \<open>Bound AOs have distinct priorities, none of them invalid.\<close>
definition bound :: "AoRegistry \<Rightarrow> nat list" where
  "bound slots = List.map_filter id slots"

definition registry_inv :: "(nat \<Rightarrow> 'c Ao) \<Rightarrow> AoRegistry \<Rightarrow> bool" where
  "registry_inv aos slots \<longleftrightarrow> length slots < 256 \<and> distinct (map (\<lambda>a. ao_logical_prio (aos a)) (bound slots))
     \<and> (\<forall>a \<in> set (bound slots). ao_logical_prio (aos a) \<noteq> kInvalidPrio)"

lemma bound_simps [simp]:
  "bound [] = []" "bound (None # slots) = bound slots" "bound (Some a # slots) = a # bound slots"
  "bound (xs @ ys) = bound xs @ bound ys"
  by (simp_all add: bound_def List.map_filter_def)

lemma set_bound: "a \<in> set (bound slots) \<longleftrightarrow> Some a \<in> set slots"
proof (induction slots)
  case (Cons s slots)
  then show ?case by (cases s) auto
qed simp

lemma prio_bound_iff: "prio_bound aos slots prio \<longleftrightarrow> prio \<in> (\<lambda>a. ao_logical_prio (aos a)) ` set (bound slots)"
  by (auto simp: prio_bound_def list_ex_iff set_bound image_iff split: option.splits)

lemma bound_update:
  assumes "i < length slots" "slots ! i = None"
  shows "mset (bound (slots[i := Some a])) = add_mset a (mset (bound slots))"
proof -
  have "slots = take i slots @ None # drop (Suc i) slots" using assms id_take_nth_drop [of i slots] by simp
  then have "bound slots = bound (take i slots) @ bound (drop (Suc i) slots)" by (metis bound_simps(2,4))
  then show ?thesis using assms(1) by (simp add: upd_conv_take_nth_drop)
qed

lemma bind_lowest_cases:
  "case bind_lowest a slots of
     (False, slots') \<Rightarrow> slots' = slots \<and> None \<notin> set slots
   | (True, slots') \<Rightarrow> \<exists>i < length slots. slots ! i = None \<and> slots' = slots[i := Some a] \<and> (\<forall>j < i. slots ! j \<noteq> None)"
proof (induction a slots rule: bind_lowest.induct)
  case (3 a b slots)
  obtain ok slots' where b: "bind_lowest a slots = (ok, slots')" by fastforce
  show ?case
  proof (cases ok)
    case True
    then obtain i where "i < length slots" "slots ! i = None" "slots' = slots[i := Some a]" "\<forall>j < i. slots ! j \<noteq> None"
      using 3 b by auto
    then have "Suc i < length (Some b # slots)" "\<forall>j < Suc i. (Some b # slots) ! j \<noteq> None"
      by (auto simp: less_Suc_eq_0_disj)
    then show ?thesis using b True \<open>slots ! i = None\<close> \<open>slots' = _\<close> by (auto intro!: exI [of _ "Suc i"])
  qed (use 3 b in auto)
qed auto

lemma registry_bound_inv:
  assumes "registry_inv aos slots" "i < length slots" "slots ! i = None" "\<not> prio_bound aos slots (ao_logical_prio (aos a))"
    "ao_logical_prio (aos a) \<noteq> kInvalidPrio"
  shows "registry_inv aos (slots[i := Some a])"
proof -
  have ms: "mset (map (\<lambda>a. ao_logical_prio (aos a)) (bound (slots[i := Some a])))
      = mset (map (\<lambda>a. ao_logical_prio (aos a)) (a # bound slots))"
    using bound_update [OF assms(2,3), of a] by simp
  have "distinct (map (\<lambda>a. ao_logical_prio (aos a)) (a # bound slots))"
    using assms(1,4) by (auto simp: registry_inv_def prio_bound_iff)
  then have "distinct (map (\<lambda>a. ao_logical_prio (aos a)) (bound (slots[i := Some a])))"
    using mset_eq_imp_distinct_iff [OF ms] by blast
  moreover have "set (bound (slots[i := Some a])) = insert a (set (bound slots))"
    using bound_update [OF assms(2,3), of a] by (metis set_mset_add_mset_insert set_mset_mset)
  ultimately show ?thesis using assms(1,5) by (simp add: registry_inv_def)
qed

lemma target_scan_at:
  assumes "i < length slots" "slots ! i = Some a" "\<forall>j < i. slots ! j \<noteq> Some a"
  shows "target_scan a k slots = of_nat (k + i + 1)"
  using assms
proof (induction slots arbitrary: i k)
  case (Cons s slots)
  then show ?case by (cases i) (force, fastforce simp: nth_Cons' split: if_splits)
qed simp

text \<open>A bound AO is found under one target only.\<close>
lemma registry_unique:
  assumes "registry_inv aos slots" "i < length slots" "j < length slots" "slots ! i = Some a" "slots ! j = Some a"
  shows "i = j"
proof (rule ccontr)
  assume "i \<noteq> j"
  have *: False if "i < j" "slots ! i = Some a" "slots ! j = Some a" "j < length slots" for i j
  proof -
    have "slots = take i slots @ Some a # drop (Suc i) slots" using that id_take_nth_drop [of i slots] by simp
    moreover have "Some a \<in> set (drop (Suc i) slots)" using that by (auto simp: in_set_conv_nth intro!: exI [of _ "j - Suc i"])
    ultimately have "\<not> distinct (bound slots)" by (metis bound_simps(3,4) distinct.simps(2) distinct_append set_bound)
    then show False using assms(1) by (auto simp: registry_inv_def distinct_map)
  qed
  show False using \<open>i \<noteq> j\<close> assms *[of i j] *[of j i] by (cases "i < j") auto
qed

lemma target_of_lookup:
  assumes "registry_inv aos slots" "registry_lookup slots t = Some a"
  shows "target_of (Some a) slots = t"
proof -
  have t: "t \<noteq> 0" "unat t \<le> length slots" "slots ! (unat t - 1) = Some a"
    using assms(2) by (auto simp: registry_lookup_def kInvalidTarget_def split: if_splits)
  then have "0 < unat t" by (simp add: unat_gt_0)
  then have i: "unat t - 1 < length slots" using t(2) by simp
  then have "\<forall>j < unat t - 1. slots ! j \<noteq> Some a"
    using registry_unique [OF assms(1) _ i _ t(3)] by (metis less_irrefl less_trans)
  then have "target_scan a 0 slots = of_nat (0 + (unat t - 1) + 1)" by (rule target_scan_at [OF i t(3)])
  then show ?thesis using \<open>0 < unat t\<close> by (simp add: target_of_def)
qed

text \<open>An AO around the example machine.\<close>
definition demo_ao :: "int list Ao" where
  "demo_ao = \<lparr>ao_rtc_budget_ns = 1000, ao_logical_prio = 5, ao_priority_class = Normal, ao_direct_eligible = True,
     ao_isr_direct_safe = False, ao_context = [], ao_hsm = demo_hsm, ao_lease = RunIdle, ao_initialized = True,
     pending_ctr = 0, ao_unhandled = 0\<rparr>"

lemma demo_ao_ok: "hsm_ok demo_hsm"
  using demo_hsm_ok by (simp add: hsm_ok_def valid_def)

section \<open>Properties\<close>

text \<open>
  C37. One execution at a time: however many threads dispatch to an AO, directly or from the
  dispatcher, at most one is between its acquisition and its release; the AO is exactly what
  running the completed events one after the other, each to completion, makes of it; a run
  that has begun returns; and no release ever finds the lease in a state other than its own.
\<close>
theorem ao_single_execution:
  assumes "ao_step\<^sup>*\<^sup>* (ao_start ao) y" and "ao_lease ao = RunIdle" and "hsm_ok (ao_hsm ao)"
  shows "(\<forall>t t'. sys_pc y t \<noteq> PcIdle \<and> sys_pc y t' \<noteq> PcIdle \<longrightarrow> t = t')
    \<and> run_events (sys_done y) ao = Some ((sys_ao y)\<lparr>ao_lease := RunIdle\<rparr>)
    \<and> (\<forall>t held evt h ctx. sys_pc y t = PcRunning held evt h ctx \<longrightarrow> hsm_dispatch h ctx evt \<noteq> None)
    \<and> (\<forall>t held. sys_pc y t = PcRan held \<longrightarrow> lease_release held (ao_lease (sys_ao y)) = Some RunIdle)"
proof -
  note D = ao_sys_invD [OF ao_reachable [OF assms(1,2)]]
  have ok: "ao_ok ao" using assms(3) by (simp add: ao_ok_def)
  have "hsm_dispatch h ctx evt \<noteq> None" if "sys_pc y t = PcRunning held evt h ctx" for t held evt h ctx
    using D(3) [OF ok that] D(5) [OF ok] hsm_dispatch_ok [of h ctx evt] by (auto simp: ao_ok_def)
  moreover have "lease_release held (ao_lease (sys_ao y)) = Some RunIdle" if "sys_pc y t = PcRan held" for t held
    using D(2) [OF ok, of t] that by (simp add: lease_release_def)
  ultimately show ?thesis using D(1,4) [OF ok] by blast
qed

theorem ao_single_execution_witness:
  "\<exists>y :: int list AoSystem. ao_step\<^sup>*\<^sup>* (ao_start demo_ao) y \<and> sys_done y = [demo_evt 7] \<and> sys_pc y 3 = PcRan RunningDirect
     \<and> lease_release RunningDirect (ao_lease (sys_ao y)) = Some RunIdle"
proof -
  define sys where "sys a p d = \<lparr>sys_ao = a, sys_pc = (\<lambda>t. PcIdle)(3 := p), sys_done = d\<rparr>"
    for a :: "int list Ao" and p d
  let ?a = "demo_ao\<lparr>ao_lease := RunningDirect\<rparr>"
  obtain handled h ctx where d: "hsm_dispatch (ao_hsm ?a) (ao_context ?a) (demo_evt 7) = Some (handled, h, ctx)"
    using hsm_dispatch_ok [OF demo_ao_ok, of "[]" "demo_evt 7"] by (auto simp: demo_ao_def)
  define b where "b = ?a\<lparr>ao_hsm := h, ao_context := ctx,
      ao_unhandled := (if handled then ao_unhandled ?a else ao_unhandled ?a + 1)\<rparr>"
  have start: "ao_start demo_ao = sys demo_ao PcIdle []" by (simp add: ao_start_def sys_def fun_eq_iff)
  have "ao_step (sys demo_ao PcIdle []) (sys ?a (PcHeld RunningDirect (demo_evt 7)) [])"
    using ao_acquire [of "sys demo_ao PcIdle []" 3 RunningDirect RunningDirect "demo_evt 7"]
    by (simp add: sys_def lease_try_acquire_def demo_ao_def)
  moreover have "ao_step (sys ?a (PcHeld RunningDirect (demo_evt 7)) [])
      (sys ?a (PcRunning RunningDirect (demo_evt 7) (ao_hsm ?a) (ao_context ?a)) [])"
    using ao_begin [of "sys ?a (PcHeld RunningDirect (demo_evt 7)) []" 3] by (simp add: sys_def)
  moreover have "ao_step (sys ?a (PcRunning RunningDirect (demo_evt 7) (ao_hsm ?a) (ao_context ?a)) [])
      (sys b (PcRan RunningDirect) [demo_evt 7])"
    unfolding b_def using ao_finish [OF _ d, of "sys ?a (PcRunning RunningDirect (demo_evt 7) (ao_hsm ?a) (ao_context ?a)) []" 3]
    by (cases handled) (simp_all add: sys_def)
  ultimately have run: "ao_step\<^sup>*\<^sup>* (ao_start demo_ao) (sys b (PcRan RunningDirect) [demo_evt 7])"
    unfolding start by (meson converse_rtranclp_into_rtranclp rtranclp.rtrancl_refl)
  have ok: "ao_lease demo_ao = RunIdle" "hsm_ok (ao_hsm demo_ao)" using demo_ao_ok by (simp_all add: demo_ao_def)
  have "sys_pc (sys b (PcRan RunningDirect) [demo_evt 7]) 3 = PcRan RunningDirect" by (simp add: sys_def)
  then have "lease_release RunningDirect (ao_lease (sys_ao (sys b (PcRan RunningDirect) [demo_evt 7]))) = Some RunIdle"
    using ao_single_execution [OF run ok] by blast
  then show ?thesis using run by (intro exI [of _ "sys b (PcRan RunningDirect) [demo_evt 7]"]) (simp add: sys_def)
qed

text \<open>
  C38. The backlog cap holds under concurrency: after any interleaving of \<^verbatim>\<open>try_increment\<close> calls
  with one cap, the counter has grown by exactly the number of calls that returned true, it
  does not exceed the cap, and a call was refused only if the cap is reached.
\<close>
theorem pending_cap_exact:
  assumes "(cas_step increment_decide)\<^sup>*\<^sup>* (cas_start w) u" and "limit \<noteq> 0" and "w \<le> limit"
    and "\<forall>c \<in> set (cas_returned u). fst c = limit"
  shows "unat (cas_word u) = unat w + length (filter snd (cas_returned u)) \<and> cas_word u \<le> limit
    \<and> (False \<in> snd ` set (cas_returned u) \<longrightarrow> cas_word u = limit)"
proof -
  obtain L where L: "mset L = mset (cas_returned u)" "cas_run increment_decide L w = Some (cas_word u)"
    using cas_linearises [OF assms(1)] by blast
  have "set L = set (cas_returned u)" using L(1) by (metis set_mset_mset)
  moreover have "length (filter snd L) = length (filter snd (cas_returned u))"
    using L(1) by (metis mset_filter size_mset)
  ultimately show ?thesis using increment_run [OF L(2), of limit] assms(2-4) by simp
qed

text \<open>Two threads reserve the one place left: the second retries and is refused.\<close>
theorem pending_cap_exact_witness:
  "\<exists>u :: (u16, u16) CasSystem. (cas_step increment_decide)\<^sup>*\<^sup>* (cas_start 2) u
     \<and> cas_returned u = [(3, True), (3, False)] \<and> cas_word u = 3"
proof -
  define sys where "sys w a b rs = \<lparr>cas_word = w, cas_pc = (\<lambda>t. CasIdle)(0 := a, 1 := b), cas_returned = rs\<rparr>"
    for w :: u16 and a b and rs :: "(u16 \<times> bool) list"
  let ?f = increment_decide
  have f: "?f 3 2 = Some 3" "?f 3 3 = None" by code_simp+
  have start: "cas_start 2 = sys 2 CasIdle CasIdle []" by (simp add: sys_def cas_start_def fun_eq_iff)
  have "cas_step ?f (sys 2 CasIdle CasIdle []) (sys 2 (CasLoaded 3 2) CasIdle [])"
    using cas_load [of "sys 2 CasIdle CasIdle []" 0 ?f 3] by (simp add: sys_def fun_upd_twist)
  moreover have "cas_step ?f (sys 2 (CasLoaded 3 2) CasIdle []) (sys 2 (CasLoaded 3 2) (CasLoaded 3 2) [])"
    using cas_load [of "sys 2 (CasLoaded 3 2) CasIdle []" 1 ?f 3] by (simp add: sys_def)
  moreover have "cas_step ?f (sys 2 (CasLoaded 3 2) (CasLoaded 3 2) []) (sys 3 CasIdle (CasLoaded 3 2) [(3, True)])"
    using cas_exchange [of "sys 2 (CasLoaded 3 2) (CasLoaded 3 2) []" 0 3 2 ?f 3] f
    by (simp add: sys_def fun_upd_twist)
  moreover have "cas_step ?f (sys 3 CasIdle (CasLoaded 3 2) [(3, True)]) (sys 3 CasIdle (CasLoaded 3 3) [(3, True)])"
    using cas_retry [of "sys 3 CasIdle (CasLoaded 3 2) [(3, True)]" 1 3 2 ?f] f by (simp add: sys_def)
  moreover have "cas_step ?f (sys 3 CasIdle (CasLoaded 3 3) [(3, True)]) (sys 3 CasIdle CasIdle [(3, True), (3, False)])"
    using cas_give_up [of "sys 3 CasIdle (CasLoaded 3 3) [(3, True)]" 1 3 3 ?f] f by (simp add: sys_def)
  ultimately have run: "(cas_step ?f)\<^sup>*\<^sup>* (cas_start 2) (sys 3 CasIdle CasIdle [(3, True), (3, False)])"
    unfolding start by (meson converse_rtranclp_into_rtranclp rtranclp.rtrancl_refl)
  have "cas_word (sys 3 CasIdle CasIdle [(3, True), (3, False)]) = 3"
    using pending_cap_exact [OF run, of 3] by (simp add: sys_def)
  then show ?thesis using run
    by (intro exI [of _ "sys 3 CasIdle CasIdle [(3, True), (3, False)]"]) (simp add: sys_def)
qed

end
