(* ===== verification/Staging.thy ===== *)
theory Staging
  imports Mpsc_Queue Cas_Loop
begin

text \<open>
  The three-partition staging area of staging.hpp: capacity reservations, batch selection with
  low-priority aging, the dispatcher wake latch and the submission word that orders ingress
  with shutdown.

  \<^item> The queue backend is a template argument; here a staging queue is a value of one of the
    two backends, and its operations are those of the backend. The interface \<^verbatim>\<open>bounded_queue\<close>
    is interpreted once on these operations.
  \<^item> The configuration is passed to the operations that read its constants.
  \<^item> A retry loop run by one thread alone is \<^verbatim>\<open>cas_alone\<close> of its decision.
\<close>

section \<open>Partitions, slots and queues\<close>

datatype Partition = PHigh | PNormal | PLow

fun partition_from_class :: "PriorityClass \<Rightarrow> Partition" where
  "partition_from_class High = PHigh"
| "partition_from_class Normal = PNormal"
| "partition_from_class Low = PLow"

datatype ReservationClaim = ClaimNone | HighOrdinary | NormalOrdinary | NormalReserved

record StagingSlot =
  slot_target :: TargetId
  slot_claim :: ReservationClaim
  slot_event :: nat
  enqueue_ns :: u32

datatype StagingQueue = RingQ "StagingSlot SingleCoreCriticalRing" | MpscQ "StagingSlot BoundedMpscQueue"

datatype QueueBackend = RingBackend | MpscBackend

fun sq_new :: "QueueBackend \<Rightarrow> u16 \<Rightarrow> StagingQueue" where
  "sq_new RingBackend capacity = RingQ (ring_init capacity)"
| "sq_new MpscBackend capacity = MpscQ (mpsc_init capacity)"

fun sq_try_push :: "StagingQueue \<Rightarrow> StagingSlot \<Rightarrow> bool \<times> StagingQueue" where
  "sq_try_push (RingQ q) x = map_prod id RingQ (ring_try_push q x)"
| "sq_try_push (MpscQ q) x = map_prod id MpscQ (push_impl q x)"

fun sq_try_pop :: "StagingQueue \<Rightarrow> StagingSlot option \<times> StagingQueue" where
  "sq_try_pop (RingQ q) = map_prod id RingQ (ring_try_pop q)"
| "sq_try_pop (MpscQ q) = map_prod id MpscQ (pop_ready q)"

fun sq_front :: "StagingQueue \<Rightarrow> StagingSlot option" where
  "sq_front (RingQ q) = ring_front q"
| "sq_front (MpscQ q) = mpsc_front q"

fun sq_size :: "StagingQueue \<Rightarrow> u16" where
  "sq_size (RingQ q) = ring_size q"
| "sq_size (MpscQ q) = mpsc_size q"

fun sq_has_ready :: "StagingQueue \<Rightarrow> bool" where
  "sq_has_ready (RingQ q) = ring_has_ready q"
| "sq_has_ready (MpscQ q) = mpsc_has_ready q"

section \<open>Batch selection\<close>

text \<open>\<^verbatim>\<open>BatchSelector::select\<close>: None is the result false.\<close>
definition select :: "u16 \<Rightarrow> u16 \<Rightarrow> u16 \<Rightarrow> bool \<Rightarrow> u16 \<Rightarrow> u16 \<Rightarrow> Partition option" where
  "select high normal low low_aged used_now batch_max =
     (if used_now \<ge> batch_max then None
      else if 1 \<le> low \<and> low_aged then Some PLow
      else if 1 \<le> high then Some PHigh
      else if 1 \<le> normal then Some PNormal
      else if 1 \<le> low then Some PLow
      else None)"

section \<open>The staging area\<close>

record Staging =
  high_q :: StagingQueue
  normal_q :: StagingQueue
  low_q :: StagingQueue
  wake_pending :: bool
  admission_word :: u32
  high_ordinary_claims :: u32
  normal_ordinary_claims :: u32
  normal_reserved_claims :: u32
  sg_now_ns :: u64
  sg_now_valid :: bool
  batch_used :: u8

definition staging_new :: "QueueBackend \<Rightarrow> Config \<Rightarrow> Staging" where
  "staging_new b cfg = \<lparr>high_q = sq_new b (kHighCapacity cfg), normal_q = sq_new b (kNormalCapacity cfg),
     low_q = sq_new b (kLowCapacity cfg), wake_pending = True, admission_word = 0, high_ordinary_claims = 0,
     normal_ordinary_claims = 0, normal_reserved_claims = 0, sg_now_ns = 0, sg_now_valid = False, batch_used = 0\<rparr>"

fun part_q :: "Partition \<Rightarrow> Staging \<Rightarrow> StagingQueue" where
  "part_q PHigh s = high_q s"
| "part_q PNormal s = normal_q s"
| "part_q PLow s = low_q s"

fun set_part_q :: "Partition \<Rightarrow> StagingQueue \<Rightarrow> Staging \<Rightarrow> Staging" where
  "set_part_q PHigh q s = s\<lparr>high_q := q\<rparr>"
| "set_part_q PNormal q s = s\<lparr>normal_q := q\<rparr>"
| "set_part_q PLow q s = s\<lparr>low_q := q\<rparr>"

fun part_capacity :: "Config \<Rightarrow> Partition \<Rightarrow> u16" where
  "part_capacity cfg PHigh = kHighCapacity cfg"
| "part_capacity cfg PNormal = kNormalCapacity cfg"
| "part_capacity cfg PLow = kLowCapacity cfg"

subsection \<open>Claims\<close>

definition admission_valid :: "Config \<Rightarrow> PriorityClass \<Rightarrow> StagingAdmission \<Rightarrow> bool" where
  "admission_valid cfg cls adm =
     (if adm = Ordinary then True else cls = Normal \<and> kNormalReservedCapacity cfg \<noteq> 0)"

definition claim_decide :: "u32 \<Rightarrow> u32 \<Rightarrow> u32 option" where
  "claim_decide limit observed = (if observed < limit then Some (observed + 1) else None)"

definition try_claim_counter :: "u32 \<Rightarrow> u32 \<Rightarrow> bool \<times> u32" where
  "try_claim_counter limit c = cas_alone claim_decide limit c"

definition release_claim_counter :: "u32 \<Rightarrow> u32 option" where
  "release_claim_counter prior = do { coact_assert (prior > 0); Some (prior - 1) }"

definition classify_claim :: "Config \<Rightarrow> PriorityClass \<Rightarrow> bool \<Rightarrow> StagingAdmission \<Rightarrow> ReservationClaim" where
  "classify_claim cfg cls crit adm =
     (if cls = Normal \<and> adm = ReservedNormal then NormalReserved
      else if cls = Normal \<and> kNormalReservedCapacity cfg \<noteq> 0 then NormalOrdinary
      else if cls = High \<and> \<not> crit \<and> kHighCriticalReserve cfg \<noteq> 0 then HighOrdinary
      else ClaimNone)"

text \<open>The claim counters by claim; a slot without a claim has no counter.\<close>
fun claim_count :: "ReservationClaim \<Rightarrow> Staging \<Rightarrow> u32" where
  "claim_count ClaimNone s = 0"
| "claim_count HighOrdinary s = high_ordinary_claims s"
| "claim_count NormalOrdinary s = normal_ordinary_claims s"
| "claim_count NormalReserved s = normal_reserved_claims s"

fun set_claim_count :: "ReservationClaim \<Rightarrow> u32 \<Rightarrow> Staging \<Rightarrow> Staging" where
  "set_claim_count ClaimNone n s = s"
| "set_claim_count HighOrdinary n s = s\<lparr>high_ordinary_claims := n\<rparr>"
| "set_claim_count NormalOrdinary n s = s\<lparr>normal_ordinary_claims := n\<rparr>"
| "set_claim_count NormalReserved n s = s\<lparr>normal_reserved_claims := n\<rparr>"

text \<open>The differences are computed as ints and cast to 32 bits; the reserves do not exceed the capacities.\<close>
fun claim_limit :: "Config \<Rightarrow> ReservationClaim \<Rightarrow> u32" where
  "claim_limit cfg ClaimNone = 0"
| "claim_limit cfg HighOrdinary = ucast (kHighCapacity cfg) - ucast (kHighCriticalReserve cfg)"
| "claim_limit cfg NormalOrdinary = ucast (kNormalCapacity cfg) - ucast (kNormalReservedCapacity cfg)"
| "claim_limit cfg NormalReserved = ucast (kNormalReservedCapacity cfg)"

definition try_claim :: "Config \<Rightarrow> ReservationClaim \<Rightarrow> Staging \<Rightarrow> bool \<times> Staging" where
  "try_claim cfg claim s =
     (if claim = ClaimNone then (True, s)
      else case try_claim_counter (claim_limit cfg claim) (claim_count claim s) of
             (ok, n) \<Rightarrow> (ok, set_claim_count claim n s))"

definition release_claim :: "ReservationClaim \<Rightarrow> Staging \<Rightarrow> Staging option" where
  "release_claim claim s =
     (if claim = ClaimNone then Some s
      else do { n \<leftarrow> release_claim_counter (claim_count claim s); Some (set_claim_count claim n s) })"

subsection \<open>Enqueue and dequeue\<close>

definition enqueue ::
    "Config \<Rightarrow> TargetId \<Rightarrow> nat \<Rightarrow> PriorityClass \<Rightarrow> u64 \<Rightarrow> bool \<Rightarrow> StagingAdmission \<Rightarrow> Staging \<Rightarrow> (bool \<times> Staging) option" where
  "enqueue cfg target e cls now crit adm s =
     (if \<not> admission_valid cfg cls adm then Some (False, s)
      else let claim = classify_claim cfg cls crit adm in
        case try_claim cfg claim s of
          (False, s1) \<Rightarrow> Some (False, s1)
        | (True, s1) \<Rightarrow>
            let slot = \<lparr>slot_target = target, slot_claim = claim, slot_event = e, enqueue_ns = ucast now\<rparr>;
                p = partition_from_class cls;
                (queued, q) = sq_try_push (part_q p s1) slot;
                s2 = set_part_q p q s1
            in if queued then Some (True, s2)
               else do { s3 \<leftarrow> release_claim claim s2; Some (False, s3) })"

definition enqueue_ordinary :: "Config \<Rightarrow> TargetId \<Rightarrow> nat \<Rightarrow> PriorityClass \<Rightarrow> u64 \<Rightarrow> Staging \<Rightarrow> (bool \<times> Staging) option" where
  "enqueue_ordinary cfg target e cls now s = enqueue cfg target e cls now False Ordinary s"

definition ready_count :: "Partition \<Rightarrow> Staging \<Rightarrow> u16" where
  "ready_count p s = (if sq_has_ready (part_q p s) then 1 else 0)"

definition any_ready :: "Staging \<Rightarrow> bool" where
  "any_ready s = (sq_has_ready (high_q s) \<or> sq_has_ready (normal_q s) \<or> sq_has_ready (low_q s))"

definition sg_size :: "Partition \<Rightarrow> Staging \<Rightarrow> u16" where
  "sg_size p s = sq_size (part_q p s)"

definition any_buffered :: "Staging \<Rightarrow> bool" where
  "any_buffered s = (sg_size PHigh s \<noteq> 0 \<or> sg_size PNormal s \<noteq> 0 \<or> sg_size PLow s \<noteq> 0)"

definition aging_expired :: "Config \<Rightarrow> Staging \<Rightarrow> bool" where
  "aging_expired cfg s =
     (if \<not> sg_now_valid s then False
      else let wait_ns = kLowMaxWaitMs cfg * 1000000 in
        case sq_front (low_q s) of
          None \<Rightarrow> False
        | Some head \<Rightarrow>
            let delta = ucast (sg_now_ns s) - enqueue_ns head
            in if sint delta < 0 then False else delta \<ge> wait_ns)"

definition dequeue_one :: "Config \<Rightarrow> u64 \<Rightarrow> Staging \<Rightarrow> (StagingSlot option \<times> Staging) option" where
  "dequeue_one cfg now s =
     (let s0 = s\<lparr>sg_now_ns := now, sg_now_valid := True\<rparr> in
      if \<not> any_ready s0 then Some (None, s0)
      else case select (ready_count PHigh s0) (ready_count PNormal s0) (ready_count PLow s0)
             (aging_expired cfg s0) (ucast (batch_used s0)) (ucast (kBatchSizeMax cfg)) of
          None \<Rightarrow> Some (None, s0)
        | Some part \<Rightarrow>
            (case sq_try_pop (part_q part s0) of
               (None, q) \<Rightarrow> Some (None, set_part_q part q s0)
             | (Some out, q) \<Rightarrow> do {
                 s1 \<leftarrow> release_claim (slot_claim out) (set_part_q part q s0);
                 Some (Some out, s1\<lparr>batch_used := batch_used s1 + 1\<rparr>)
               }))"

definition dequeue_one_cached :: "Config \<Rightarrow> Staging \<Rightarrow> (StagingSlot option \<times> Staging) option" where
  "dequeue_one_cached cfg s = dequeue_one cfg (if sg_now_valid s then sg_now_ns s else 0) s"

definition begin_batch :: "Staging \<Rightarrow> Staging" where
  "begin_batch s = s\<lparr>batch_used := 0\<rparr>"

definition sg_tick :: "u64 \<Rightarrow> Staging \<Rightarrow> Staging" where
  "sg_tick now s = s\<lparr>sg_now_ns := now, sg_now_valid := True\<rparr>"

subsection \<open>Wake latch and submission word\<close>

definition arm_dispatcher_wait :: "Staging \<Rightarrow> Staging" where
  "arm_dispatcher_wait s = s\<lparr>wake_pending := False\<rparr>"

definition request_dispatcher_wake :: "Staging \<Rightarrow> bool \<times> Staging" where
  "request_dispatcher_wake s = (\<not> wake_pending s, s\<lparr>wake_pending := True\<rparr>)"

definition kAdmissionClosed :: u32 where "kAdmissionClosed = 0x80000000"

definition kAdmissionCountMask :: u32 where "kAdmissionCountMask = NOT kAdmissionClosed"

definition submission_decide :: "unit \<Rightarrow> u32 \<Rightarrow> u32 option" where
  "submission_decide u state =
     (if state AND kAdmissionClosed \<noteq> 0 then None
      else if state AND kAdmissionCountMask = kAdmissionCountMask then None
      else Some (state + 1))"

definition acquire_submission :: "Staging \<Rightarrow> bool \<times> Staging" where
  "acquire_submission s =
     (case cas_alone submission_decide () (admission_word s) of (ok, w) \<Rightarrow> (ok, s\<lparr>admission_word := w\<rparr>))"

definition release_submission :: "Staging \<Rightarrow> bool \<times> Staging" where
  "release_submission s =
     (kAdmissionClosed OR 1 = admission_word s, s\<lparr>admission_word := admission_word s - 1\<rparr>)"

definition close_admission :: "Staging \<Rightarrow> Staging" where
  "close_admission s = s\<lparr>admission_word := admission_word s OR kAdmissionClosed\<rparr>"

definition submissions_idle :: "Staging \<Rightarrow> bool" where
  "submissions_idle s = (admission_word s AND kAdmissionCountMask = 0)"

definition watermark :: "Config \<Rightarrow> Partition \<Rightarrow> Staging \<Rightarrow> u8" where
  "watermark cfg p s =
     (let u = sq_size (part_q p s); cap = part_capacity cfg p
      in if u = 0 then 0
         else let pct = (ucast u * 100) div (ucast cap :: u32)
              in ucast (if pct > 100 then 100 else pct))"

end
