(* ===== verification/Staging_Properties.thy ===== *)
theory Staging_Properties
  imports Staging
begin

text \<open>
  Correctness of the staging area over either queue backend. The interface \<^verbatim>\<open>bounded_queue\<close> is
  interpreted on the staging queues; the abstract state of a staging area is then one list of
  slots per partition. The invariant ties the claim counters to the claims of the resident
  slots, from which the capacity guarantees follow.
\<close>

section \<open>The queues\<close>

fun sq_cap :: "StagingQueue \<Rightarrow> nat" where
  "sq_cap (RingQ q) = ring_capacity q"
| "sq_cap (MpscQ q) = mpsc_capacity q"

fun sq_contents :: "StagingQueue \<Rightarrow> StagingSlot list" where
  "sq_contents (RingQ q) = ring_contents q"
| "sq_contents (MpscQ q) = mpsc_contents q"

fun sq_inv :: "StagingQueue \<Rightarrow> bool" where
  "sq_inv (RingQ q) = ring_inv q"
| "sq_inv (MpscQ q) = mpsc_inv q"

fun sq_fresh :: "nat \<Rightarrow> StagingQueue \<Rightarrow> bool" where
  "sq_fresh n (RingQ q) = True"
| "sq_fresh n (MpscQ q) = mpsc_fresh n q"

interpretation staging_queue: bounded_queue sq_try_push sq_try_pop sq_front sq_size sq_has_ready
  sq_cap sq_contents sq_inv sq_fresh
proof unfold_locales
  fix q x n
  assume "sq_inv q" "sq_fresh (Suc n) q" "length (sq_contents q) < sq_cap q"
  then show "\<exists>q'. sq_try_push q x = (True, q') \<and> sq_inv q' \<and> sq_contents q' = sq_contents q @ [x]
      \<and> sq_cap q' = sq_cap q \<and> sq_fresh n q'"
  proof (cases q)
    case (RingQ r)
    then show ?thesis using \<open>sq_inv q\<close> \<open>length _ < _\<close> ring_queue.push_ok [of r x] by (auto intro: exI [of _ "RingQ _"])
  next
    case (MpscQ m)
    then show ?thesis using \<open>sq_inv q\<close> \<open>length _ < _\<close> \<open>sq_fresh (Suc n) q\<close> mpsc_queue.push_ok [of m n x]
      by (auto intro: exI [of _ "MpscQ _"])
  qed
next
  fix q x
  assume "sq_inv q" "length (sq_contents q) = sq_cap q"
  then show "\<exists>q'. sq_try_push q x = (False, q') \<and> sq_inv q' \<and> sq_contents q' = sq_contents q
      \<and> sq_cap q' = sq_cap q \<and> (\<forall>n. sq_fresh n q \<longrightarrow> sq_fresh n q')"
  proof (cases q)
    case (RingQ r)
    then show ?thesis using \<open>sq_inv q\<close> \<open>length _ = _\<close> ring_queue.push_full [of r x] by (auto intro: exI [of _ "RingQ _"])
  next
    case (MpscQ m)
    then show ?thesis using \<open>sq_inv q\<close> \<open>length _ = _\<close> mpsc_queue.push_full [of m x] by (auto intro: exI [of _ "MpscQ _"])
  qed
next
  fix q x xs
  assume "sq_inv q" "sq_contents q = x # xs"
  then show "\<exists>q'. sq_try_pop q = (Some x, q') \<and> sq_inv q' \<and> sq_contents q' = xs
      \<and> sq_cap q' = sq_cap q \<and> (\<forall>n. sq_fresh n q \<longrightarrow> sq_fresh n q')"
  proof (cases q)
    case (RingQ r)
    then show ?thesis using \<open>sq_inv q\<close> \<open>sq_contents q = _\<close> ring_queue.pop_cons [of r x xs] by (auto intro: exI [of _ "RingQ _"])
  next
    case (MpscQ m)
    then show ?thesis using \<open>sq_inv q\<close> \<open>sq_contents q = _\<close> mpsc_queue.pop_cons [of m x xs] by (auto intro: exI [of _ "MpscQ _"])
  qed
next
  fix q
  assume "sq_inv q" "sq_contents q = []"
  then show "sq_try_pop q = (None, q)"
    by (cases q) (auto simp: ring_queue.pop_nil mpsc_queue.pop_nil)
next
  fix q
  assume "sq_inv q"
  then show "sq_front q = (if sq_contents q = [] then None else Some (hd (sq_contents q)))"
    "unat (sq_size q) = length (sq_contents q)" "sq_has_ready q = (sq_contents q \<noteq> [])"
    "length (sq_contents q) \<le> sq_cap q"
    by (cases q; simp add: ring_queue.front_hd mpsc_queue.front_hd ring_queue.size_length mpsc_queue.size_length
        ring_queue.ready_iff mpsc_queue.ready_iff ring_queue.contents_bound [simplified] mpsc_queue.contents_bound)+
next
  fix q n
  assume "sq_fresh (Suc n) q"
  then show "sq_fresh n q" by (cases q) (auto intro: mpsc_queue.fresh_less)
qed

section \<open>Abstract state and invariant\<close>

definition parts :: "Staging \<Rightarrow> Partition \<Rightarrow> StagingSlot list" where
  "parts s p = sq_contents (part_q p s)"

definition claims :: "ReservationClaim \<Rightarrow> StagingSlot list \<Rightarrow> nat" where
  "claims c xs = length (filter (\<lambda>x. slot_claim x = c) xs)"

lemma claims_simps [simp]:
  "claims c [] = 0" "claims c (x # xs) = (if slot_claim x = c then 1 else 0) + claims c xs"
  "claims c (xs @ ys) = claims c xs + claims c ys"
  by (simp_all add: claims_def)

fun claim_part :: "ReservationClaim \<Rightarrow> Partition" where
  "claim_part HighOrdinary = PHigh"
| "claim_part NormalOrdinary = PNormal"
| "claim_part NormalReserved = PNormal"
| "claim_part ClaimNone = PLow"

text \<open>The claims the slots of a partition may carry.\<close>
fun claim_ok :: "Config \<Rightarrow> Partition \<Rightarrow> ReservationClaim \<Rightarrow> bool" where
  "claim_ok cfg PHigh c = (c \<in> {ClaimNone, HighOrdinary})"
| "claim_ok cfg PNormal c = (c \<in> (if kNormalReservedCapacity cfg = 0 then {ClaimNone} else {NormalOrdinary, NormalReserved}))"
| "claim_ok cfg PLow c = (c = ClaimNone)"

definition config_ok :: "Config \<Rightarrow> bool" where
  "config_ok cfg \<longleftrightarrow> kHighCriticalReserve cfg \<le> kHighCapacity cfg \<and> kNormalReservedCapacity cfg \<le> kNormalCapacity cfg"

definition staging_inv :: "Config \<Rightarrow> Staging \<Rightarrow> bool" where
  "staging_inv cfg s \<longleftrightarrow>
     (\<forall>p. sq_inv (part_q p s) \<and> sq_cap (part_q p s) = unat (part_capacity cfg p)
        \<and> (\<forall>x \<in> set (parts s p). claim_ok cfg p (slot_claim x)))
     \<and> (\<forall>c. c \<noteq> ClaimNone \<longrightarrow> unat (claim_count c s) = claims c (parts s (claim_part c))
        \<and> claim_count c s \<le> claim_limit cfg c)"

definition staging_fresh :: "nat \<Rightarrow> Staging \<Rightarrow> bool" where
  "staging_fresh n s \<longleftrightarrow> (\<forall>p. sq_fresh n (part_q p s))"

lemma part_q_set [simp]: "part_q p (set_part_q p' q s) = (if p = p' then q else part_q p s)"
  by (cases p; cases p') simp_all

lemma part_q_set_claim [simp]: "part_q p (set_claim_count c n s) = part_q p s"
  by (cases p; cases c) simp_all

lemma claim_count_set_part [simp]: "claim_count c (set_part_q p q s) = claim_count c s"
  by (cases p; cases c) simp_all

lemma claim_count_set [simp]:
  "claim_count c (set_claim_count c' n s) = (if c = c' \<and> c \<noteq> ClaimNone then n else claim_count c s)"
  by (cases c; cases c') simp_all

text \<open>The fields the claim and queue operations do not touch.\<close>
definition sg_rest :: "Staging \<Rightarrow> bool \<times> u32" where
  "sg_rest s = (wake_pending s, admission_word s)"

lemma sg_rest_set_part [simp]: "sg_rest (set_part_q p q s) = sg_rest s" "batch_used (set_part_q p q s) = batch_used s"
  by (cases p; simp add: sg_rest_def)+

lemma sg_rest_set_claim [simp]: "sg_rest (set_claim_count c n s) = sg_rest s" "batch_used (set_claim_count c n s) = batch_used s"
  by (cases c; simp add: sg_rest_def)+

lemma staging_invD:
  assumes "staging_inv cfg s"
  shows "sq_inv (part_q p s)" "sq_cap (part_q p s) = unat (part_capacity cfg p)"
    "x \<in> set (parts s p) \<Longrightarrow> claim_ok cfg p (slot_claim x)"
    "c \<noteq> ClaimNone \<Longrightarrow> unat (claim_count c s) = claims c (parts s (claim_part c))"
    "c \<noteq> ClaimNone \<Longrightarrow> claim_count c s \<le> claim_limit cfg c"
  using assms by (simp_all add: staging_inv_def)

lemma staging_new_inv:
  assumes "\<And>p. part_capacity cfg p \<noteq> 0" "b = MpscBackend \<Longrightarrow> (\<And>p. unat (part_capacity cfg p) dvd 4294967296)"
  shows "staging_inv cfg (staging_new b cfg) \<and> (\<forall>p. parts (staging_new b cfg) p = [])
    \<and> (n < 18446744073709551616 \<longrightarrow> staging_fresh n (staging_new b cfg))"
proof -
  have q: "part_q p (staging_new b cfg) = sq_new b (part_capacity cfg p)" for p
    by (cases p) (simp_all add: staging_new_def)
  have ok: "sq_inv (sq_new b c) \<and> sq_contents (sq_new b c) = [] \<and> sq_cap (sq_new b c) = unat c
      \<and> (n < 18446744073709551616 \<longrightarrow> sq_fresh n (sq_new b c))"
    if "c \<noteq> 0" "b = MpscBackend \<Longrightarrow> unat c dvd 4294967296" for c
    using that ring_inv_init [of c] mpsc_init_inv [of c]
    by (cases b) (auto simp: ring_capacity_def ring_init_def mpsc_capacity_def mpsc_init_def mpsc_fresh_def unat_gt_0 word_less_nat_alt)
  have z: "claim_count c (staging_new b cfg) = 0" for c by (cases c) (simp_all add: staging_new_def)
  show ?thesis using ok [OF assms] by (simp add: staging_inv_def staging_fresh_def parts_def q z)
qed

text \<open>Replacing the queue of one partition, with the claim counters adjusted to its contents.\<close>
lemma staging_inv_update:
  assumes "staging_inv cfg s" "sq_inv q" "sq_cap q = sq_cap (part_q p s)"
    and "\<And>x. x \<in> set (sq_contents q) \<Longrightarrow> claim_ok cfg p (slot_claim x)"
    and "\<And>p'. part_q p' s' = (if p' = p then q else part_q p' s)"
    and "\<And>c. c \<noteq> ClaimNone \<Longrightarrow> unat (claim_count c s') = claims c (if claim_part c = p then sq_contents q else parts s (claim_part c))
        \<and> claim_count c s' \<le> claim_limit cfg c"
  shows "staging_inv cfg s'"
  using assms(1-4) assms(6) unfolding staging_inv_def by (auto simp: assms(5) parts_def)

section \<open>Enqueue\<close>

lemma set_claim_count_same [simp]: "set_claim_count c (claim_count c s) s = s"
  by (cases c) simp_all

lemma classify_part: "classify_claim cfg cls crit adm \<noteq> ClaimNone \<Longrightarrow>
    claim_part (classify_claim cfg cls crit adm) = partition_from_class cls"
  by (cases cls) (auto simp: classify_claim_def split: if_splits)

lemma classify_ok: "admission_valid cfg cls adm \<Longrightarrow>
    claim_ok cfg (partition_from_class cls) (classify_claim cfg cls crit adm)"
  by (cases cls) (auto simp: classify_claim_def admission_valid_def split: if_splits)

lemma try_claim_cases:
  assumes "staging_inv cfg s"
  shows "try_claim cfg c s =
    (if c = ClaimNone then (True, s)
     else if claims c (parts s (claim_part c)) < unat (claim_limit cfg c)
     then (True, set_claim_count c (claim_count c s + 1) s) else (False, s))"
  using staging_invD(4) [OF assms, of c]
  by (simp add: try_claim_def try_claim_counter_def cas_alone_def claim_decide_def word_less_nat_alt)

lemma claim_inc:
  assumes "staging_inv cfg s" "c \<noteq> ClaimNone" "claims c (parts s (claim_part c)) < unat (claim_limit cfg c)"
  shows "unat (claim_count c s + 1) = claims c (parts s (claim_part c)) + 1" "claim_count c s + 1 \<le> claim_limit cfg c"
proof -
  have c: "unat (claim_count c s) = claims c (parts s (claim_part c))" by (rule staging_invD(4) [OF assms(1,2)])
  then have "unat (claim_count c s) + 1 < 4294967296" using assms(3) unat_less_32 [of "claim_limit cfg c"] by linarith
  then show i: "unat (claim_count c s + 1) = claims c (parts s (claim_part c)) + 1" using c by (simp add: unat_inc)
  then show "claim_count c s + 1 \<le> claim_limit cfg c" using assms(3) by (simp add: word_le_nat_alt)
qed

text \<open>When \<^verbatim>\<open>enqueue\<close> accepts: a valid lane, a free cell, and a claim below its limit.\<close>
definition can_enqueue :: "Config \<Rightarrow> PriorityClass \<Rightarrow> bool \<Rightarrow> StagingAdmission \<Rightarrow> Staging \<Rightarrow> bool" where
  "can_enqueue cfg cls crit adm s \<longleftrightarrow>
     (let p = partition_from_class cls; c = classify_claim cfg cls crit adm
      in admission_valid cfg cls adm \<and> length (parts s p) < unat (part_capacity cfg p)
         \<and> (c \<noteq> ClaimNone \<longrightarrow> claims c (parts s p) < unat (claim_limit cfg c)))"

definition new_slot :: "Config \<Rightarrow> TargetId \<Rightarrow> nat \<Rightarrow> PriorityClass \<Rightarrow> u64 \<Rightarrow> bool \<Rightarrow> StagingAdmission \<Rightarrow> StagingSlot" where
  "new_slot cfg target e cls now crit adm =
     \<lparr>slot_target = target, slot_claim = classify_claim cfg cls crit adm, slot_event = e, enqueue_ns = ucast now\<rparr>"

text \<open>What an enqueue leaves behind: one more slot in its partition, or nothing.\<close>
definition enqueued :: "Config \<Rightarrow> nat \<Rightarrow> Partition \<Rightarrow> StagingSlot list \<Rightarrow> Staging \<Rightarrow> Staging \<Rightarrow> bool" where
  "enqueued cfg n p xs s s' \<longleftrightarrow> staging_inv cfg s' \<and> staging_fresh n s'
     \<and> (\<forall>p'. parts s' p' = (if p' = p then parts s p @ xs else parts s p'))
     \<and> sg_rest s' = sg_rest s \<and> batch_used s' = batch_used s"

lemma enqueued_none: "\<lbrakk>staging_inv cfg s; staging_fresh (Suc n) s\<rbrakk> \<Longrightarrow> enqueued cfg n p [] s s"
  by (auto simp: enqueued_def staging_fresh_def intro: staging_queue.fresh_less)

lemma enqueue_push:
  assumes inv: "staging_inv cfg s" and fr: "staging_fresh (Suc n) s" and ok: "claim_ok cfg p c"
    and c: "c \<noteq> ClaimNone \<Longrightarrow> claim_part c = p \<and> claims c (parts s p) < unat (claim_limit cfg c)"
    and room: "length (parts s p) < unat (part_capacity cfg p)" and x: "slot_claim x = c"
  shows "\<exists>q. sq_try_push (part_q p s) x = (True, q)
      \<and> enqueued cfg n p [x] s (set_part_q p q (set_claim_count c (claim_count c s + 1) s))"
proof -
  let ?s' = "\<lambda>q. set_part_q p q (set_claim_count c (claim_count c s + 1) s)"
  have "sq_inv (part_q p s)" "sq_fresh (Suc n) (part_q p s)" "length (sq_contents (part_q p s)) < sq_cap (part_q p s)"
    using staging_invD(1,2) [OF inv] fr room by (simp_all add: staging_fresh_def parts_def)
  from staging_queue.push_ok [OF this, of x] obtain q where q: "sq_try_push (part_q p s) x = (True, q)" "sq_inv q"
      "sq_contents q = parts s p @ [x]" "sq_cap q = sq_cap (part_q p s)" "sq_fresh n q" by (auto simp: parts_def)
  have "unat (claim_count d (?s' q)) = claims d (if claim_part d = p then sq_contents q else parts s (claim_part d))
      \<and> claim_count d (?s' q) \<le> claim_limit cfg d" if "d \<noteq> ClaimNone" for d
    using that staging_invD(4,5) [OF inv that] claim_inc [OF inv, of c] c x q(3) by (cases "d = c") auto
  then have "staging_inv cfg (?s' q)"
    using q ok x staging_invD(3) [OF inv, of _ p] by (intro staging_inv_update [OF inv, of q p]) (auto simp: parts_def)
  then show ?thesis using q fr by (auto simp: enqueued_def staging_fresh_def parts_def intro: staging_queue.fresh_less)
qed

lemma enqueue_full:
  assumes inv: "staging_inv cfg s" and fr: "staging_fresh (Suc n) s"
    and full: "\<not> length (parts s p) < unat (part_capacity cfg p)"
    and c: "c \<noteq> ClaimNone \<Longrightarrow> claim_part c = p \<and> claims c (parts s p) < unat (claim_limit cfg c)"
  shows "\<exists>q s'. sq_try_push (part_q p s) x = (False, q)
      \<and> release_claim c (set_part_q p q (set_claim_count c (claim_count c s + 1) s)) = Some s' \<and> enqueued cfg n p [] s s'"
proof -
  have "sq_inv (part_q p s)" "length (sq_contents (part_q p s)) = sq_cap (part_q p s)"
    using staging_invD(1,2) [OF inv, of p] full staging_queue.contents_bound [of "part_q p s"] by (simp_all add: parts_def)
  from staging_queue.push_full [OF this, of x] obtain q where q: "sq_try_push (part_q p s) x = (False, q)" "sq_inv q"
      "sq_contents q = parts s p" "sq_cap q = sq_cap (part_q p s)" "\<forall>n. sq_fresh n (part_q p s) \<longrightarrow> sq_fresh n q"
    by (auto simp: parts_def)
  let ?t = "set_part_q p q (set_claim_count c (claim_count c s + 1) s)"
  define s' where "s' = (if c = ClaimNone then ?t else set_claim_count c (claim_count c s) ?t)"
  have rel: "release_claim c ?t = Some s'"
    using claim_inc [OF inv, of c] c by (auto simp: release_claim_def release_claim_counter_def s'_def word_less_nat_alt)
  have pq: "part_q p' s' = (if p' = p then q else part_q p' s)" and cc: "d \<noteq> ClaimNone \<Longrightarrow> claim_count d s' = claim_count d s" for p' d
    by (auto simp: s'_def)
  have "staging_inv cfg s'"
    using q staging_invD(3-5) [OF inv] cc by (intro staging_inv_update [OF inv q(2,4) _ pq]) (auto simp: parts_def)
  moreover have "sg_rest s' = sg_rest s" "batch_used s' = batch_used s" by (simp_all add: s'_def)
  ultimately show ?thesis using q rel fr pq
    by (auto simp: enqueued_def staging_fresh_def parts_def intro: staging_queue.fresh_less)
qed

lemma enqueue_correct:
  assumes inv: "staging_inv cfg s" and fr: "staging_fresh (Suc n) s"
  shows "\<exists>s'. enqueue cfg target e cls now crit adm s = Some (can_enqueue cfg cls crit adm s, s')
    \<and> enqueued cfg n (partition_from_class cls)
        (if can_enqueue cfg cls crit adm s then [new_slot cfg target e cls now crit adm] else []) s s'"
proof -
  let ?p = "partition_from_class cls" and ?c = "classify_claim cfg cls crit adm"
  let ?x = "new_slot cfg target e cls now crit adm"
  show ?thesis
  proof (cases "admission_valid cfg cls adm \<and> (?c \<noteq> ClaimNone \<longrightarrow> claims ?c (parts s ?p) < unat (claim_limit cfg ?c))")
    case False
    then show ?thesis using enqueued_none [OF inv fr] try_claim_cases [OF inv, of ?c] classify_part [of cfg cls crit adm]
      by (auto simp: enqueue_def can_enqueue_def Let_def)
  next
    case True
    then have v: "admission_valid cfg cls adm" by simp
    have c: "claim_part ?c = ?p \<and> claims ?c (parts s ?p) < unat (claim_limit cfg ?c)" if "?c \<noteq> ClaimNone"
      using True that classify_part by blast
    have t: "try_claim cfg ?c s = (True, set_claim_count ?c (claim_count ?c s + 1) s)"
      using try_claim_cases [OF inv, of ?c] c by (cases "?c = ClaimNone") auto
    have e: "enqueue cfg target e cls now crit adm s =
        (case sq_try_push (part_q ?p s) ?x of (queued, q) \<Rightarrow>
          let s2 = set_part_q ?p q (set_claim_count ?c (claim_count ?c s + 1) s)
          in if queued then Some (True, s2) else do { s3 \<leftarrow> release_claim ?c s2; Some (False, s3) })"
      using v t by (simp add: enqueue_def new_slot_def Let_def split: prod.split)
    have x: "slot_claim ?x = ?c" by (simp add: new_slot_def)
    show ?thesis
    proof (cases "length (parts s ?p) < unat (part_capacity cfg ?p)")
      case room: True
      then have "can_enqueue cfg cls crit adm s" using True by (simp add: can_enqueue_def Let_def)
      then show ?thesis using enqueue_push [OF inv fr classify_ok [OF v] c room x] e by (auto simp: Let_def)
    next
      case full: False
      then have "\<not> can_enqueue cfg cls crit adm s" by (simp add: can_enqueue_def Let_def)
      then show ?thesis using enqueue_full [OF inv fr full c, of ?x] e by (auto simp: Let_def)
    qed
  qed
qed

section \<open>Dequeue\<close>

text \<open>A low-priority head has waited long enough, its arrival not after the clock.\<close>
definition aged :: "Config \<Rightarrow> u64 \<Rightarrow> StagingSlot \<Rightarrow> bool" where
  "aged cfg now x \<longleftrightarrow> 0 \<le> sint (ucast now - enqueue_ns x :: u32) \<and> kLowMaxWaitMs cfg * 1000000 \<le> ucast now - enqueue_ns x"

text \<open>The partition a dequeue serves.\<close>
definition pick :: "Config \<Rightarrow> u64 \<Rightarrow> Staging \<Rightarrow> Partition option" where
  "pick cfg now s =
     (if kBatchSizeMax cfg \<le> batch_used s then None
      else if parts s PLow \<noteq> [] \<and> aged cfg now (hd (parts s PLow)) then Some PLow
      else if parts s PHigh \<noteq> [] then Some PHigh
      else if parts s PNormal \<noteq> [] then Some PNormal
      else if parts s PLow \<noteq> [] then Some PLow
      else None)"

definition dequeued :: "Config \<Rightarrow> u64 \<Rightarrow> Staging \<Rightarrow> Staging \<Rightarrow> bool" where
  "dequeued cfg now s s' \<longleftrightarrow> staging_inv cfg s' \<and> (\<forall>n. staging_fresh n s \<longrightarrow> staging_fresh n s')
     \<and> (\<forall>p. parts s' p = (if pick cfg now s = Some p then tl (parts s p) else parts s p))
     \<and> sg_rest s' = sg_rest s
     \<and> batch_used s' = (if pick cfg now s = None then batch_used s else batch_used s + 1)"

lemma now_simps [simp]:
  "part_q p (s\<lparr>sg_now_ns := a, sg_now_valid := b\<rparr>) = part_q p s" "claim_count c (s\<lparr>sg_now_ns := a, sg_now_valid := b\<rparr>) = claim_count c s"
  "parts (s\<lparr>sg_now_ns := a, sg_now_valid := b\<rparr>) = parts s" "sg_rest (s\<lparr>sg_now_ns := a, sg_now_valid := b\<rparr>) = sg_rest s"
  by ((cases p; simp) | (cases c; simp) | (rule ext, rename_tac q, case_tac q; simp add: parts_def) | simp add: sg_rest_def)+

lemma batch_simps [simp]:
  "part_q p (s\<lparr>batch_used := a\<rparr>) = part_q p s" "claim_count c (s\<lparr>batch_used := a\<rparr>) = claim_count c s"
  "parts (s\<lparr>batch_used := a\<rparr>) = parts s" "sg_rest (s\<lparr>batch_used := a\<rparr>) = sg_rest s"
  by ((cases p; simp) | (cases c; simp) | (rule ext, rename_tac q, case_tac q; simp add: parts_def) | simp add: sg_rest_def)+

lemma staging_inv_other [simp]:
  "staging_inv cfg (s\<lparr>sg_now_ns := a, sg_now_valid := b\<rparr>) = staging_inv cfg s"
  "staging_inv cfg (s\<lparr>batch_used := u\<rparr>) = staging_inv cfg s"
  "staging_fresh n (s\<lparr>sg_now_ns := a, sg_now_valid := b\<rparr>) = staging_fresh n s"
  "staging_fresh n (s\<lparr>batch_used := u\<rparr>) = staging_fresh n s"
  by (simp_all add: staging_inv_def staging_fresh_def)

lemma has_ready_parts: "staging_inv cfg s \<Longrightarrow> sq_has_ready (part_q p s) = (parts s p \<noteq> [])"
  using staging_queue.ready_iff [OF staging_invD(1)] by (simp add: parts_def)

lemma aging_aged:
  assumes "staging_inv cfg s"
  shows "aging_expired cfg (s\<lparr>sg_now_ns := now, sg_now_valid := True\<rparr>) = (parts s PLow \<noteq> [] \<and> aged cfg now (hd (parts s PLow)))"
  using staging_queue.front_hd [OF staging_invD(1) [OF assms, of PLow]]
  by (simp add: aging_expired_def aged_def parts_def Let_def not_less)

lemma select_pick:
  assumes "staging_inv cfg s"
  shows "select (ready_count PHigh s) (ready_count PNormal s) (ready_count PLow s)
      (parts s PLow \<noteq> [] \<and> aged cfg now (hd (parts s PLow))) (ucast (batch_used s)) (ucast (kBatchSizeMax cfg)) = pick cfg now s"
proof -
  have "(ucast (batch_used s) \<ge> (ucast (kBatchSizeMax cfg) :: u16)) = (batch_used s \<ge> kBatchSizeMax cfg)"
    by (simp add: word_le_nat_alt unat_ucast_up)
  then show ?thesis using has_ready_parts [OF assms]
    by (simp add: select_def pick_def ready_count_def del: part_q.simps)
qed

lemma pop_inv:
  assumes inv: "staging_inv cfg s" and xs: "parts s p = x # xs"
  shows "\<exists>q s'. sq_try_pop (part_q p s) = (Some x, q) \<and> release_claim (slot_claim x) (set_part_q p q s) = Some s'
      \<and> staging_inv cfg s' \<and> (\<forall>n. staging_fresh n s \<longrightarrow> staging_fresh n s')
      \<and> (\<forall>p'. parts s' p' = (if p' = p then xs else parts s p')) \<and> sg_rest s' = sg_rest s \<and> batch_used s' = batch_used s"
proof -
  let ?c = "slot_claim x"
  obtain q where q: "sq_try_pop (part_q p s) = (Some x, q)" "sq_inv q" "sq_contents q = xs" "sq_cap q = sq_cap (part_q p s)"
      "\<forall>n. sq_fresh n (part_q p s) \<longrightarrow> sq_fresh n q"
    using staging_queue.pop_cons [OF staging_invD(1) [OF inv, of p], of x xs] xs by (auto simp: parts_def)
  define s' where "s' = (if ?c = ClaimNone then set_part_q p q s else set_claim_count ?c (claim_count ?c s - 1) (set_part_q p q s))"
  have ok: "claim_ok cfg p ?c" using staging_invD(3) [OF inv, of x p] xs by simp
  have cp: "claim_part ?c = p" if "?c \<noteq> ClaimNone" using ok that by (cases p; cases ?c) (auto split: if_splits)
  have cnt: "unat (claim_count ?c s) = claims ?c (parts s p)" if "?c \<noteq> ClaimNone" using staging_invD(4) [OF inv that] cp that by simp
  have pos: "0 < unat (claim_count ?c s)" if "?c \<noteq> ClaimNone" using cnt [OF that] xs by simp
  have rel: "release_claim ?c (set_part_q p q s) = Some s'"
    using pos by (auto simp: release_claim_def release_claim_counter_def s'_def word_less_nat_alt)
  have pq: "part_q p' s' = (if p' = p then q else part_q p' s)" for p' by (simp add: s'_def)
  have "unat (claim_count d s') = claims d (if claim_part d = p then sq_contents q else parts s (claim_part d))
      \<and> claim_count d s' \<le> claim_limit cfg d" if d: "d \<noteq> ClaimNone" for d
  proof (cases "d = ?c")
    case True
    then have "unat (claim_count d s') = unat (claim_count d s) - 1" using d pos by (simp add: s'_def unat_dec)
    then show ?thesis using True d cnt cp xs q(3) staging_invD(5) [OF inv d] by (simp add: word_le_nat_alt)
  next
    case False
    then have "claim_count d s' = claim_count d s" using d by (simp add: s'_def)
    then show ?thesis using False xs q(3) staging_invD(4,5) [OF inv d] by auto
  qed
  then have "staging_inv cfg s'" using q xs staging_invD(3) [OF inv, of _ p] by (intro staging_inv_update [OF inv q(2,4) _ pq]) auto
  then show ?thesis using q rel pq by (auto simp: staging_fresh_def parts_def s'_def)
qed

lemma pick_nonempty: "pick cfg now s = Some p \<Longrightarrow> parts s p \<noteq> []"
  by (auto simp: pick_def split: if_splits)

lemma dequeue_correct:
  assumes inv: "staging_inv cfg s"
  shows "\<exists>s'. dequeue_one cfg now s = Some (map_option (\<lambda>p. hd (parts s p)) (pick cfg now s), s') \<and> dequeued cfg now s s'"
proof -
  let ?s0 = "s\<lparr>sg_now_ns := now, sg_now_valid := True\<rparr>"
  have inv0: "staging_inv cfg ?s0" using inv by simp
  have ready: "any_ready ?s0 = (\<exists>p. parts s p \<noteq> [])"
    using has_ready_parts [OF inv, of PHigh] has_ready_parts [OF inv, of PNormal] has_ready_parts [OF inv, of PLow]
    by (auto simp: any_ready_def intro: Partition.exhaust) (metis Partition.exhaust)
  have sel: "select (ready_count PHigh ?s0) (ready_count PNormal ?s0) (ready_count PLow ?s0) (aging_expired cfg ?s0)
      (ucast (batch_used ?s0)) (ucast (kBatchSizeMax cfg)) = pick cfg now s"
    using select_pick [OF inv0, of now] by (simp add: aging_aged [OF inv] pick_def)
  show ?thesis
  proof (cases "pick cfg now s")
    case None
    have "dequeue_one cfg now s = Some (None, ?s0)" unfolding dequeue_one_def Let_def sel None by simp
    then show ?thesis using None inv by (auto simp: dequeued_def)
  next
    case (Some p)
    then obtain x xs where xs: "parts s p = x # xs" using pick_nonempty by (cases "parts s p") auto
    then have r: "any_ready ?s0" using ready by auto
    obtain q s' where "sq_try_pop (part_q p ?s0) = (Some x, q)" "release_claim (slot_claim x) (set_part_q p q ?s0) = Some s'"
        and s': "staging_inv cfg s'" "\<forall>n. staging_fresh n ?s0 \<longrightarrow> staging_fresh n s'"
          "\<forall>p'. parts s' p' = (if p' = p then xs else parts ?s0 p')" "sg_rest s' = sg_rest ?s0" "batch_used s' = batch_used ?s0"
      using pop_inv [OF inv0, of p x xs] xs by auto
    then have "dequeue_one cfg now s = Some (Some x, s'\<lparr>batch_used := batch_used s' + 1\<rparr>)"
      unfolding dequeue_one_def Let_def sel Some using r by simp
    then show ?thesis using Some xs s' by (auto simp: dequeued_def)
  qed
qed

lemma sint_nonneg_iff: "0 \<le> sint (d :: u32) \<longleftrightarrow> unat d < 2147483648"
proof (cases "uint d < 2147483648")
  case True
  have "- 2147483648 \<le> uint d" using uint_ge_0 [of d] by linarith
  then have "sint d = uint d" unfolding sint_uint by (intro signed_take_bit_int_eq_self) (use True in simp_all)
  moreover have "unat d < 2147483648" using True unat_eq_nat_uint [of d] by linarith
  ultimately show ?thesis using uint_ge_0 [of d] by simp
next
  case False
  have "sint d \<le> uint d - 2 ^ Suc (LENGTH(32) - Suc 0)" unfolding sint_uint
    by (rule signed_take_bit_int_less_eq) (use False in simp)
  then have "sint d < 0" using uint_bounded [of d] by simp
  moreover have "\<not> unat d < 2147483648" using False unat_eq_nat_uint [of d] by linarith
  ultimately show ?thesis by simp
qed

text \<open>The signed comparison accepts waits below half the range of the 32-bit clock.\<close>
lemma aged_iff:
  assumes "kLowMaxWaitMs cfg < 2000"
  shows "aged cfg now x \<longleftrightarrow> unat (kLowMaxWaitMs cfg) * 1000000 \<le> unat (ucast now - enqueue_ns x :: u32)
      \<and> unat (ucast now - enqueue_ns x :: u32) < 2147483648"
proof -
  have "unat (kLowMaxWaitMs cfg) < 2000" using assms by (simp add: word_less_nat_alt)
  then have "unat (kLowMaxWaitMs cfg * 1000000) = unat (kLowMaxWaitMs cfg) * 1000000"
    by (subst unat_mult_lem [THEN iffD1]) simp_all
  then show ?thesis by (auto simp: aged_def word_le_nat_alt sint_nonneg_iff)
qed

section \<open>Sequences of operations\<close>

text \<open>
  Submissions for targets whose class is given, dequeues and new batches. A run yields the
  accepted slots, the slots taken out, and the final state.
\<close>
datatype StagingOp = SEnq TargetId nat u64 bool StagingAdmission | SDeq u64 | SBatch

fun run_staging :: "Config \<Rightarrow> (TargetId \<Rightarrow> PriorityClass) \<Rightarrow> StagingOp list \<Rightarrow> Staging
    \<Rightarrow> (StagingSlot list \<times> StagingSlot list \<times> Staging) option" where
  "run_staging cfg cls [] s = Some ([], [], s)"
| "run_staging cfg cls (SEnq t e now crit adm # ops) s = do {
     (ok, s1) \<leftarrow> enqueue cfg t e (cls t) now crit adm s;
     (acc, out, s2) \<leftarrow> run_staging cfg cls ops s1;
     Some ((if ok then [new_slot cfg t e (cls t) now crit adm] else []) @ acc, out, s2)
   }"
| "run_staging cfg cls (SDeq now # ops) s = do {
     (r, s1) \<leftarrow> dequeue_one cfg now s;
     (acc, out, s2) \<leftarrow> run_staging cfg cls ops s1;
     Some (acc, (case r of None \<Rightarrow> [] | Some x \<Rightarrow> [x]) @ out, s2)
   }"
| "run_staging cfg cls (SBatch # ops) s = run_staging cfg cls ops (begin_batch s)"

definition slot_part :: "(TargetId \<Rightarrow> PriorityClass) \<Rightarrow> StagingSlot \<Rightarrow> Partition" where
  "slot_part cls x = partition_from_class (cls (slot_target x))"

lemma run_staging_fifo:
  assumes "staging_inv cfg s" "staging_fresh (length ops) s" "\<And>p x. x \<in> set (parts s p) \<Longrightarrow> slot_part cls x = p"
  shows "\<exists>acc out s'. run_staging cfg cls ops s = Some (acc, out, s') \<and> staging_inv cfg s'
    \<and> (\<forall>p. parts s p @ filter (\<lambda>x. slot_part cls x = p) acc = filter (\<lambda>x. slot_part cls x = p) out @ parts s' p)"
  using assms
proof (induction ops arbitrary: s)
  case (Cons op ops)
  note IH = Cons.IH and inv = Cons.prems(1) and P = Cons.prems(3)
  show ?case
  proof (cases op)
    case (SEnq t e now crit adm)
    let ?x = "new_slot cfg t e (cls t) now crit adm" and ?ok = "can_enqueue cfg (cls t) crit adm s"
    have x: "slot_part cls ?x = partition_from_class (cls t)" by (simp add: slot_part_def new_slot_def)
    have "staging_fresh (Suc (length ops)) s" using Cons.prems(2) by simp
    from enqueue_correct [OF inv this] obtain s1 where s1: "enqueue cfg t e (cls t) now crit adm s = Some (?ok, s1)"
        "enqueued cfg (length ops) (partition_from_class (cls t)) (if ?ok then [?x] else []) s s1" by blast
    have P1: "slot_part cls y = p" if "y \<in> set (parts s1 p)" for p y
      using that s1(2) P x by (auto simp: enqueued_def split: if_splits)
    obtain acc out s' where r: "run_staging cfg cls ops s1 = Some (acc, out, s')" "staging_inv cfg s'"
        "\<forall>p. parts s1 p @ filter (\<lambda>x. slot_part cls x = p) acc = filter (\<lambda>x. slot_part cls x = p) out @ parts s' p"
      using IH [OF _ _ P1] s1(2) unfolding enqueued_def by blast
    have "parts s p @ filter (\<lambda>x. slot_part cls x = p) ((if ?ok then [?x] else []) @ acc)
        = filter (\<lambda>x. slot_part cls x = p) out @ parts s' p" for p
      using r(3) [rule_format, of p] s1(2) x by (cases ?ok; cases "p = partition_from_class (cls t)") (auto simp: enqueued_def)
    then show ?thesis using SEnq s1(1) r by simp
  next
    case (SDeq now)
    obtain s1 where s1: "dequeue_one cfg now s = Some (map_option (\<lambda>p. hd (parts s p)) (pick cfg now s), s1)"
        "dequeued cfg now s s1" using dequeue_correct [OF inv] by blast
    have "set (parts s1 p) \<subseteq> set (parts s p)" for p
      using s1(2) by (cases "parts s p") (auto simp: dequeued_def)
    then have P1: "slot_part cls y = p" if "y \<in> set (parts s1 p)" for p y using that P by blast
    have "staging_fresh (length ops) s" using Cons.prems(2) by (auto simp: staging_fresh_def intro: staging_queue.fresh_less)
    then obtain acc out s' where r: "run_staging cfg cls ops s1 = Some (acc, out, s')" "staging_inv cfg s'"
        "\<forall>p. parts s1 p @ filter (\<lambda>x. slot_part cls x = p) acc = filter (\<lambda>x. slot_part cls x = p) out @ parts s' p"
      using IH [OF _ _ P1] s1(2) unfolding dequeued_def by blast
    show ?thesis
    proof (cases "pick cfg now s")
      case None
      then show ?thesis using SDeq s1 r by (simp add: dequeued_def)
    next
      case (Some p)
      then obtain y ys where y: "parts s p = y # ys" using pick_nonempty by (cases "parts s p") auto
      then have h: "slot_part cls y = p" using P [of y p] by simp
      have q: "parts s1 q = (if q = p then ys else parts s q)" for q using s1(2) Some y by (auto simp: dequeued_def)
      have "parts s q @ filter (\<lambda>x. slot_part cls x = q) acc = filter (\<lambda>x. slot_part cls x = q) (y # out) @ parts s' q" for q
        using r(3) [rule_format, of q] q [of q] h y by (cases "q = p") simp_all
      then show ?thesis using SDeq s1(1) r(1,2) Some y by simp
    qed
  next
    case SBatch
    have "staging_fresh (length ops) s" using Cons.prems(2) by (auto simp: staging_fresh_def intro: staging_queue.fresh_less)
    then show ?thesis using IH [of "begin_batch s"] SBatch inv P by (simp add: begin_batch_def)
  qed
qed simp

section \<open>Capacity reservations\<close>

lemma claims_two:
  "\<lbrakk>\<forall>x \<in> set xs. slot_claim x \<in> {c, d}; c \<noteq> d\<rbrakk> \<Longrightarrow> length xs = claims c xs + claims d xs"
  by (induction xs) auto

lemma claim_limit_nat:
  assumes "config_ok cfg"
  shows "unat (claim_limit cfg HighOrdinary) = unat (kHighCapacity cfg) - unat (kHighCriticalReserve cfg)"
    "unat (claim_limit cfg NormalOrdinary) = unat (kNormalCapacity cfg) - unat (kNormalReservedCapacity cfg)"
    "unat (claim_limit cfg NormalReserved) = unat (kNormalReservedCapacity cfg)"
proof -
  have le: "(ucast a :: u32) \<le> ucast b" if "a \<le> b" for a b :: u16
    using that by (simp add: word_le_nat_alt unat_ucast_up)
  show "unat (claim_limit cfg HighOrdinary) = unat (kHighCapacity cfg) - unat (kHighCriticalReserve cfg)"
    "unat (claim_limit cfg NormalOrdinary) = unat (kNormalCapacity cfg) - unat (kNormalReservedCapacity cfg)"
    "unat (claim_limit cfg NormalReserved) = unat (kNormalReservedCapacity cfg)"
    using assms by (simp_all add: config_ok_def unat_sub_le [OF le] unat_ucast_up)
qed

text \<open>The occupancy of the two reserved partitions, by claim.\<close>
lemma high_occupancy:
  assumes "staging_inv cfg s" "config_ok cfg"
  shows "length (parts s PHigh) = claims ClaimNone (parts s PHigh) + claims HighOrdinary (parts s PHigh)"
    "claims HighOrdinary (parts s PHigh) + unat (kHighCriticalReserve cfg) \<le> unat (kHighCapacity cfg)"
proof -
  show "length (parts s PHigh) = claims ClaimNone (parts s PHigh) + claims HighOrdinary (parts s PHigh)"
    using staging_invD(3) [OF assms(1), of _ PHigh] by (intro claims_two) auto
  have "claims HighOrdinary (parts s PHigh) \<le> unat (claim_limit cfg HighOrdinary)"
    using staging_invD(4,5) [OF assms(1), of HighOrdinary] by (simp add: word_le_nat_alt del: claim_limit.simps)
  then show "claims HighOrdinary (parts s PHigh) + unat (kHighCriticalReserve cfg) \<le> unat (kHighCapacity cfg)"
    using claim_limit_nat(1) [OF assms(2)] assms(2) by (auto simp: config_ok_def word_le_nat_alt del: claim_limit.simps)
qed

lemma normal_occupancy:
  assumes "staging_inv cfg s" "config_ok cfg" "kNormalReservedCapacity cfg \<noteq> 0"
  shows "length (parts s PNormal) = claims NormalOrdinary (parts s PNormal) + claims NormalReserved (parts s PNormal)"
    "claims NormalOrdinary (parts s PNormal) + unat (kNormalReservedCapacity cfg) \<le> unat (kNormalCapacity cfg)"
    "claims NormalReserved (parts s PNormal) \<le> unat (kNormalReservedCapacity cfg)"
proof -
  show "length (parts s PNormal) = claims NormalOrdinary (parts s PNormal) + claims NormalReserved (parts s PNormal)"
    using staging_invD(3) [OF assms(1), of _ PNormal] assms(3) by (intro claims_two) auto
  have "claims NormalOrdinary (parts s PNormal) \<le> unat (claim_limit cfg NormalOrdinary)"
    "claims NormalReserved (parts s PNormal) \<le> unat (claim_limit cfg NormalReserved)"
    using staging_invD(4,5) [OF assms(1), of NormalOrdinary] staging_invD(4,5) [OF assms(1), of NormalReserved]
    by (simp_all add: word_le_nat_alt del: claim_limit.simps)
  then show "claims NormalOrdinary (parts s PNormal) + unat (kNormalReservedCapacity cfg) \<le> unat (kNormalCapacity cfg)"
    "claims NormalReserved (parts s PNormal) \<le> unat (kNormalReservedCapacity cfg)"
    using claim_limit_nat(2,3) [OF assms(2)] assms(2) by (auto simp: config_ok_def word_le_nat_alt del: claim_limit.simps)
qed

section \<open>Properties\<close>

text \<open>
  C5. Reserved capacity is guaranteed: a critical high-priority event is accepted whenever fewer
  critical events are resident than the reserve, however many ordinary ones are; an event of
  the reserved normal lane is accepted exactly while its lane is below its reserve, and an
  ordinary normal event exactly while the ordinary lane is below the rest, each independently
  of the other lane.
\<close>
theorem reserved_capacity_guaranteed:
  assumes "staging_inv cfg s" and "staging_fresh 1 s" and "config_ok cfg"
  shows "(claims ClaimNone (parts s PHigh) < unat (kHighCriticalReserve cfg)
        \<longrightarrow> (\<exists>s'. enqueue cfg t e High now True Ordinary s = Some (True, s')))
    \<and> (kNormalReservedCapacity cfg \<noteq> 0 \<longrightarrow>
        ((\<exists>s'. enqueue cfg t e Normal now crit ReservedNormal s = Some (True, s'))
           \<longleftrightarrow> claims NormalReserved (parts s PNormal) < unat (kNormalReservedCapacity cfg))
      \<and> ((\<exists>s'. enqueue cfg t e Normal now crit Ordinary s = Some (True, s'))
           \<longleftrightarrow> claims NormalOrdinary (parts s PNormal) < unat (kNormalCapacity cfg) - unat (kNormalReservedCapacity cfg)))"
proof -
  have fr: "staging_fresh (Suc 0) s" using assms(2) by simp
  have acc: "(\<exists>s'. enqueue cfg t e cls now crit adm s = Some (True, s')) = can_enqueue cfg cls crit adm s" for cls crit adm
    using enqueue_correct [OF assms(1) fr, of t e cls now crit adm] by auto
  have h: "can_enqueue cfg High True Ordinary s" if "claims ClaimNone (parts s PHigh) < unat (kHighCriticalReserve cfg)"
    using that high_occupancy [OF assms(1,3)] by (simp add: can_enqueue_def admission_valid_def classify_claim_def)
  have n: "can_enqueue cfg Normal crit ReservedNormal s \<longleftrightarrow> claims NormalReserved (parts s PNormal) < unat (kNormalReservedCapacity cfg)"
    "can_enqueue cfg Normal crit Ordinary s
       \<longleftrightarrow> claims NormalOrdinary (parts s PNormal) < unat (kNormalCapacity cfg) - unat (kNormalReservedCapacity cfg)"
    if "kNormalReservedCapacity cfg \<noteq> 0"
    using that normal_occupancy [OF assms(1,3) that] claim_limit_nat [OF assms(3)]
    by (auto simp: can_enqueue_def admission_valid_def classify_claim_def simp del: claim_limit.simps)
  show ?thesis using h n by (simp add: acc)
qed

theorem reserved_capacity_guaranteed_witness:
  "\<exists>s'. enqueue (DefaultConfig\<lparr>kHighCriticalReserve := 2, kNormalReservedCapacity := 1\<rparr>) 3 40 High 0 True Ordinary
      (staging_new RingBackend (DefaultConfig\<lparr>kHighCriticalReserve := 2, kNormalReservedCapacity := 1\<rparr>)) = Some (True, s')"
proof -
  let ?cfg = "DefaultConfig\<lparr>kHighCriticalReserve := 2, kNormalReservedCapacity := 1\<rparr>"
  have "part_capacity ?cfg p \<noteq> 0" for p by (cases p) (simp_all add: DefaultConfig_def)
  then have "staging_inv ?cfg (staging_new RingBackend ?cfg)" "parts (staging_new RingBackend ?cfg) PHigh = []"
      "staging_fresh 1 (staging_new RingBackend ?cfg)" using staging_new_inv [of ?cfg RingBackend 1] by auto
  then show ?thesis using reserved_capacity_guaranteed [of ?cfg "staging_new RingBackend ?cfg" 3 40 0 True]
    by (simp add: config_ok_def DefaultConfig_def)
qed

text \<open>
  C4. Staging loses, duplicates and reorders nothing within a priority class: over any sequence
  of submissions, dequeues and batch openings, on either backend (with capacities that divide
  2^32 for the multi-producer one), no operation aborts, and in every partition the accepted
  slots are the slots taken out, in the same order, followed by the slots still resident.
\<close>
theorem staging_conserves_order:
  assumes "\<forall>p. part_capacity cfg p \<noteq> 0" and "b = MpscBackend \<longrightarrow> (\<forall>p. unat (part_capacity cfg p) dvd 2 ^ 32)"
    and "length ops < 2 ^ 64"
  shows "\<exists>acc out s. run_staging cfg cls ops (staging_new b cfg) = Some (acc, out, s)
    \<and> (\<forall>p. filter (\<lambda>x. slot_part cls x = p) acc = filter (\<lambda>x. slot_part cls x = p) out @ parts s p)"
proof -
  have "staging_inv cfg (staging_new b cfg)" "\<And>p. parts (staging_new b cfg) p = []" "staging_fresh (length ops) (staging_new b cfg)"
    using staging_new_inv [of cfg b "length ops"] assms by auto
  with run_staging_fifo [of cfg "staging_new b cfg" ops cls] show ?thesis by auto
qed

theorem staging_conserves_order_witness:
  "\<exists>acc out s. run_staging DefaultConfig (\<lambda>t. if t = 1 then High else Low)
      [SEnq 2 40 0 False Ordinary, SEnq 1 48 0 False Ordinary, SDeq 7] (staging_new MpscBackend DefaultConfig) = Some (acc, out, s)
    \<and> (\<forall>p. filter (\<lambda>x. slot_part (\<lambda>t. if t = 1 then High else Low) x = p) acc
          = filter (\<lambda>x. slot_part (\<lambda>t. if t = 1 then High else Low) x = p) out @ parts s p)"
proof -
  have "\<forall>p. part_capacity DefaultConfig p \<noteq> 0" "\<forall>p. unat (part_capacity DefaultConfig p) dvd 2 ^ 32"
    by (rule allI, rename_tac p, case_tac p, simp_all add: DefaultConfig_def)+
  then show ?thesis by (intro staging_conserves_order) simp_all
qed

text \<open>
  C6. Dequeue order: while the batch is open a dequeue takes the oldest low-priority slot if it
  has waited at least \<^verbatim>\<open>kLowMaxWaitMs\<close> (and less than 2^31 ns, beyond which the 32-bit clock
  is taken to be behind it), otherwise the oldest slot of the highest non-empty partition; it
  takes nothing only if all partitions are empty.
\<close>
theorem dequeue_order:
  assumes "staging_inv cfg s" and "batch_used s < kBatchSizeMax cfg" and "kLowMaxWaitMs cfg < 2000"
  shows "\<exists>s'. dequeue_one cfg now s = Some
    (let waited = \<lambda>x. unat (ucast now - enqueue_ns x :: u32);
         due = \<lambda>x. unat (kLowMaxWaitMs cfg) * 1000000 \<le> waited x \<and> waited x < 2 ^ 31;
         low = parts s PLow
     in if low \<noteq> [] \<and> due (hd low) then Some (hd low)
        else (case parts s PHigh @ parts s PNormal @ low of [] \<Rightarrow> None | x # xs \<Rightarrow> Some x), s')"
proof -
  obtain s' where "dequeue_one cfg now s = Some (map_option (\<lambda>p. hd (parts s p)) (pick cfg now s), s')"
    using dequeue_correct [OF assms(1)] by blast
  moreover have "hd (parts s p) = x" if "parts s p = x # xs" for p x xs using that by simp
  ultimately show ?thesis using assms(2)
    by (cases "parts s PHigh"; cases "parts s PNormal"; cases "parts s PLow")
       (auto simp: pick_def aged_iff [OF assms(3)] Let_def)
qed

text \<open>A low-priority event that arrived at 0 is served 200 ms later.\<close>
theorem dequeue_order_witness:
  "\<exists>s s' x. staging_inv DefaultConfig s \<and> parts s PLow = [x] \<and> dequeue_one DefaultConfig 200000000 s = Some (Some x, s') \<and> slot_event x = 40"
proof -
  let ?s = "staging_new RingBackend DefaultConfig" and ?x = "new_slot DefaultConfig 2 40 Low 0 False Ordinary"
  have "part_capacity DefaultConfig p \<noteq> 0" for p by (cases p) (simp_all add: DefaultConfig_def)
  then have s: "staging_inv DefaultConfig ?s" "\<And>p. parts ?s p = []" "staging_fresh (Suc 0) ?s"
    using staging_new_inv [of DefaultConfig RingBackend "Suc 0"] by auto
  have "can_enqueue DefaultConfig Low False Ordinary ?s"
    using s(2) by (simp add: can_enqueue_def admission_valid_def classify_claim_def DefaultConfig_def)
  then obtain s1 where s1: "enqueued DefaultConfig 0 PLow [?x] ?s s1"
    using enqueue_correct [OF s(1,3), of 2 40 Low 0 False Ordinary] by auto
  then have p: "staging_inv DefaultConfig s1" "batch_used s1 < kBatchSizeMax DefaultConfig" "kLowMaxWaitMs DefaultConfig < 2000"
      "parts s1 PLow = [?x]" using s(2) by (simp_all add: enqueued_def staging_new_def DefaultConfig_def)
  then obtain s' where "dequeue_one DefaultConfig 200000000 s1 = Some (Some ?x, s')"
    using dequeue_order [of DefaultConfig s1 200000000] by (auto simp: new_slot_def DefaultConfig_def Let_def)
  then show ?thesis using p(1,4) by (intro exI [of _ s1] exI [of _ s'] exI [of _ ?x]) (simp add: new_slot_def)
qed

end
