(* ===== verification/Coordinator.thy ===== *)
theory Coordinator
  imports Active_Object Monitor Admission Staging
begin

text \<open>
  The submit pipeline of coordinator.hpp over the state of a runtime: event pools, active
  objects and their registry, staging, monitor, circuit breakers and the admission policy.

  \<^item> \<^verbatim>\<open>Sys\<close> is the state the coordinator and the dispatcher share. \<^verbatim>\<open>Env\<close> holds what a call reads
    from outside: the configuration, the monotonic clock (its successive samples), the
    application's policy function, and the lease states other threads leave behind: before a
    dispatch attempts the lease, another thread may have taken or released it. Clock samples
    number the moments.
  \<^item> \<^verbatim>\<open>NoAdmission\<close> is the admission None. The breaker router is the bank of the runtime.
  \<^item> Wake-ups sent through the PAL are recorded in order. The nesting depth of direct dispatch
    is the one of the calling thread.
  \<^item> The pipeline is one function per stage; a stage yields the result with which it returns
    from the submit, or none when control falls through. The destructors of the submission
    lease and of the arrival reservation run at the end, in this order.
\<close>

section \<open>State\<close>

datatype PalSignal = SignalTask | SignalIsr

record ('c, 'p) Sys =
  pool_world :: PoolWorld
  aos :: "nat \<Rightarrow> 'c Ao"
  ao_registry :: AoRegistry
  staging :: Staging
  monitor :: Monitor
  breaker_bank :: BreakerBank
  admission :: "StaticAdmission option"
  policy_ctx :: 'p
  clock_reads :: nat
  direct_depth :: u8
  signals :: "PalSignal list"

record 'p Env =
  env_cfg :: Config
  env_clock :: "nat \<Rightarrow> u64"
  env_policy :: "('p \<Rightarrow> TargetId \<Rightarrow> Event \<Rightarrow> EventQos \<Rightarrow> u64 \<Rightarrow> PolicyResult \<times> 'p) option"
  env_rival :: "nat \<Rightarrow> AoRunState option"

definition monotonic_ns :: "'p Env \<Rightarrow> ('c, 'p) Sys \<Rightarrow> u64 \<times> ('c, 'p) Sys" where
  "monotonic_ns env s = (env_clock env (clock_reads s), s\<lparr>clock_reads := Suc (clock_reads s)\<rparr>)"

definition sys_gc :: "nat \<Rightarrow> ('c, 'p) Sys \<Rightarrow> ('c, 'p) Sys option" where
  "sys_gc e s = do { w \<leftarrow> event_gc e (pool_world s); Some (s\<lparr>pool_world := w\<rparr>) }"

definition sys_monitor :: "(Monitor \<Rightarrow> Monitor) \<Rightarrow> ('c, 'p) Sys \<Rightarrow> ('c, 'p) Sys" where
  "sys_monitor f s = s\<lparr>monitor := f (monitor s)\<rparr>"

definition sys_breaker :: "(Breaker \<Rightarrow> Breaker) \<Rightarrow> TargetId \<Rightarrow> ('c, 'p) Sys \<Rightarrow> ('c, 'p) Sys option" where
  "sys_breaker f target s = do { b \<leftarrow> bank_apply f target (breaker_bank s); Some (s\<lparr>breaker_bank := b\<rparr>) }"

definition set_ao :: "nat \<Rightarrow> 'c Ao \<Rightarrow> ('c, 'p) Sys \<Rightarrow> ('c, 'p) Sys" where
  "set_ao a ao s = s\<lparr>aos := (aos s)(a := ao)\<rparr>"

definition pal_signal :: "bool \<Rightarrow> ('c, 'p) Sys \<Rightarrow> ('c, 'p) Sys" where
  "pal_signal from_isr s = s\<lparr>signals := signals s @ [if from_isr then SignalIsr else SignalTask]\<rparr>"

definition enter_direct :: "('c, 'p) Sys \<Rightarrow> ('c, 'p) Sys" where
  "enter_direct s = s\<lparr>direct_depth := direct_depth s + 1\<rparr>"

definition leave_direct :: "('c, 'p) Sys \<Rightarrow> ('c, 'p) Sys" where
  "leave_direct s = (if direct_depth s > 0 then s\<lparr>direct_depth := direct_depth s - 1\<rparr> else s)"

text \<open>\<^verbatim>\<open>now_ns\<close> with \<^verbatim>\<open>now_init\<close>: the clock is read at the first use only.\<close>
definition sample_now :: "'p Env \<Rightarrow> u64 option \<Rightarrow> ('c, 'p) Sys \<Rightarrow> u64 option \<times> ('c, 'p) Sys" where
  "sample_now env now s =
     (case now of
        Some t \<Rightarrow> (Some t, s)
      | None \<Rightarrow> (case monotonic_ns env s of (t, s1) \<Rightarrow> (Some t, s1)))"

definition now_value :: "u64 option \<Rightarrow> u64" where
  "now_value now = (case now of None \<Rightarrow> 0 | Some t \<Rightarrow> t)"

definition wake_dispatcher :: "bool \<Rightarrow> ('c, 'p) Sys \<Rightarrow> ('c, 'p) Sys" where
  "wake_dispatcher from_isr s =
     (case request_dispatcher_wake (staging s) of
        (wake, sg) \<Rightarrow> if wake then pal_signal from_isr (s\<lparr>staging := sg\<rparr>) else s\<lparr>staging := sg\<rparr>)"

definition arrival_commit :: "ArrivalReservation \<Rightarrow> ('c, 'p) Sys \<Rightarrow> ArrivalReservation \<times> ('c, 'p) Sys" where
  "arrival_commit r s =
     (case admission s of
        None \<Rightarrow> (r, s)
      | Some a \<Rightarrow> (case reservation_commit r a of (r1, a1) \<Rightarrow> (r1, s\<lparr>admission := Some a1\<rparr>)))"

text \<open>The destructor of the reservation hands an uncommitted window back.\<close>
definition arrival_destroy :: "ArrivalReservation \<Rightarrow> ('c, 'p) Sys \<Rightarrow> ('c, 'p) Sys" where
  "arrival_destroy r s =
     (case admission s of
        None \<Rightarrow> s
      | Some a \<Rightarrow> (case reservation_rollback r a of (_, a1) \<Rightarrow> s\<lparr>admission := Some a1\<rparr>))"

section \<open>Stages\<close>

definition result :: "SubmitDisposition \<Rightarrow> u16 \<Rightarrow> SubmitResult" where
  "result d r = \<lparr>disposition = d, reason = r\<rparr>"

definition stage_policy ::
    "'p Env \<Rightarrow> TargetId \<Rightarrow> nat \<Rightarrow> EventQos \<Rightarrow> ('c, 'p) Sys \<Rightarrow> (SubmitResult option \<times> u64 option \<times> ('c, 'p) Sys) option" where
  "stage_policy env target e qos s =
     (case env_policy env of
        None \<Rightarrow> Some (None, None, s)
      | Some evaluate \<Rightarrow>
          let (now, s1) = sample_now env None s;
              (pr, ctx) = evaluate (policy_ctx s1) target (event_at (pool_world s1) e) qos (now_value now);
              s2 = s1\<lparr>policy_ctx := ctx\<rparr>
          in if accept pr then Some (None, now, s2)
             else do {
               let disp = (if policy_reason pr \<noteq> 0 then DroppedRateLimit else DroppedPolicy);
               let s3 = sys_monitor (record_disposition disp) (sys_monitor (record_rejection target kC7Context) s2);
               s4 \<leftarrow> sys_gc e s3;
               Some (Some (result disp (policy_reason pr)), now, s4)
             })"

definition stage_arrival ::
    "'p Env \<Rightarrow> TargetId \<Rightarrow> nat \<Rightarrow> nat \<Rightarrow> u64 option \<Rightarrow> ('c, 'p) Sys
      \<Rightarrow> (SubmitResult option \<times> ArrivalReservation \<times> u64 option \<times> ('c, 'p) Sys) option" where
  "stage_arrival env target ao e now s =
     (case admission s of
        None \<Rightarrow> Some (None, inert_reservation, now, s)
      | Some a \<Rightarrow>
          if min_arrival (limits_for target a) = 0 then Some (None, inert_reservation, now, s)
          else
            let (now1, s1) = sample_now env now s;
                (ok, arrival, a1) = admission_reserve target (now_value now1) inert_reservation a;
                s2 = s1\<lparr>admission := Some a1\<rparr>
            in if ok then Some (None, arrival, now1, s2)
               else do {
                 s3 \<leftarrow> sys_gc e s2;
                 let s4 = sys_monitor (record_rejection target kC8ArrivalInterval) s3;
                 let s5 = sys_monitor (record_disposition DroppedRateLimit) s4;
                 let s6 = sys_monitor (record_admission_snapshot target DroppedRateLimit kArrivalTooSoon (now_value now1)
                                         (ao_rtc_budget_ns (aos s5 ao))) s5;
                 Some (Some (result DroppedRateLimit kArrivalTooSoon), arrival, now1, s6)
               })"

text \<open>The lease as other threads leave it at a moment.\<close>
definition rival_acts :: "'p Env \<Rightarrow> nat \<Rightarrow> 'c Ao \<Rightarrow> 'c Ao" where
  "rival_acts env n ao = (case env_rival env n of None \<Rightarrow> ao | Some l \<Rightarrow> ao\<lparr>ao_lease := l\<rparr>)"

definition direct_completed ::
    "TargetId \<Rightarrow> nat \<Rightarrow> nat \<Rightarrow> u64 \<Rightarrow> ArrivalReservation \<Rightarrow> ('c, 'p) Sys \<Rightarrow> (ArrivalReservation \<times> ('c, 'p) Sys) option" where
  "direct_completed target ao e elapsed arrival s = do {
     s1 \<leftarrow> (if elapsed > ao_rtc_budget_ns (aos s ao) then sys_breaker on_direct_timeout target s
            else sys_breaker on_rtc_ok target s);
     let s2 = (if pending_ctr (aos s1 ao) > 0 then wake_dispatcher False s1 else s1);
     s3 \<leftarrow> sys_gc e s2;
     Some (arrival_commit arrival (sys_monitor (record_disposition Direct) s3))
   }"

definition stage_direct ::
    "'p Env \<Rightarrow> TargetId \<Rightarrow> nat \<Rightarrow> nat \<Rightarrow> bool \<Rightarrow> ArrivalReservation \<Rightarrow> ('c, 'p) Sys
      \<Rightarrow> (SubmitResult option \<times> ArrivalReservation \<times> ('c, 'p) Sys) option" where
  "stage_direct env target ao e from_isr arrival s = do {
     breaker \<leftarrow> target_breaker (breaker_bank s) target;
     if \<not> from_isr \<and> ao_direct_eligible (aos s ao) \<and> direct_allowed target breaker then
       if ao_lease (aos s ao) = RunIdle then do {
         let (t0, s1) = monotonic_ns env (enter_direct s);
         (taken, ao1) \<leftarrow> dispatch_direct (event_at (pool_world s1) e) (rival_acts env (clock_reads s1) (aos s1 ao));
         let (t1, s2) = monotonic_ns env (set_ao ao ao1 s1);
         let s3 = leave_direct s2;
         if taken then do {
           (arrival1, s4) \<leftarrow> direct_completed target ao e (t1 - t0) arrival s3;
           Some (Some (result Direct 0), arrival1, s4)
         } else Some (None, arrival, sys_monitor (record_lease_contention target) s3)
       } else Some (None, arrival, sys_monitor (record_lease_contention target) s)
     else Some (None, arrival, s)
   }"

text \<open>The pending slot is reserved before the queue slot becomes visible.\<close>
definition reserve_pending :: "TargetId \<Rightarrow> nat \<Rightarrow> ('c, 'p) Sys \<Rightarrow> (bool \<times> ('c, 'p) Sys) option" where
  "reserve_pending target ao s =
     (case admission s of
        Some a \<Rightarrow>
          (case pending_try_increment (backlog_cap target a) (pending_ctr (aos s ao)) of
             (ok, n) \<Rightarrow> Some (ok, set_ao ao ((aos s ao)\<lparr>pending_ctr := n\<rparr>) s))
      | None \<Rightarrow> do {
          n \<leftarrow> pending_increment (pending_ctr (aos s ao));
          Some (True, set_ao ao ((aos s ao)\<lparr>pending_ctr := n\<rparr>) s)
        })"

definition release_pending :: "nat \<Rightarrow> ('c, 'p) Sys \<Rightarrow> ('c, 'p) Sys option" where
  "release_pending ao s = do {
     n \<leftarrow> pending_decrement (pending_ctr (aos s ao));
     Some (set_ao ao ((aos s ao)\<lparr>pending_ctr := n\<rparr>) s)
   }"

definition backlog_rejected ::
    "TargetId \<Rightarrow> nat \<Rightarrow> nat \<Rightarrow> u64 option \<Rightarrow> ('c, 'p) Sys \<Rightarrow> (SubmitResult \<times> ('c, 'p) Sys) option" where
  "backlog_rejected target ao e now s = do {
     s1 \<leftarrow> sys_gc e s;
     let s2 = sys_monitor (record_rejection target kC9BacklogCap) s1;
     let s3 = sys_monitor (record_disposition RejectedFull) s2;
     Some (result RejectedFull kBacklogFull,
       sys_monitor (record_admission_snapshot target RejectedFull kBacklogFull (now_value now) (ao_rtc_budget_ns (aos s3 ao))) s3)
   }"

definition staging_rejected ::
    "TargetId \<Rightarrow> nat \<Rightarrow> nat \<Rightarrow> u64 option \<Rightarrow> ('c, 'p) Sys \<Rightarrow> (SubmitResult \<times> ('c, 'p) Sys) option" where
  "staging_rejected target ao e now s = do {
     s1 \<leftarrow> release_pending ao s;
     s2 \<leftarrow> sys_gc e s1;
     s3 \<leftarrow> sys_breaker on_overflow target (sys_monitor record_overflow s2);
     let s4 = sys_monitor (record_disposition RejectedFull) s3;
     Some (result RejectedFull 0,
       if admission s4 = None then s4
       else sys_monitor (record_admission_snapshot target RejectedFull kStagingFull (now_value now) (ao_rtc_budget_ns (aos s4 ao))) s4)
   }"

definition sample_for_staging :: "'p Env \<Rightarrow> TargetId \<Rightarrow> PriorityClass \<Rightarrow> u64 option \<Rightarrow> ('c, 'p) Sys \<Rightarrow> u64 option \<times> ('c, 'p) Sys" where
  "sample_for_staging env target cls now s =
     (let (now1, s1) = (if cls = Low then sample_now env now s else (now, s))
      in case admission s1 of
           None \<Rightarrow> (now1, s1)
         | Some a \<Rightarrow> if backlog_cap target a \<noteq> 0 then sample_now env now1 s1 else (now1, s1))"

definition stage_queued ::
    "'p Env \<Rightarrow> TargetId \<Rightarrow> nat \<Rightarrow> nat \<Rightarrow> EventQos \<Rightarrow> StagingAdmission \<Rightarrow> bool \<Rightarrow> u64 option \<Rightarrow> ArrivalReservation
      \<Rightarrow> ('c, 'p) Sys \<Rightarrow> (SubmitResult \<times> ArrivalReservation \<times> ('c, 'p) Sys) option" where
  "stage_queued env target ao e qos adm from_isr now arrival s = do {
     let cls = ao_priority_class (aos s ao);
     let (now1, s1) = sample_for_staging env target cls now s;
     (reserved, s2) \<leftarrow> reserve_pending target ao s1;
     if \<not> reserved then do {
       (r, s3) \<leftarrow> backlog_rejected target ao e now1 s2;
       Some (r, arrival, s3)
     } else do {
       (queued, sg) \<leftarrow> enqueue (env_cfg env) target e cls (now_value now1) (critical qos) adm (staging s2);
       let s3 = s2\<lparr>staging := sg\<rparr>;
       if \<not> queued then do {
         (r, s4) \<leftarrow> staging_rejected target ao e now1 s3;
         Some (r, arrival, s4)
       } else do {
         let (arrival1, s4) = arrival_commit arrival s3;
         let s5 = wake_dispatcher from_isr s4;
         let s6 = sys_monitor (record_disposition Queued) s5;
         Some (result Queued 0, arrival1, sys_monitor (record_pending target (pending_ctr (aos s6 ao))) s6)
       }
     }
   }"

section \<open>Submit\<close>

text \<open>The part of the pipeline that runs under the submission lease.\<close>
definition submit_admitted ::
    "'p Env \<Rightarrow> TargetId \<Rightarrow> nat \<Rightarrow> nat \<Rightarrow> EventQos \<Rightarrow> StagingAdmission \<Rightarrow> bool \<Rightarrow> ('c, 'p) Sys
      \<Rightarrow> (SubmitResult \<times> ArrivalReservation \<times> ('c, 'p) Sys) option" where
  "submit_admitted env target ao e qos adm from_isr s = do {
     breaker \<leftarrow> target_breaker (breaker_bank s) target;
     if \<not> critical qos \<and> drop_non_critical breaker then do {
       s1 \<leftarrow> sys_gc e (sys_monitor (record_disposition DroppedOverload) s);
       Some (result DroppedOverload 0, inert_reservation, s1)
     } else do {
       (r1, now1, s1) \<leftarrow> stage_policy env target e qos s;
       case r1 of
         Some r \<Rightarrow> Some (r, inert_reservation, s1)
       | None \<Rightarrow> do {
           (r2, arrival, now2, s2) \<leftarrow> stage_arrival env target ao e now1 s1;
           case r2 of
             Some r \<Rightarrow> Some (r, arrival, s2)
           | None \<Rightarrow> do {
               (r3, arrival1, s3) \<leftarrow> stage_direct env target ao e from_isr arrival s2;
               case r3 of
                 Some r \<Rightarrow> Some (r, arrival1, s3)
               | None \<Rightarrow> stage_queued env target ao e qos adm from_isr now2 arrival1 s3
             }
         }
     }
   }"

definition submission_lease_destroy :: "bool \<Rightarrow> ('c, 'p) Sys \<Rightarrow> ('c, 'p) Sys" where
  "submission_lease_destroy from_isr s =
     (case release_submission (staging s) of
        (last_one, sg) \<Rightarrow> if last_one then pal_signal from_isr (s\<lparr>staging := sg\<rparr>) else s\<lparr>staging := sg\<rparr>)"

definition submit_internal ::
    "'p Env \<Rightarrow> TargetId \<Rightarrow> nat \<Rightarrow> EventQos \<Rightarrow> StagingAdmission \<Rightarrow> bool \<Rightarrow> ('c, 'p) Sys \<Rightarrow> (SubmitResult \<times> ('c, 'p) Sys) option" where
  "submit_internal env target e qos adm from_isr s =
     (case registry_lookup (ao_registry s) target of
        None \<Rightarrow> do { s1 \<leftarrow> sys_gc e s; Some (result RejectedState 0, s1) }
      | Some ao \<Rightarrow>
          if \<not> admission_valid (env_cfg env) (ao_priority_class (aos s ao)) adm then do {
            s1 \<leftarrow> sys_gc e s;
            Some (result RejectedState 0, sys_monitor (record_disposition RejectedState) s1)
          } else
            (case acquire_submission (staging s) of
               (False, sg) \<Rightarrow> do {
                 s1 \<leftarrow> sys_gc e (s\<lparr>staging := sg\<rparr>);
                 Some (result RejectedState 0, sys_monitor (record_disposition RejectedState) s1)
               }
             | (True, sg) \<Rightarrow> do {
                 (r, arrival, s1) \<leftarrow> submit_admitted env target ao e qos adm from_isr (s\<lparr>staging := sg\<rparr>);
                 Some (r, arrival_destroy arrival (submission_lease_destroy from_isr s1))
               }))"

definition submit_from_task ::
    "'p Env \<Rightarrow> TargetId \<Rightarrow> nat \<Rightarrow> EventQos \<Rightarrow> StagingAdmission \<Rightarrow> ('c, 'p) Sys \<Rightarrow> (SubmitResult \<times> ('c, 'p) Sys) option" where
  "submit_from_task env target e qos adm s = submit_internal env target e qos adm False s"

definition try_submit_from_isr ::
    "'p Env \<Rightarrow> TargetId \<Rightarrow> nat \<Rightarrow> EventQos \<Rightarrow> StagingAdmission \<Rightarrow> ('c, 'p) Sys \<Rightarrow> (SubmitResult \<times> ('c, 'p) Sys) option" where
  "try_submit_from_isr env target e qos adm s = submit_internal env target e qos adm True s"

end
