(* ===== verification/Ingress.thy ===== *)
theory Ingress
  imports Coordinator
begin

text \<open>
  Producers and the dispatcher as threads: the protocol by which a submission is admitted,
  published, signalled and released while the dispatcher falls asleep and another thread
  shuts the runtime down. The threads interleave under sequential consistency.

  \<^item> \<^verbatim>\<open>producer_step\<close>: every access to the submission word, the wake latch and the PAL's wake
    flag is one step. \<^verbatim>\<open>ProdLoaded\<close> is the compare-and-exchange loop of \<^verbatim>\<open>acquire_submission\<close>,
    which may fail spuriously. The pipeline between admission and publication
    (coordinator.hpp) touches none of the three and ends in one step: \<^verbatim>\<open>p_publish\<close> is a
    successful \<^verbatim>\<open>enqueue\<close> (its claim, its queue cell and the cell's publication together),
    \<^verbatim>\<open>p_direct\<close> a direct dispatch that found pending events, \<^verbatim>\<open>p_unpublished\<close> every submission
    that leaves without a wake. \<^verbatim>\<open>ProdDone\<close> is the destructor of the lease.
  \<^item> \<^verbatim>\<open>stop_step\<close>: \<^verbatim>\<open>request_stop\<close>.
  \<^item> \<^verbatim>\<open>disp_step\<close>: batches, the deferred slot (\<^verbatim>\<open>d_rearm\<close> clears the latch before the slot is
    retried, \<^verbatim>\<open>d_timed\<close> is the bounded wait), and the idle branch: the latch is cleared, then
    \<^verbatim>\<open>any_ready\<close> looks at one partition after the other, and if it finds nothing the dispatcher
    blocks. A dequeue is one step; the dispatcher is the only consumer. The PAL's wake flag is
    set by a signal and consumed by the wait (pal_posix.cpp); a wait may return spuriously.
\<close>

datatype ProducerPc =
    ProdIdle
  | ProdLoaded u32
  | ProdAdmitted
  | ProdPublished
  | ProdOwesSignal
  | ProdDone
  | ProdLast

datatype DispPc = DispActive | DispScan "Partition list" | DispWaiting

datatype StopPc = StopIdle | StopClosed | StopSignalled

record Ingress =
  in_staging :: Staging
  in_pc :: "nat \<Rightarrow> ProducerPc"
  in_disp :: DispPc
  in_stop :: StopPc
  in_wake :: bool

definition ingress_start :: "Staging \<Rightarrow> Ingress" where
  "ingress_start sg = \<lparr>in_staging = sg, in_pc = (\<lambda>t. ProdIdle), in_disp = DispActive, in_stop = StopIdle, in_wake = False\<rparr>"

definition prod_goto :: "Ingress \<Rightarrow> nat \<Rightarrow> ProducerPc \<Rightarrow> Ingress" where
  "prod_goto y t pc = y\<lparr>in_pc := (in_pc y)(t := pc)\<rparr>"

inductive producer_step :: "Config \<Rightarrow> Ingress \<Rightarrow> Ingress \<Rightarrow> bool" for cfg where
  p_load: "in_pc y t = ProdIdle \<Longrightarrow> producer_step cfg y (prod_goto y t (ProdLoaded (admission_word (in_staging y))))"
| p_refused: "\<lbrakk>in_pc y t = ProdLoaded state; submission_decide () state = None\<rbrakk> \<Longrightarrow> producer_step cfg y (prod_goto y t ProdIdle)"
| p_exchange: "\<lbrakk>in_pc y t = ProdLoaded state; submission_decide () state = Some desired; admission_word (in_staging y) = state\<rbrakk> \<Longrightarrow>
     producer_step cfg y ((prod_goto y t ProdAdmitted)\<lparr>in_staging := (in_staging y)\<lparr>admission_word := desired\<rparr>\<rparr>)"
| p_retry: "\<lbrakk>in_pc y t = ProdLoaded state; submission_decide () state \<noteq> None\<rbrakk> \<Longrightarrow>
     producer_step cfg y (prod_goto y t (ProdLoaded (admission_word (in_staging y))))"
| p_publish: "\<lbrakk>in_pc y t = ProdAdmitted; enqueue cfg target e cls now crit adm (in_staging y) = Some (True, sg)\<rbrakk> \<Longrightarrow>
     producer_step cfg y ((prod_goto y t ProdPublished)\<lparr>in_staging := sg\<rparr>)"
| p_unpublished: "in_pc y t = ProdAdmitted \<Longrightarrow> producer_step cfg y (prod_goto y t ProdDone)"
| p_direct: "in_pc y t = ProdAdmitted \<Longrightarrow> producer_step cfg y (prod_goto y t ProdPublished)"
| p_latch: "\<lbrakk>in_pc y t = ProdPublished; request_dispatcher_wake (in_staging y) = (wake, sg)\<rbrakk> \<Longrightarrow>
     producer_step cfg y ((prod_goto y t (if wake then ProdOwesSignal else ProdDone))\<lparr>in_staging := sg\<rparr>)"
| p_signal: "in_pc y t = ProdOwesSignal \<Longrightarrow> producer_step cfg y ((prod_goto y t ProdDone)\<lparr>in_wake := True\<rparr>)"
| p_release: "\<lbrakk>in_pc y t = ProdDone; release_submission (in_staging y) = (last_one, sg)\<rbrakk> \<Longrightarrow>
     producer_step cfg y ((prod_goto y t (if last_one then ProdLast else ProdIdle))\<lparr>in_staging := sg\<rparr>)"
| p_last: "in_pc y t = ProdLast \<Longrightarrow> producer_step cfg y ((prod_goto y t ProdIdle)\<lparr>in_wake := True\<rparr>)"

inductive stop_step :: "Ingress \<Rightarrow> Ingress \<Rightarrow> bool" where
  s_close: "in_stop y = StopIdle \<Longrightarrow> stop_step y (y\<lparr>in_staging := close_admission (in_staging y), in_stop := StopClosed\<rparr>)"
| s_signal: "in_stop y = StopClosed \<Longrightarrow> stop_step y (y\<lparr>in_wake := True, in_stop := StopSignalled\<rparr>)"

inductive disp_step :: "Config \<Rightarrow> Ingress \<Rightarrow> Ingress \<Rightarrow> bool" for cfg where
  d_take: "\<lbrakk>in_disp y = DispActive; dequeue_one cfg now (in_staging y) = Some (out, sg)\<rbrakk> \<Longrightarrow> disp_step cfg y (y\<lparr>in_staging := sg\<rparr>)"
| d_batch: "in_disp y = DispActive \<Longrightarrow> disp_step cfg y (y\<lparr>in_staging := begin_batch (in_staging y)\<rparr>)"
| d_rearm: "in_disp y = DispActive \<Longrightarrow> disp_step cfg y (y\<lparr>in_staging := arm_dispatcher_wait (in_staging y)\<rparr>)"
| d_timed: "in_disp y = DispActive \<Longrightarrow> disp_step cfg y (y\<lparr>in_wake := False\<rparr>)"
| d_arm: "in_disp y = DispActive \<Longrightarrow>
     disp_step cfg y (y\<lparr>in_staging := arm_dispatcher_wait (in_staging y), in_disp := DispScan [PHigh, PNormal, PLow]\<rparr>)"
| d_ready: "\<lbrakk>in_disp y = DispScan (p # ps); sq_has_ready (part_q p (in_staging y))\<rbrakk> \<Longrightarrow> disp_step cfg y (y\<lparr>in_disp := DispActive\<rparr>)"
| d_next: "\<lbrakk>in_disp y = DispScan (p # ps); \<not> sq_has_ready (part_q p (in_staging y))\<rbrakk> \<Longrightarrow> disp_step cfg y (y\<lparr>in_disp := DispScan ps\<rparr>)"
| d_sleep: "in_disp y = DispScan [] \<Longrightarrow> disp_step cfg y (y\<lparr>in_disp := DispWaiting\<rparr>)"
| d_wake: "\<lbrakk>in_disp y = DispWaiting; in_wake y\<rbrakk> \<Longrightarrow> disp_step cfg y (y\<lparr>in_disp := DispActive, in_wake := False\<rparr>)"
| d_spurious: "in_disp y = DispWaiting \<Longrightarrow> disp_step cfg y (y\<lparr>in_disp := DispActive, in_wake := False\<rparr>)"

text \<open>Any number of producers, one dispatcher and one stopping thread, in any order.\<close>
inductive ingress_step :: "Config \<Rightarrow> Ingress \<Rightarrow> Ingress \<Rightarrow> bool" for cfg where
  i_producer: "producer_step cfg y z \<Longrightarrow> ingress_step cfg y z"
| i_stop: "stop_step y z \<Longrightarrow> ingress_step cfg y z"
| i_dispatcher: "disp_step cfg y z \<Longrightarrow> ingress_step cfg y z"

text \<open>The threads that hold a submission lease.\<close>
fun holds :: "ProducerPc \<Rightarrow> bool" where
  "holds ProdIdle = False"
| "holds (ProdLoaded state) = False"
| "holds ProdLast = False"
| "holds pc = True"

end
