(* ===== verification/Ingress_Properties.thy ===== *)
theory Ingress_Properties
  imports Ingress Staging_Properties
begin

text \<open>
  The ingress protocol is correct under every interleaving: the submission word counts the
  producers between admission and release, closing it lets nobody in any more, exactly the
  last producer learns that it is the last, and the dispatcher never sleeps through a
  published event.
\<close>

section \<open>The submission word\<close>

definition closed :: "u32 \<Rightarrow> bool" where "closed w \<longleftrightarrow> w AND kAdmissionClosed \<noteq> 0"

definition submissions :: "u32 \<Rightarrow> nat" where "submissions w = unat (w AND kAdmissionCountMask)"

lemma submissions_mod: "submissions w = unat w mod 2147483648"
proof -
  have m: "kAdmissionCountMask = mask 31" by (simp add: kAdmissionCountMask_def kAdmissionClosed_def mask_eq_exp_minus_1)
  show ?thesis unfolding submissions_def m take_bit_eq_mask [symmetric] unsigned_take_bit_eq by (simp add: take_bit_eq_mod)
qed

lemma closed_iff: "closed w \<longleftrightarrow> 2147483648 \<le> unat w"
proof -
  have m: "kAdmissionClosed = 2 ^ 31" by (simp add: kAdmissionClosed_def)
  have "closed w \<longleftrightarrow> bit w 31" unfolding closed_def m and_exp_eq_0_iff_not_bit by simp
  also have "\<dots> \<longleftrightarrow> bit (unat w) 31" by (simp add: bit_unsigned_iff)
  also have "\<dots> \<longleftrightarrow> odd (unat w div 2147483648)" by (simp add: bit_iff_odd)
  also have "\<dots> \<longleftrightarrow> 2147483648 \<le> unat w"
  proof (cases "2147483648 \<le> unat w")
    case True
    then have "unat w div 2147483648 = 1" using unat_less_32 [of w] by (intro div_nat_eqI) simp_all
    then show ?thesis using True by simp
  qed simp
  finally show ?thesis .
qed

lemma closed_unat: "unat w = (if closed w then 2147483648 else 0) + submissions w"
proof (cases "closed w")
  case True
  then have "2147483648 \<le> unat w" "unat w - 2147483648 < 2147483648" using unat_less_32 [of w] closed_iff [of w] by linarith+
  then have "unat w mod 2147483648 = unat w - 2147483648" by (simp only: le_mod_geq mod_less)
  then show ?thesis using True \<open>2147483648 \<le> unat w\<close> by (simp add: submissions_mod)
next
  case False
  then have "unat w mod 2147483648 = unat w" using closed_iff [of w] by (intro mod_less) linarith
  then show ?thesis using False by (simp add: submissions_mod)
qed

lemma word_eqI_unat: "\<lbrakk>unat v = (if c then 2147483648 else 0) + n; n < 2147483648\<rbrakk> \<Longrightarrow> closed v = c \<and> submissions v = n"
  by (auto simp: closed_iff submissions_mod split: if_splits)

lemma submissions_less: "submissions w < 2147483648"
  by (simp add: submissions_mod)

lemma acquire_word:
  assumes "submission_decide () w = Some v"
  shows "\<not> closed w" "v = w + 1" "closed v = closed w" "submissions v = Suc (submissions w)"
proof -
  have m: "unat kAdmissionCountMask = 2147483647" by (simp add: kAdmissionCountMask_def kAdmissionClosed_def)
  have "\<not> closed w \<and> w AND kAdmissionCountMask \<noteq> kAdmissionCountMask \<and> v = w + 1"
    using assms unfolding submission_decide_def closed_def by (simp split: if_splits)
  then have c: "\<not> closed w" "submissions w \<noteq> 2147483647" "v = w + 1"
    unfolding submissions_def m [symmetric] word_unat_eq_iff [symmetric] by simp_all
  then have l: "Suc (submissions w) < 2147483648" using submissions_less [of w] by linarith
  then have "unat (w + 1) = Suc (submissions w)" using closed_unat [of w] c(1) by (subst unat_inc) simp_all
  then have "closed v = False \<and> submissions v = Suc (submissions w)" using l c(3) by (intro word_eqI_unat) simp_all
  then show "\<not> closed w" "v = w + 1" "closed v = closed w" "submissions v = Suc (submissions w)" using c by simp_all
qed

lemma release_word:
  assumes "0 < submissions w"
  shows "closed (w - 1) = closed w" "submissions (w - 1) = submissions w - 1"
    "kAdmissionClosed OR 1 = w \<longleftrightarrow> closed w \<and> submissions w = 1"
proof -
  have "unat (w - 1) = unat w - 1" using closed_unat [of w] assms by (intro unat_dec) simp
  then have "unat (w - 1) = (if closed w then 2147483648 else 0) + (submissions w - 1)" using closed_unat [of w] assms by simp
  from word_eqI_unat [OF this] submissions_less [of w] show "closed (w - 1) = closed w" "submissions (w - 1) = submissions w - 1" by simp_all
  have "kAdmissionClosed OR 1 = (0x80000001 :: u32)" by (simp add: kAdmissionClosed_def)
  then have "kAdmissionClosed OR 1 = w \<longleftrightarrow> unat w = 2147483649" unfolding word_unat_eq_iff by auto
  then show "kAdmissionClosed OR 1 = w \<longleftrightarrow> closed w \<and> submissions w = 1"
    using closed_unat [of w] submissions_less [of w] by (auto split: if_splits)
qed

lemma close_word: "closed (w OR kAdmissionClosed)" "submissions (w OR kAdmissionClosed) = submissions w"
proof -
  have "(w OR kAdmissionClosed) AND kAdmissionClosed = kAdmissionClosed" by (simp add: bit_eq_iff bit_simps)
  then show "closed (w OR kAdmissionClosed)" by (simp add: closed_def kAdmissionClosed_def)
  have "(w OR kAdmissionClosed) AND kAdmissionCountMask = w AND kAdmissionCountMask"
    by (simp add: kAdmissionCountMask_def bit_eq_iff) (auto simp: bit_simps)
  then show "submissions (w OR kAdmissionClosed) = submissions w" by (simp add: submissions_def)
qed

section \<open>What the steps leave alone\<close>

lemma release_claim_rest: "release_claim c sg = Some sg' \<Longrightarrow> sg_rest sg' = sg_rest sg"
  by (auto simp: release_claim_def release_claim_counter_def bind_eq_Some_conv coact_assert_def split: if_splits)

lemma try_claim_rest: "try_claim cfg c sg = (ok, sg') \<Longrightarrow> sg_rest sg' = sg_rest sg"
  by (auto simp: try_claim_def try_claim_counter_def split: if_splits prod.splits)

lemma enqueue_rest: "enqueue cfg target e cls now crit adm sg = Some (ok, sg') \<Longrightarrow> sg_rest sg' = sg_rest sg"
  by (auto simp: enqueue_def Let_def bind_eq_Some_conv split: if_splits prod.splits bool.splits dest!: try_claim_rest release_claim_rest)

lemma dequeue_rest: "dequeue_one cfg now sg = Some (out, sg') \<Longrightarrow> sg_rest sg' = sg_rest sg"
  by (auto simp: dequeue_one_def Let_def bind_eq_Some_conv split: if_splits prod.splits option.splits dest!: release_claim_rest)

lemma rest_eq: "sg_rest sg' = sg_rest sg \<longleftrightarrow> wake_pending sg' = wake_pending sg \<and> admission_word sg' = admission_word sg"
  by (simp add: sg_rest_def)

lemma any_ready_simps [simp]:
  "any_ready (sg\<lparr>wake_pending := b\<rparr>) = any_ready sg" "any_ready (sg\<lparr>admission_word := w\<rparr>) = any_ready sg"
  "any_ready (sg\<lparr>batch_used := u\<rparr>) = any_ready sg"
  by (simp_all add: any_ready_def)

lemma goto_simps [simp]:
  "in_staging (prod_goto y t pc) = in_staging y" "in_disp (prod_goto y t pc) = in_disp y" "in_stop (prod_goto y t pc) = in_stop y"
  "in_wake (prod_goto y t pc) = in_wake y" "in_pc (prod_goto y t pc) u = (if u = t then pc else in_pc y u)"
  by (simp_all add: prod_goto_def)

section \<open>Leases\<close>

definition holders :: "Ingress \<Rightarrow> nat set" where
  "holders y = {t. holds (in_pc y t)}"

lemma holders_simps [simp]:
  "holders (y\<lparr>in_staging := sg\<rparr>) = holders y" "holders (y\<lparr>in_wake := b\<rparr>) = holders y" "holders (y\<lparr>in_disp := d\<rparr>) = holders y"
  "holders (y\<lparr>in_stop := p\<rparr>) = holders y"
  "holders (prod_goto y t pc) = (if holds pc then insert t (holders y) else holders y - {t})"
  by (auto simp: holders_def prod_goto_def)

definition word :: "Ingress \<Rightarrow> u32" where "word y = admission_word (in_staging y)"

definition lease_inv :: "Ingress \<Rightarrow> bool" where
  "lease_inv y \<longleftrightarrow> finite (holders y) \<and> submissions (word y) = card (holders y) \<and> (closed (word y) \<longleftrightarrow> in_stop y \<noteq> StopIdle)"

lemma lease_invD:
  assumes "lease_inv y"
  shows "finite (holders y)" "submissions (word y) = card (holders y)" "closed (word y) \<longleftrightarrow> in_stop y \<noteq> StopIdle"
  using assms by (simp_all add: lease_inv_def)

lemma mem_holders: "t \<in> holders y \<longleftrightarrow> holds (in_pc y t)"
  by (simp add: holders_def)

lemma lease_same:
  "\<lbrakk>lease_inv y; word y' = word y; holders y' = holders y; in_stop y' = StopIdle \<longleftrightarrow> in_stop y = StopIdle\<rbrakk> \<Longrightarrow> lease_inv y'"
  by (simp add: lease_inv_def)

lemma lease_producer:
  assumes "producer_step cfg y y'" "lease_inv y"
  shows "lease_inv y'"
  using assms(1)
proof cases
  case (p_exchange t state desired)
  note D = lease_invD [OF assms(2)] and A = acquire_word [OF p_exchange(3)]
  have t: "t \<notin> holders y" using p_exchange(2) by (simp add: holders_def)
  have "word y' = desired" "word y = state" using p_exchange by (simp_all add: word_def)
  then show ?thesis using p_exchange(1) D A t by (simp add: lease_inv_def)
next
  case (p_release t last_one sg)
  note D = lease_invD [OF assms(2)]
  have t: "t \<in> holders y" using p_release(2) by (simp add: holders_def)
  then have "0 < submissions (word y)" using D by (auto simp: card_gt_0_iff)
  note R = release_word [OF this]
  have "word y' = word y - 1" "holders y' = holders y - {t}" using p_release by (auto simp: word_def release_submission_def)
  then show ?thesis using p_release(1) D R t by (simp add: lease_inv_def card_Diff_singleton)
next
  case (p_publish t target e cls now crit adm sg)
  then show ?thesis using enqueue_rest [OF p_publish(3)]
    by (intro lease_same [OF assms(2)]) (simp_all add: word_def rest_eq insert_absorb mem_holders)
next
  case (p_latch t wake sg)
  then have "admission_word sg = admission_word (in_staging y)" by (auto simp: request_dispatcher_wake_def)
  then show ?thesis using p_latch
    by (intro lease_same [OF assms(2)]) (simp_all add: word_def insert_absorb mem_holders)
qed (rule lease_same [OF assms(2)];
    simp add: word_def mem_holders insert_absorb begin_batch_def arm_dispatcher_wait_def)+

lemma lease_stop:
  assumes "stop_step y y'" "lease_inv y"
  shows "lease_inv y'"
  using assms(1)
proof cases
  case s_close
  note D = lease_invD [OF assms(2)]
  have "word y' = word y OR kAdmissionClosed" using s_close by (simp add: word_def close_admission_def)
  then show ?thesis using s_close D close_word [of "word y"] by (simp add: lease_inv_def)
qed (rule lease_same [OF assms(2)];
    simp add: word_def mem_holders insert_absorb begin_batch_def arm_dispatcher_wait_def)+

lemma lease_disp:
  assumes "disp_step cfg y y'" "lease_inv y"
  shows "lease_inv y'"
  using assms(1)
proof cases
  case (d_take now out sg)
  then show ?thesis using dequeue_rest [OF d_take(3)] by (intro lease_same [OF assms(2)]) (simp_all add: word_def rest_eq)
qed (rule lease_same [OF assms(2)];
    simp add: word_def mem_holders insert_absorb begin_batch_def arm_dispatcher_wait_def)+

lemma lease_step: "\<lbrakk>ingress_step cfg y y'; lease_inv y\<rbrakk> \<Longrightarrow> lease_inv y'"
  by (erule ingress_step.cases) (auto intro: lease_producer lease_stop lease_disp)

section \<open>Wake-ups\<close>

text \<open>
  While the dispatcher is about to sleep or asleep, a set latch means that its signal is on
  the way; a partition that it has looked at and that is ready means that the latch is set or
  about to be.
\<close>
fun scanned :: "DispPc \<Rightarrow> Partition set" where
  "scanned DispActive = {}"
| "scanned (DispScan ps) = - set ps"
| "scanned DispWaiting = UNIV"

definition seen_ready :: "DispPc \<Rightarrow> Staging \<Rightarrow> bool" where
  "seen_ready d sg \<longleftrightarrow> (\<exists>p \<in> scanned d. sq_has_ready (part_q p sg))"

lemma any_ready_seen: "any_ready sg = seen_ready DispWaiting sg"
  by (auto simp: any_ready_def seen_ready_def) (metis Partition.exhaust part_q.simps)+

lemma seen_simps [simp]:
  "seen_ready d (sg\<lparr>wake_pending := b\<rparr>) = seen_ready d sg" "seen_ready d (sg\<lparr>admission_word := w\<rparr>) = seen_ready d sg"
  "\<not> seen_ready DispActive sg" "\<not> seen_ready (DispScan [PHigh, PNormal, PLow]) sg"
proof -
  have "part_q p (sg\<lparr>wake_pending := b\<rparr>) = part_q p sg" "part_q p (sg\<lparr>admission_word := w\<rparr>) = part_q p sg" for p by (cases p; simp)+
  then show "seen_ready d (sg\<lparr>wake_pending := b\<rparr>) = seen_ready d sg" "seen_ready d (sg\<lparr>admission_word := w\<rparr>) = seen_ready d sg"
    by (simp_all add: seen_ready_def)
  have "p \<in> {PHigh, PNormal, PLow}" for p by (cases p) simp_all
  then show "\<not> seen_ready DispActive sg" "\<not> seen_ready (DispScan [PHigh, PNormal, PLow]) sg" by (auto simp: seen_ready_def)
qed

lemma seen_next: "\<not> sq_has_ready (part_q p sg) \<Longrightarrow> seen_ready (DispScan ps) sg \<Longrightarrow> seen_ready (DispScan (p # ps)) sg"
  by (auto simp: seen_ready_def)

definition wake_inv :: "Ingress \<Rightarrow> bool" where
  "wake_inv y \<longleftrightarrow> (in_disp y \<noteq> DispActive \<and> wake_pending (in_staging y) \<longrightarrow> in_wake y \<or> (\<exists>t. in_pc y t = ProdOwesSignal))
     \<and> (seen_ready (in_disp y) (in_staging y) \<longrightarrow> wake_pending (in_staging y) \<or> (\<exists>t. in_pc y t = ProdPublished))"

lemma goto_other: "\<lbrakk>\<exists>u. in_pc y u = q; in_pc y t \<noteq> q\<rbrakk> \<Longrightarrow> \<exists>u. in_pc (prod_goto y t pc) u = q"
  by (auto intro: exI) 

lemma goto_self: "\<exists>u. in_pc (prod_goto y t pc) u = pc"
  by (intro exI [of _ t]) simp

text \<open>A step of a producer that neither publishes, nor takes the latch, nor signals.\<close>
lemma wake_goto:
  assumes "wake_inv y" "in_pc y t \<noteq> ProdOwesSignal" "in_pc y t \<noteq> ProdPublished"
    "wake_pending sg = wake_pending (in_staging y)" "\<And>d. seen_ready d sg = seen_ready d (in_staging y)"
  shows "wake_inv ((prod_goto y t pc)\<lparr>in_staging := sg\<rparr>)" "wake_inv (prod_goto y t pc)"
    "wake_inv ((prod_goto y t pc)\<lparr>in_wake := True\<rparr>)"
proof -
  note goto_other [of y _ t pc]
  then show "wake_inv ((prod_goto y t pc)\<lparr>in_staging := sg\<rparr>)" "wake_inv (prod_goto y t pc)"
    "wake_inv ((prod_goto y t pc)\<lparr>in_wake := True\<rparr>)"
    using assms unfolding wake_inv_def by (simp_all del: goto_simps(5)) blast+
qed

lemma wake_producer:
  assumes "producer_step cfg y y'" "wake_inv y"
  shows "wake_inv y'"
  using assms(1)
proof cases
  case (p_exchange t state desired)
  then show ?thesis using wake_goto(1) [OF assms(2), of t] by simp
next
  case (p_publish t target e cls now crit adm sg)
  have "wake_pending sg = wake_pending (in_staging y)" using enqueue_rest [OF p_publish(3)] by (simp add: rest_eq)
  moreover have "\<exists>u. in_pc (prod_goto y t ProdPublished) u = ProdOwesSignal" if "\<exists>u. in_pc y u = ProdOwesSignal"
    using goto_other [OF that] p_publish(2) by simp
  moreover note goto_self [of y t ProdPublished]
  ultimately show ?thesis using assms(2) unfolding p_publish(1) wake_inv_def by (auto simp del: goto_simps(5))
next
  case (p_latch t wake sg)
  have sg: "wake \<longleftrightarrow> \<not> wake_pending (in_staging y)" "sg = (in_staging y)\<lparr>wake_pending := True\<rparr>"
    using p_latch(3) by (auto simp: request_dispatcher_wake_def)
  have "\<exists>u. in_pc (prod_goto y t (if wake then ProdOwesSignal else ProdDone)) u = ProdOwesSignal"
    if "wake \<or> (\<exists>u. in_pc y u = ProdOwesSignal)"
    using that goto_self [of y t ProdOwesSignal] goto_other [of y ProdOwesSignal t] p_latch(2) by (cases wake) simp_all
  then have "in_disp y \<noteq> DispActive \<longrightarrow> in_wake y \<or> (\<exists>u. in_pc (prod_goto y t (if wake then ProdOwesSignal else ProdDone)) u = ProdOwesSignal)"
    using assms(2) sg(1) unfolding wake_inv_def by blast
  then show ?thesis unfolding p_latch(1) sg(2) wake_inv_def by (simp del: goto_simps(5))
next
  case (p_signal t)
  have "\<exists>u. in_pc (prod_goto y t ProdDone) u = ProdPublished" if "\<exists>u. in_pc y u = ProdPublished"
    using goto_other [OF that] p_signal(2) by simp
  then show ?thesis using assms(2) unfolding p_signal(1) wake_inv_def by (auto simp del: goto_simps(5))
next
  case (p_release t last_one sg)
  then show ?thesis using wake_goto(1) [OF assms(2), of t] by (auto simp: release_submission_def)
next
  case (p_last t)
  then show ?thesis using wake_goto(3) [OF assms(2), of t "in_staging y"] by simp
next
  case (p_load t)
  then show ?thesis using wake_goto(2) [OF assms(2), of t "in_staging y"] by simp
next
  case (p_refused t state)
  then show ?thesis using wake_goto(2) [OF assms(2), of t "in_staging y"] by simp
next
  case (p_retry t state)
  then show ?thesis using wake_goto(2) [OF assms(2), of t "in_staging y"] by simp
next
  case (p_direct t)
  then show ?thesis using wake_goto(2) [OF assms(2), of t "in_staging y"] by simp
next
  case (p_unpublished t)
  then show ?thesis using wake_goto(2) [OF assms(2), of t "in_staging y"] by simp
qed

lemma wake_stop: "\<lbrakk>stop_step y y'; wake_inv y\<rbrakk> \<Longrightarrow> wake_inv y'"
  by (erule stop_step.cases) (simp_all add: wake_inv_def close_admission_def)

lemma wake_disp:
  assumes "disp_step cfg y y'" "wake_inv y"
  shows "wake_inv y'"
  using assms(1)
proof cases
  case (d_next p ps)
  then show ?thesis using assms(2) seen_next [of p "in_staging y" ps] by (auto simp: wake_inv_def)
next
  case d_sleep
  have "seen_ready (DispScan []) sg = seen_ready DispWaiting sg" for sg by (simp add: seen_ready_def)
  then show ?thesis using d_sleep assms(2) by (simp add: wake_inv_def)
qed (use assms(2) in \<open>simp_all add: wake_inv_def begin_batch_def arm_dispatcher_wait_def\<close>)

lemma wake_step: "\<lbrakk>ingress_step cfg y y'; wake_inv y\<rbrakk> \<Longrightarrow> wake_inv y'"
  by (erule ingress_step.cases) (auto intro: wake_producer wake_stop wake_disp)

lemma ingress_reachable:
  assumes "(ingress_step cfg)\<^sup>*\<^sup>* (ingress_start sg) y" "admission_word sg = 0"
  shows "lease_inv y" "wake_inv y"
  using assms(1)
proof (induction rule: rtranclp_induct)
  case base
  have "holders (ingress_start sg) = {}" by (simp add: holders_def ingress_start_def)
  then show "lease_inv (ingress_start sg)" "wake_inv (ingress_start sg)"
    using assms(2) by (simp_all add: lease_inv_def wake_inv_def word_def ingress_start_def submissions_def closed_def)
next
  case (step y z)
  { case 1 then show ?case using lease_step step by blast }
  { case 2 then show ?case using wake_step step by blast }
qed

lemma admitted_open:
  assumes "ingress_step cfg y z" "lease_inv y" "in_stop y \<noteq> StopIdle" "holds (in_pc z t)"
  shows "holds (in_pc y t)"
  using assms(1)
proof cases
  case i_producer
  then show ?thesis
  proof cases
    case (p_exchange u state desired)
    then show ?thesis using acquire_word(1) [OF p_exchange(3)] lease_invD(3) [OF assms(2)] assms(3) by (simp add: word_def)
  qed (use assms(4) in \<open>auto split: if_splits\<close>)
next
  case i_stop
  then show ?thesis using assms(4) by (auto elim: stop_step.cases)
next
  case i_dispatcher
  then show ?thesis using assms(4) by (auto elim: disp_step.cases)
qed

section \<open>Properties\<close>

text \<open>
  C8. No wake-up is lost. Under every interleaving of producers, dispatcher and shutdown: while
  the dispatcher is blocked and some event is ready, its wake flag is set, or a producer is
  about to set it, or a producer has published and will be the one to own the signal at its
  next access to the latch.
\<close>
theorem no_lost_wakeup:
  assumes "(ingress_step cfg)\<^sup>*\<^sup>* (ingress_start sg) y" and "admission_word sg = 0"
    and "in_disp y = DispWaiting" and "any_ready (in_staging y)"
  shows "in_wake y \<or> (\<exists>t. in_pc y t = ProdOwesSignal)
    \<or> ((\<exists>t. in_pc y t = ProdPublished) \<and> fst (request_dispatcher_wake (in_staging y)))"
  using ingress_reachable(2) [OF assms(1,2)] assms(3,4) by (auto simp: wake_inv_def request_dispatcher_wake_def any_ready_seen)

text \<open>The dispatcher falls asleep, then a producer is admitted and publishes.\<close>
lemma demo_ingress:
  "\<exists>y z. (ingress_step DefaultConfig)\<^sup>*\<^sup>* (ingress_start (staging_new RingBackend DefaultConfig)) y \<and> in_pc y 0 = ProdAdmitted
     \<and> ingress_step DefaultConfig y z \<and> in_disp z = DispWaiting \<and> any_ready (in_staging z) \<and> \<not> in_wake z"
proof -
  let ?cfg = DefaultConfig and ?sg = "staging_new RingBackend DefaultConfig"
  have "part_capacity ?cfg p \<noteq> 0" for p by (cases p) (simp_all add: DefaultConfig_def)
  then have s: "staging_inv ?cfg ?sg" "\<And>p. parts ?sg p = []" "staging_fresh (Suc 0) ?sg"
    using staging_new_inv [of ?cfg RingBackend "Suc 0"] by auto
  have w0: "admission_word ?sg = 0" by (simp add: staging_new_def)
  define g where "g = (arm_dispatcher_wait ?sg)\<lparr>admission_word := 1\<rparr>"
  have q: "part_q p g = part_q p ?sg" "claim_count c g = claim_count c ?sg" for p c
    by (cases p; simp add: g_def arm_dispatcher_wait_def) (cases c; simp add: g_def arm_dispatcher_wait_def)
  have g: "staging_inv ?cfg g" "staging_fresh (Suc 0) g" "\<And>p. parts g p = []"
    using s by (simp_all add: staging_inv_def staging_fresh_def parts_def q)
  have r: "\<not> sq_has_ready (part_q p (arm_dispatcher_wait ?sg))" for p
    using has_ready_parts [OF s(1), of p] s(2) by (cases p) (simp_all add: arm_dispatcher_wait_def)
  define y where "y d pc sg' = \<lparr>in_staging = sg', in_pc = (\<lambda>t. ProdIdle)(0 := pc), in_disp = d, in_stop = StopIdle, in_wake = False\<rparr>" for d pc sg'
  have "ingress_start ?sg = y DispActive ProdIdle ?sg" by (auto simp: ingress_start_def y_def)
  moreover have "ingress_step ?cfg (y DispActive ProdIdle ?sg) (y (DispScan [PHigh, PNormal, PLow]) ProdIdle (arm_dispatcher_wait ?sg))"
    using i_dispatcher [OF d_arm [of "y DispActive ProdIdle ?sg" ?cfg]] by (simp add: y_def)
  moreover have n: "ingress_step ?cfg (y (DispScan (p # ps)) ProdIdle (arm_dispatcher_wait ?sg)) (y (DispScan ps) ProdIdle (arm_dispatcher_wait ?sg))" for p ps
    using i_dispatcher [OF d_next [of "y (DispScan (p # ps)) ProdIdle (arm_dispatcher_wait ?sg)" p ps ?cfg]] r by (simp add: y_def)
  moreover have "ingress_step ?cfg (y (DispScan []) ProdIdle (arm_dispatcher_wait ?sg)) (y DispWaiting ProdIdle (arm_dispatcher_wait ?sg))"
    using i_dispatcher [OF d_sleep [of "y (DispScan []) ProdIdle (arm_dispatcher_wait ?sg)" ?cfg]] by (simp add: y_def)
  moreover have "ingress_step ?cfg (y DispWaiting ProdIdle (arm_dispatcher_wait ?sg)) (y DispWaiting (ProdLoaded 0) (arm_dispatcher_wait ?sg))"
    using i_producer [OF p_load [of "y DispWaiting ProdIdle (arm_dispatcher_wait ?sg)" 0 ?cfg]] w0 by (simp add: y_def prod_goto_def arm_dispatcher_wait_def)
  moreover have "ingress_step ?cfg (y DispWaiting (ProdLoaded 0) (arm_dispatcher_wait ?sg)) (y DispWaiting ProdAdmitted g)"
    using i_producer [OF p_exchange [of "y DispWaiting (ProdLoaded 0) (arm_dispatcher_wait ?sg)" 0 0 1 ?cfg]] w0
    by (simp add: y_def prod_goto_def submission_decide_def kAdmissionCountMask_def kAdmissionClosed_def g_def arm_dispatcher_wait_def)
  ultimately have reach: "(ingress_step ?cfg)\<^sup>*\<^sup>* (ingress_start ?sg) (y DispWaiting ProdAdmitted g)"
    by (metis (no_types, lifting) converse_rtranclp_into_rtranclp rtranclp.rtrancl_refl)
  have "can_enqueue ?cfg Low False Ordinary g"
    using g(3) by (simp add: can_enqueue_def admission_valid_def classify_claim_def DefaultConfig_def)
  then obtain g1 where g1: "enqueue ?cfg 1 40 Low 0 False Ordinary g = Some (True, g1)"
      "enqueued ?cfg 0 PLow [new_slot ?cfg 1 40 Low 0 False Ordinary] g g1"
    using enqueue_correct [OF g(1,2), of 1 40 Low 0 False Ordinary] by auto
  then have "staging_inv ?cfg g1" "parts g1 PLow \<noteq> []" by (simp_all add: enqueued_def)
  then have "any_ready g1" using has_ready_parts [of ?cfg g1 PLow] by (simp add: any_ready_def)
  moreover have "ingress_step ?cfg (y DispWaiting ProdAdmitted g) (y DispWaiting ProdPublished g1)"
    using i_producer [OF p_publish [of "y DispWaiting ProdAdmitted g" 0 ?cfg]] g1(1) by (simp add: y_def prod_goto_def)
  ultimately show ?thesis using reach
    by (intro exI [of _ "y DispWaiting ProdAdmitted g"] exI [of _ "y DispWaiting ProdPublished g1"]) (simp add: y_def)
qed

theorem no_lost_wakeup_witness:
  "\<exists>y. (ingress_step DefaultConfig)\<^sup>*\<^sup>* (ingress_start (staging_new RingBackend DefaultConfig)) y \<and> in_disp y = DispWaiting
     \<and> any_ready (in_staging y) \<and> ((\<exists>t. in_pc y t = ProdOwesSignal) \<or> fst (request_dispatcher_wake (in_staging y)))"
proof -
  obtain y z where y: "(ingress_step DefaultConfig)\<^sup>*\<^sup>* (ingress_start (staging_new RingBackend DefaultConfig)) y"
      "ingress_step DefaultConfig y z" "in_disp z = DispWaiting" "any_ready (in_staging z)" "\<not> in_wake z" using demo_ingress by blast
  have r: "(ingress_step DefaultConfig)\<^sup>*\<^sup>* (ingress_start (staging_new RingBackend DefaultConfig)) z"
    by (rule rtranclp.rtrancl_into_rtrancl [OF y(1,2)])
  have "admission_word (staging_new RingBackend DefaultConfig) = 0" by (simp add: staging_new_def)
  from no_lost_wakeup [OF r this y(3,4)] show ?thesis using r y(3-5) by blast
qed

text \<open>
  C9. The submission lease is exact. Under every interleaving: the word reads idle exactly when no
  producer is between its admission and its release; a release reports that it was the last
  one exactly when admission is closed and no other producer holds a lease; and once
  admission is closed no step admits a further producer.
\<close>
theorem submission_lease_exact:
  assumes "(ingress_step cfg)\<^sup>*\<^sup>* (ingress_start sg) y" and "admission_word sg = 0"
  shows "(submissions_idle (in_staging y) \<longleftrightarrow> (\<forall>t. \<not> holds (in_pc y t)))
    \<and> (\<forall>t. in_pc y t = ProdDone \<longrightarrow>
         (fst (release_submission (in_staging y)) \<longleftrightarrow> in_stop y \<noteq> StopIdle \<and> (\<forall>u. holds (in_pc y u) \<longrightarrow> u = t)))
    \<and> (\<forall>z t. in_stop y \<noteq> StopIdle \<and> ingress_step cfg y z \<and> holds (in_pc z t) \<longrightarrow> holds (in_pc y t))"
proof (intro conjI allI impI)
  have inv: "lease_inv y" by (rule ingress_reachable(1) [OF assms])
  note D = lease_invD [OF inv]
  have "submissions_idle (in_staging y) \<longleftrightarrow> submissions (word y) = 0"
    by (simp add: submissions_idle_def submissions_def word_def unat_eq_0)
  also have "\<dots> \<longleftrightarrow> holders y = {}" using D by simp
  finally show "submissions_idle (in_staging y) \<longleftrightarrow> (\<forall>t. \<not> holds (in_pc y t))" by (auto simp: holders_def)
  show "holds (in_pc y t)" if "in_stop y \<noteq> StopIdle \<and> ingress_step cfg y z \<and> holds (in_pc z t)" for z t
    using admitted_open [OF _ inv] that by blast
  fix t assume "in_pc y t = ProdDone"
  then have t: "t \<in> holders y" by (simp add: holders_def)
  then have "0 < submissions (word y)" using D by (auto simp: card_gt_0_iff)
  from release_word(3) [OF this] have "fst (release_submission (in_staging y)) \<longleftrightarrow> in_stop y \<noteq> StopIdle \<and> card (holders y) = 1"
    using D by (simp add: release_submission_def word_def)
  moreover have "card (holders y) = 1 \<longleftrightarrow> holders y = {t}" using t by (auto simp: card_1_singleton_iff)
  moreover have "holders y = {t} \<longleftrightarrow> (\<forall>u. holds (in_pc y u) \<longrightarrow> u = t)" using t by (auto simp: holders_def)
  ultimately show "fst (release_submission (in_staging y)) \<longleftrightarrow> in_stop y \<noteq> StopIdle \<and> (\<forall>u. holds (in_pc y u) \<longrightarrow> u = t)" by simp
qed

theorem submission_lease_exact_witness:
  "\<exists>y. (ingress_step DefaultConfig)\<^sup>*\<^sup>* (ingress_start (staging_new RingBackend DefaultConfig)) y \<and> in_pc y 0 = ProdAdmitted
     \<and> \<not> submissions_idle (in_staging y)"
proof -
  obtain y where y: "(ingress_step DefaultConfig)\<^sup>*\<^sup>* (ingress_start (staging_new RingBackend DefaultConfig)) y" "in_pc y 0 = ProdAdmitted"
    using demo_ingress by blast
  have "admission_word (staging_new RingBackend DefaultConfig) = 0" by (simp add: staging_new_def)
  from submission_lease_exact [OF y(1) this] have "\<not> submissions_idle (in_staging y)" using y(2) by (metis holds.simps(4))
  then show ?thesis using y by blast
qed

end
