(* ===== verification/Timer.thy ===== *)
theory Timer
  imports Coordinator
begin

text \<open>
  The timer scheduler of timer.hpp: a fixed table of periodic and one-shot tasks, scanned under
  a mutex, whose expirations are submitted to the coordinator as events from a pool.

  \<^item> An operation under the mutex is one step. \<^verbatim>\<open>now\<close> is the reading of the tick source; the
    manual tick source is modelled, the steady one is the system clock.
  \<^item> \<^verbatim>\<open>Expected\<close> results are values of a sum type with the error on the left.
  \<^item> The catch-up loop is a partial function, since a 64-bit deadline can wrap.
  \<^item> Creating and joining the thread is the operating system's; whether the creation succeeds
    is an argument.
\<close>

section \<open>Tick source\<close>

record ManualTickSource =
  ticks :: u64
  tick_period_ns :: u64

definition manual_new :: "u64 \<Rightarrow> ManualTickSource" where
  "manual_new period = \<lparr>ticks = 0, tick_period_ns = period\<rparr>"

definition manual_now_ns :: "ManualTickSource \<Rightarrow> u64" where
  "manual_now_ns m = ticks m * tick_period_ns m"

definition manual_tick :: "ManualTickSource \<Rightarrow> ManualTickSource" where
  "manual_tick m = m\<lparr>ticks := ticks m + 1\<rparr>"

definition manual_advance :: "u32 \<Rightarrow> ManualTickSource \<Rightarrow> ManualTickSource" where
  "manual_advance n m = m\<lparr>ticks := ticks m + ucast n\<rparr>"

definition manual_reset :: "ManualTickSource \<Rightarrow> ManualTickSource" where
  "manual_reset m = m\<lparr>ticks := 0\<rparr>"

section \<open>State\<close>

datatype TimerError = kInvalidPeriod | kSlotsFull | kNotFound | kAlreadyRunning | kThreadStartFailed

record TaskSlot =
  ts_target :: TargetId
  ts_signal :: u16
  ts_qos :: EventQos
  period_ns :: u64
  next_fire_ns :: u64
  ts_id :: u32
  ts_active :: bool
  one_shot :: bool

record PendingFire =
  pf_target :: TargetId
  pf_signal :: u16
  pf_qos :: EventQos

record TimerScheduler =
  tm_slots :: "TaskSlot list"
  next_id :: u32
  tm_running :: bool
  thread_valid :: bool
  fired_count :: u32
  skipped_count :: u32

definition kInvalidTimerTaskId :: u32 where "kInvalidTimerTaskId = 0"

definition kNsPerMs :: u64 where "kNsPerMs = 1000000"
definition kIdleSleepNs :: u64 where "kIdleSleepNs = 10000000"
definition kMinSleepNs :: u64 where "kMinSleepNs = 1000000"
definition kMaxSleepNs :: u64 where "kMaxSleepNs = 10000000"

definition empty_task :: TaskSlot where
  "empty_task = \<lparr>ts_target = kInvalidTarget, ts_signal = 0, ts_qos = \<lparr>critical = False, mergeable = False\<rparr>, period_ns = 0,
     next_fire_ns = 0, ts_id = 0, ts_active = False, one_shot = False\<rparr>"

definition timer_new :: "nat \<Rightarrow> TimerScheduler" where
  "timer_new max_tasks = \<lparr>tm_slots = replicate max_tasks empty_task, next_id = 1, tm_running = False, thread_valid = False,
     fired_count = 0, skipped_count = 0\<rparr>"

section \<open>Task management\<close>

fun first_free :: "nat \<Rightarrow> TaskSlot list \<Rightarrow> nat option" where
  "first_free i [] = None"
| "first_free i (x # xs) = (if \<not> ts_active x then Some i else first_free (i + 1) xs)"

definition schedule ::
    "u64 \<Rightarrow> TargetId \<Rightarrow> u16 \<Rightarrow> u32 \<Rightarrow> EventQos \<Rightarrow> bool \<Rightarrow> TimerScheduler \<Rightarrow> (TimerError + u32) \<times> TimerScheduler" where
  "schedule now target sig interval_ms qos once tm =
     (if interval_ms = 0 then (Inl kInvalidPeriod, tm)
      else case first_free 0 (tm_slots tm) of
          None \<Rightarrow> (Inl kSlotsFull, tm)
        | Some i \<Rightarrow>
            let interval_ns = ucast interval_ms * kNsPerMs;
                slot = \<lparr>ts_target = target, ts_signal = sig, ts_qos = qos, period_ns = interval_ns,
                        next_fire_ns = now + interval_ns, ts_id = next_id tm, ts_active = True, one_shot = once\<rparr>
            in (Inr (next_id tm), tm\<lparr>tm_slots := (tm_slots tm)[i := slot], next_id := next_id tm + 1\<rparr>))"

definition schedule_periodic ::
    "u64 \<Rightarrow> TargetId \<Rightarrow> u16 \<Rightarrow> u32 \<Rightarrow> EventQos \<Rightarrow> TimerScheduler \<Rightarrow> (TimerError + u32) \<times> TimerScheduler" where
  "schedule_periodic now target sig ms qos tm = schedule now target sig ms qos False tm"

definition schedule_once ::
    "u64 \<Rightarrow> TargetId \<Rightarrow> u16 \<Rightarrow> u32 \<Rightarrow> EventQos \<Rightarrow> TimerScheduler \<Rightarrow> (TimerError + u32) \<times> TimerScheduler" where
  "schedule_once now target sig ms qos tm = schedule now target sig ms qos True tm"

fun cancel_scan :: "u32 \<Rightarrow> TaskSlot list \<Rightarrow> TaskSlot list option" where
  "cancel_scan i [] = None"
| "cancel_scan i (x # xs) =
     (if ts_active x \<and> ts_id x = i then Some (x\<lparr>ts_active := False\<rparr> # xs) else map_option (Cons x) (cancel_scan i xs))"

definition cancel :: "u32 \<Rightarrow> TimerScheduler \<Rightarrow> (TimerError + unit) \<times> TimerScheduler" where
  "cancel i tm = (case cancel_scan i (tm_slots tm) of None \<Rightarrow> (Inl kNotFound, tm) | Some xs \<Rightarrow> (Inr (), tm\<lparr>tm_slots := xs\<rparr>))"

definition timer_start :: "bool \<Rightarrow> TimerScheduler \<Rightarrow> (TimerError + unit) \<times> TimerScheduler" where
  "timer_start created tm =
     (if tm_running tm then (Inl kAlreadyRunning, tm)
      else if \<not> created then (Inl kThreadStartFailed, tm\<lparr>tm_running := False\<rparr>)
      else (Inr (), tm\<lparr>tm_running := True, thread_valid := True\<rparr>))"

definition timer_stop :: "TimerScheduler \<Rightarrow> TimerScheduler" where
  "timer_stop tm = (if thread_valid tm then tm\<lparr>tm_running := False, thread_valid := False\<rparr> else tm\<lparr>tm_running := False\<rparr>)"

definition task_count :: "TimerScheduler \<Rightarrow> u32" where
  "task_count tm = of_nat (length (filter ts_active (tm_slots tm)))"

fun next_scan :: "u64 \<Rightarrow> u64 \<Rightarrow> TaskSlot list \<Rightarrow> u64" where
  "next_scan now m [] = m"
| "next_scan now m (x # xs) =
     (if \<not> ts_active x then next_scan now m xs
      else if next_fire_ns x \<le> now then 0
      else let remaining = next_fire_ns x - now in next_scan now (if remaining < m then remaining else m) xs)"

definition ns_to_next_task :: "u64 \<Rightarrow> TimerScheduler \<Rightarrow> u64" where
  "ns_to_next_task now tm = next_scan now (- 1) (tm_slots tm)"

section \<open>Expiration\<close>

partial_function (option) catch_up :: "u64 \<Rightarrow> u64 \<Rightarrow> u64 \<Rightarrow> u64 option" where
  "catch_up period now fire = (if fire \<le> now then catch_up period now (fire + period) else Some fire)"

text \<open>The scan of the slots under the mutex.\<close>
fun collect :: "u64 \<Rightarrow> TaskSlot list \<Rightarrow> (PendingFire list \<times> TaskSlot list) option" where
  "collect now [] = Some ([], [])"
| "collect now (x # xs) =
     (if \<not> ts_active x \<or> now < next_fire_ns x then do { (pend, ys) \<leftarrow> collect now xs; Some (pend, x # ys) }
      else do {
        y \<leftarrow> (if one_shot x then Some (x\<lparr>ts_active := False\<rparr>)
              else do { fire \<leftarrow> catch_up (period_ns x) now (next_fire_ns x + period_ns x); Some (x\<lparr>next_fire_ns := fire\<rparr>) });
        (pend, ys) \<leftarrow> collect now xs;
        Some (\<lparr>pf_target = ts_target x, pf_signal = ts_signal x, pf_qos = ts_qos x\<rparr> # pend, y # ys)
      })"

text \<open>The submissions outside the mutex.\<close>
fun submit_pending ::
    "'p Env \<Rightarrow> nat \<Rightarrow> PendingFire list \<Rightarrow> TimerScheduler \<Rightarrow> ('c, 'p) Sys \<Rightarrow> (TimerScheduler \<times> ('c, 'p) Sys) option" where
  "submit_pending env pool [] tm s = Some (tm, s)"
| "submit_pending env pool (p # ps) tm s =
     (case alloc pool (pf_signal p) (pool_world s) of
        (None, w) \<Rightarrow> submit_pending env pool ps (tm\<lparr>skipped_count := skipped_count tm + 1\<rparr>) (s\<lparr>pool_world := w\<rparr>)
      | (Some e, w) \<Rightarrow> do {
          (_, s1) \<leftarrow> submit_from_task env (pf_target p) e (pf_qos p) Ordinary (s\<lparr>pool_world := w\<rparr>);
          submit_pending env pool ps (tm\<lparr>fired_count := fired_count tm + 1\<rparr>) s1
        })"

definition fire_expired :: "'p Env \<Rightarrow> nat \<Rightarrow> u64 \<Rightarrow> TimerScheduler \<Rightarrow> ('c, 'p) Sys \<Rightarrow> (TimerScheduler \<times> ('c, 'p) Sys) option" where
  "fire_expired env pool now tm s = do {
     (pend, xs) \<leftarrow> collect now (tm_slots tm);
     submit_pending env pool pend (tm\<lparr>tm_slots := xs\<rparr>) s
   }"

definition poll :: "'p Env \<Rightarrow> nat \<Rightarrow> u64 \<Rightarrow> TimerScheduler \<Rightarrow> ('c, 'p) Sys \<Rightarrow> (TimerScheduler \<times> ('c, 'p) Sys) option" where
  "poll env pool now tm s = fire_expired env pool now tm s"

text \<open>
  One pass of the thread's loop: it fires, then reads the clock again for the sleep; the
  result is the time asked of \<^verbatim>\<open>sleep_ns\<close>, or None without a sleep.
\<close>
definition loop_sleep :: "u64 \<Rightarrow> TimerScheduler \<Rightarrow> u64 option" where
  "loop_sleep now tm =
     (let n = ns_to_next_task now tm;
          n1 = (if n = - 1 then kIdleSleepNs else n);
          n2 = (if kMaxSleepNs < n1 then kMaxSleepNs else n1)
      in if n2 \<ge> kMinSleepNs then Some n2 else None)"

definition loop_pass ::
    "'p Env \<Rightarrow> nat \<Rightarrow> u64 \<Rightarrow> u64 \<Rightarrow> TimerScheduler \<Rightarrow> ('c, 'p) Sys \<Rightarrow> (u64 option \<times> TimerScheduler \<times> ('c, 'p) Sys) option" where
  "loop_pass env pool now later tm s = do {
     (tm1, s1) \<leftarrow> fire_expired env pool now tm s;
     Some (loop_sleep later tm1, tm1, s1)
   }"

end
