(* ===== verification/Dispatcher.thy ===== *)
theory Dispatcher
  imports Coordinator
begin

text \<open>
  The dispatcher loop of dispatcher.hpp over the state it shares with the coordinator.

  \<^item> The reclaimer strategy of the board profile is a tagged value.
  \<^item> \<^verbatim>\<open>Disp\<close> adds the local variables of \<^verbatim>\<open>run\<close>: the deferred slot and the number of times
    the stop flag has been read; what each read returns is an argument, since another thread
    sets the flag.
  \<^item> Waiting for the PAL signal has no effect on the state: what arrives meanwhile is a
    submission between two passes. The loops are partial functions in which None is also a
    loop that does not end.
\<close>

section \<open>Reclaimer strategies\<close>

datatype Reclaimer = ImmediateReclaimer | BatchReclaimer ReclaimBatcher

datatype Profile = HostSmpProfile | RttSingleCoreProfile

fun reclaimer_new :: "Profile \<Rightarrow> Config \<Rightarrow> Reclaimer" where
  "reclaimer_new HostSmpProfile cfg = BatchReclaimer (batcher_init (reclaimer_pool_capacity cfg))"
| "reclaimer_new RttSingleCoreProfile cfg = ImmediateReclaimer"

fun reclaim_release :: "nat \<Rightarrow> Reclaimer \<Rightarrow> PoolWorld \<Rightarrow> (Reclaimer \<times> PoolWorld) option" where
  "reclaim_release e ImmediateReclaimer w = map_option (Pair ImmediateReclaimer) (event_gc e w)"
| "reclaim_release e (BatchReclaimer b) w = map_option (map_prod BatchReclaimer id) (batcher_release e b w)"

fun reclaim_flush :: "Reclaimer \<Rightarrow> PoolWorld \<Rightarrow> Reclaimer \<times> PoolWorld" where
  "reclaim_flush ImmediateReclaimer w = (ImmediateReclaimer, w)"
| "reclaim_flush (BatchReclaimer b) w = map_prod BatchReclaimer id (batcher_flush b w)"

definition sys_release :: "nat \<Rightarrow> Reclaimer \<Rightarrow> ('c, 'p) Sys \<Rightarrow> (Reclaimer \<times> ('c, 'p) Sys) option" where
  "sys_release e r s = do { (r1, w) \<leftarrow> reclaim_release e r (pool_world s); Some (r1, s\<lparr>pool_world := w\<rparr>) }"

definition sys_flush :: "Reclaimer \<Rightarrow> ('c, 'p) Sys \<Rightarrow> ('c, 'p) Sys" where
  "sys_flush r s = s\<lparr>pool_world := snd (reclaim_flush r (pool_world s))\<rparr>"

definition sys_staging :: "(Staging \<Rightarrow> Staging) \<Rightarrow> ('c, 'p) Sys \<Rightarrow> ('c, 'p) Sys" where
  "sys_staging f s = s\<lparr>staging := f (staging s)\<rparr>"

section \<open>One slot\<close>

definition try_dispatch_slot ::
    "'p Env \<Rightarrow> StagingSlot \<Rightarrow> Reclaimer \<Rightarrow> ('c, 'p) Sys \<Rightarrow> (bool \<times> Reclaimer \<times> ('c, 'p) Sys) option" where
  "try_dispatch_slot env slot r s =
     (case registry_lookup (ao_registry s) (slot_target slot) of
        None \<Rightarrow> do { (r1, s1) \<leftarrow> sys_release (slot_event slot) r s; Some (True, r1, s1) }
      | Some ao \<Rightarrow> do {
          _ \<leftarrow> target_breaker (breaker_bank s) (slot_target slot);
          let (t0, s1) = monotonic_ns env s;
          (taken, ao1) \<leftarrow> try_dispatch_queued (event_at (pool_world s1) (slot_event slot))
                            (rival_acts env (clock_reads s1) (aos s1 ao));
          let s2 = set_ao ao ao1 s1;
          if \<not> taken then Some (False, r, s2)
          else do {
            let (t1, s3) = monotonic_ns env s2;
            s4 \<leftarrow> sys_breaker (if t1 - t0 > ao_rtc_budget_ns (aos s3 ao) then on_dispatcher_rtc_timeout else on_rtc_ok)
                    (slot_target slot) s3;
            s5 \<leftarrow> release_pending ao s4;
            let s6 = sys_monitor (record_pending (slot_target slot) (pending_ctr (aos s5 ao))) s5;
            s7 \<leftarrow> sys_breaker on_dispatch_cycle (slot_target slot) s6;
            let s8 = sys_monitor (record_disposition Queued) s7;
            (r1, s9) \<leftarrow> sys_release (slot_event slot) r s8;
            Some (True, r1, s9)
          }
        })"

section \<open>The main loop\<close>

record ('c, 'p) Disp =
  d_sys :: "('c, 'p) Sys"
  deferred :: "StagingSlot option"
  stop_reads :: nat

definition read_stop :: "(nat \<Rightarrow> bool) \<Rightarrow> ('c, 'p) Disp \<Rightarrow> bool \<times> ('c, 'p) Disp" where
  "read_stop stop d = (stop (stop_reads d), d\<lparr>stop_reads := Suc (stop_reads d)\<rparr>)"

text \<open>The inner loop of a batch; the result says whether a slot was taken out.\<close>
partial_function (option) batch_loop ::
    "'p Env \<Rightarrow> (nat \<Rightarrow> bool) \<Rightarrow> Reclaimer \<Rightarrow> bool \<Rightarrow> ('c, 'p) Disp \<Rightarrow> (bool \<times> Reclaimer \<times> ('c, 'p) Disp) option" where
  "batch_loop env stop r any d =
     (case read_stop stop d of (stopped, d1) \<Rightarrow>
        if stopped \<or> \<not> batch_used (staging (d_sys d1)) < kBatchSizeMax (env_cfg env) then Some (any, r, d1)
        else
          (case monotonic_ns env (d_sys d1) of (now, s1) \<Rightarrow>
             Option.bind (dequeue_one (env_cfg env) now (staging s1)) (\<lambda>(out, sg).
               let s2 = s1\<lparr>staging := sg\<rparr> in
               case out of
                 None \<Rightarrow> Some (any, r, d1\<lparr>d_sys := s2\<rparr>)
               | Some slot \<Rightarrow>
                   Option.bind (try_dispatch_slot env slot r s2) (\<lambda>(dispatched, r1, s3).
                     if \<not> dispatched then Some (True, r1, d1\<lparr>d_sys := s3, deferred := Some slot\<rparr>)
                     else batch_loop env stop r1 True (d1\<lparr>d_sys := s3\<rparr>)))))"

text \<open>
  One pass of \<^verbatim>\<open>run\<close> after the stop flag read false at the top of the loop; the result says
  whether the loop is left.
\<close>
definition run_deferred ::
    "'p Env \<Rightarrow> Reclaimer \<Rightarrow> ('c, 'p) Disp \<Rightarrow> (bool \<times> Reclaimer \<times> ('c, 'p) Disp) option" where
  "run_deferred env r d =
     (case deferred d of
        None \<Rightarrow> Some (True, r, d)
      | Some slot \<Rightarrow> do {
          (dispatched, r1, s1) \<leftarrow> try_dispatch_slot env slot r (sys_staging arm_dispatcher_wait (d_sys d));
          Some (dispatched, r1, d\<lparr>d_sys := s1, deferred := (if dispatched then None else Some slot)\<rparr>)
        })"

definition finish_pass :: "Profile \<Rightarrow> 'p Env \<Rightarrow> bool \<Rightarrow> ('c, 'p) Disp \<Rightarrow> ('c, 'p) Disp option" where
  "finish_pass prof env any d =
     (case deferred d of
        Some slot \<Rightarrow> do {
          (dispatched, r, d1) \<leftarrow> run_deferred env (reclaimer_new prof (env_cfg env)) d;
          Some (d1\<lparr>d_sys := sys_flush r (d_sys d1)\<rparr>)
        }
      | None \<Rightarrow>
          if any then Some d
          else Some (d\<lparr>d_sys := sys_staging arm_dispatcher_wait
                        ((d_sys d)\<lparr>breaker_bank := broadcast_dispatch_cycle (breaker_bank (d_sys d))\<rparr>)\<rparr>))"

definition run_pass :: "Profile \<Rightarrow> 'p Env \<Rightarrow> (nat \<Rightarrow> bool) \<Rightarrow> ('c, 'p) Disp \<Rightarrow> (bool \<times> ('c, 'p) Disp) option" where
  "run_pass prof env stop d = do {
     let d0 = d\<lparr>d_sys := sys_staging begin_batch (d_sys d)\<rparr>;
     (ready, r, d1) \<leftarrow> run_deferred env (reclaimer_new prof (env_cfg env)) d0;
     if \<not> ready then Some (False, d1\<lparr>d_sys := sys_flush r (d_sys d1)\<rparr>)
     else do {
       (any, r1, d2) \<leftarrow> batch_loop env stop r (deferred d \<noteq> None) d1;
       let (stopped, d3) = read_stop stop (d2\<lparr>d_sys := sys_flush r1 (d_sys d2)\<rparr>);
       if stopped then Some (True, d3)
       else do { d4 \<leftarrow> finish_pass prof env any d3; Some (False, d4) }
     }
   }"

section \<open>Shutdown\<close>

text \<open>The inner loop of the drain.\<close>
partial_function (option) drain_batch ::
    "'p Env \<Rightarrow> u64 \<Rightarrow> Reclaimer \<Rightarrow> bool \<Rightarrow> ('c, 'p) Sys \<Rightarrow> (bool \<times> Reclaimer \<times> ('c, 'p) Sys) option" where
  "drain_batch env now r released s =
     (if \<not> batch_used (staging s) < kBatchSizeMax (env_cfg env) then Some (released, r, s)
      else Option.bind (dequeue_one (env_cfg env) now (staging s)) (\<lambda>(out, sg).
        let s1 = s\<lparr>staging := sg\<rparr> in
        case out of
          None \<Rightarrow> Some (released, r, s1)
        | Some slot \<Rightarrow>
            Option.bind
              (case registry_lookup (ao_registry s1) (slot_target slot) of
                 None \<Rightarrow> Some s1
               | Some ao \<Rightarrow> Option.bind (release_pending ao s1) (\<lambda>s2.
                   Some (sys_monitor (record_pending (slot_target slot) (pending_ctr (aos s2 ao))) s2)))
              (\<lambda>s3. Option.bind (sys_release (slot_event slot) r s3) (\<lambda>(r1, s4). drain_batch env now r1 True s4))))"

partial_function (option) drain_loop :: "Profile \<Rightarrow> 'p Env \<Rightarrow> u64 \<Rightarrow> ('c, 'p) Sys \<Rightarrow> ('c, 'p) Sys option" where
  "drain_loop prof env now s =
     (if \<not> (any_buffered (staging s) \<or> \<not> submissions_idle (staging s)) then Some s
      else Option.bind (drain_batch env now (reclaimer_new prof (env_cfg env)) False (sys_staging begin_batch s))
        (\<lambda>(released, r, s1). drain_loop prof env now (sys_flush r s1)))"

definition drain_queued_on_stop :: "Profile \<Rightarrow> 'p Env \<Rightarrow> ('c, 'p) Sys \<Rightarrow> ('c, 'p) Sys option" where
  "drain_queued_on_stop prof env s = (case monotonic_ns env s of (now, s1) \<Rightarrow> drain_loop prof env now s1)"

text \<open>After the loop: a deferred slot is released without dispatch, then the queues are drained.\<close>
definition run_exit :: "Profile \<Rightarrow> 'p Env \<Rightarrow> ('c, 'p) Disp \<Rightarrow> ('c, 'p) Sys option" where
  "run_exit prof env d = do {
     s1 \<leftarrow> (case deferred d of
              None \<Rightarrow> Some (d_sys d)
            | Some slot \<Rightarrow> do {
                s1 \<leftarrow> (case registry_lookup (ao_registry (d_sys d)) (slot_target slot) of
                         None \<Rightarrow> Some (d_sys d)
                       | Some ao \<Rightarrow> release_pending ao (d_sys d));
                (r, s2) \<leftarrow> sys_release (slot_event slot) (reclaimer_new prof (env_cfg env)) s1;
                Some (sys_flush r s2)
              });
     drain_queued_on_stop prof env s1
   }"

partial_function (option) run_loop :: "Profile \<Rightarrow> 'p Env \<Rightarrow> (nat \<Rightarrow> bool) \<Rightarrow> ('c, 'p) Disp \<Rightarrow> ('c, 'p) Sys option" where
  "run_loop prof env stop d =
     (case read_stop stop d of (stopped, d1) \<Rightarrow>
        if stopped then run_exit prof env d1
        else Option.bind (run_pass prof env stop d1) (\<lambda>(left, d2).
          if left then run_exit prof env d2 else run_loop prof env stop d2))"

definition dispatcher_run :: "Profile \<Rightarrow> 'p Env \<Rightarrow> (nat \<Rightarrow> bool) \<Rightarrow> ('c, 'p) Sys \<Rightarrow> ('c, 'p) Sys option" where
  "dispatcher_run prof env stop s = run_loop prof env stop \<lparr>d_sys = s, deferred = None, stop_reads = 0\<rparr>"

definition request_stop :: "('c, 'p) Sys \<Rightarrow> ('c, 'p) Sys" where
  "request_stop s = pal_signal False (s\<lparr>staging := close_admission (staging s)\<rparr>)"

end
