(* ===== verification/Runtime.thy ===== *)
theory Runtime
  imports Dispatcher
begin

text \<open>
  The runtime of runtime.hpp: it owns the registry, the monitor, the breakers, the staging
  area, the coordinator and the dispatcher, and takes them through bind, initialize, start and
  stop. Static AO entries (static_ao.hpp) are the function-pointer form of an AO.

  \<^item> The status type of \<^verbatim>\<open>PalT::start_dispatcher\<close> selects one of three cases; what it returns is
    an argument. The stack size given to the PAL has no effect on the state.
  \<^item> \<^verbatim>\<open>stop\<close> joins the dispatcher thread: the thread finishes its loop with the stop flag set.
\<close>

section \<open>State\<close>

record ('c, 'p) Runtime =
  rt_disp :: "('c, 'p) Disp"
  rt_initialized :: bool
  rt_started :: bool

definition runtime_new ::
    "QueueBackend \<Rightarrow> Config \<Rightarrow> u8 \<Rightarrow> StaticAdmission option \<Rightarrow> 'p \<Rightarrow> PoolWorld \<Rightarrow> (nat \<Rightarrow> 'c Ao) \<Rightarrow> ('c, 'p) Runtime" where
  "runtime_new b cfg snapshots adm ctx w objects =
     \<lparr>rt_disp = \<lparr>d_sys = \<lparr>pool_world = w, aos = objects, ao_registry = registry_new cfg, staging = staging_new b cfg,
        monitor = monitor_new cfg snapshots, breaker_bank = bank_new cfg, admission = adm, policy_ctx = ctx,
        clock_reads = 0, direct_depth = 0, signals = []\<rparr>, deferred = None, stop_reads = 0\<rparr>,
      rt_initialized = False, rt_started = False\<rparr>"

definition rt_sys :: "('c, 'p) Runtime \<Rightarrow> ('c, 'p) Sys" where
  "rt_sys rt = d_sys (rt_disp rt)"

definition set_rt_sys :: "('c, 'p) Sys \<Rightarrow> ('c, 'p) Runtime \<Rightarrow> ('c, 'p) Runtime" where
  "set_rt_sys s rt = rt\<lparr>rt_disp := (rt_disp rt)\<lparr>d_sys := s\<rparr>\<rparr>"

section \<open>Phases\<close>

definition runtime_bind :: "nat option \<Rightarrow> ('c, 'p) Runtime \<Rightarrow> bool \<times> ('c, 'p) Runtime" where
  "runtime_bind ao rt =
     (if rt_initialized rt then (False, rt)
      else case ao of
          None \<Rightarrow> (False, rt)
        | Some a \<Rightarrow>
            let s = rt_sys rt;
                (ok, reg) = registry_bind (aos s) ao (ao_logical_prio (aos s a)) (ao_registry s)
            in (ok, set_rt_sys (s\<lparr>ao_registry := reg\<rparr>) rt))"

definition runtime_bind_at :: "TargetId \<Rightarrow> nat \<Rightarrow> ('c, 'p) Runtime \<Rightarrow> bool \<times> ('c, 'p) Runtime" where
  "runtime_bind_at target a rt =
     (if rt_initialized rt then (False, rt)
      else let s = rt_sys rt;
               (ok, reg) = registry_bind_at (aos s) target a (ao_logical_prio (aos s a)) (ao_registry s)
           in (ok, set_rt_sys (s\<lparr>ao_registry := reg\<rparr>) rt))"

text \<open>The loop of \<^verbatim>\<open>initialize\<close> over the target numbers.\<close>
fun init_targets :: "nat list \<Rightarrow> ('c, 'p) Sys \<Rightarrow> ('c, 'p) Sys option" where
  "init_targets [] s = Some s"
| "init_targets (i # is) s =
     (case registry_lookup (ao_registry s) (of_nat i) of
        None \<Rightarrow> init_targets is s
      | Some a \<Rightarrow> do { ao \<leftarrow> ao_init_default (aos s a); init_targets is (set_ao a ao s) })"

definition runtime_initialize :: "Config \<Rightarrow> ('c, 'p) Runtime \<Rightarrow> (bool \<times> ('c, 'p) Runtime) option" where
  "runtime_initialize cfg rt =
     (if rt_initialized rt then Some (True, rt)
      else do {
        s \<leftarrow> init_targets [1..<Suc (unat (kMaxAo cfg))] (rt_sys rt);
        Some (True, (set_rt_sys s rt)\<lparr>rt_initialized := True\<rparr>)
      })"

datatype PalStart = StartVoid | StartBool bool | StartStatus u8

fun pal_start_dispatcher :: "PalStart \<Rightarrow> bool" where
  "pal_start_dispatcher StartVoid = True"
| "pal_start_dispatcher (StartBool ok) = ok"
| "pal_start_dispatcher (StartStatus status) = (status = 0)"

definition runtime_start :: "PalStart \<Rightarrow> ('c, 'p) Runtime \<Rightarrow> (bool \<times> ('c, 'p) Runtime) option" where
  "runtime_start pal rt = do {
     coact_assert (rt_initialized rt);
     Some (if rt_started rt then (False, rt)
           else if \<not> pal_start_dispatcher pal then (False, rt)
           else (True, rt\<lparr>rt_started := True\<rparr>))
   }"

definition runtime_stop :: "Profile \<Rightarrow> 'p Env \<Rightarrow> ('c, 'p) Runtime \<Rightarrow> ('c, 'p) Runtime option" where
  "runtime_stop prof env rt =
     (if rt_started rt then do {
        let d = (rt_disp rt)\<lparr>d_sys := request_stop (rt_sys rt)\<rparr>;
        s \<leftarrow> run_loop prof env (\<lambda>_. True) d;
        Some (rt\<lparr>rt_disp := d\<lparr>d_sys := s, deferred := None\<rparr>, rt_started := False\<rparr>)
      } else Some rt)"

definition partition_watermark :: "Config \<Rightarrow> PriorityClass \<Rightarrow> ('c, 'p) Runtime \<Rightarrow> u8" where
  "partition_watermark cfg cls rt = watermark cfg (partition_from_class cls) (staging (rt_sys rt))"

section \<open>Static AO entries\<close>

text \<open>The erased object is its index; a null object or function is None.\<close>
record 'c StaticAoEntry =
  entry_object :: "nat option"
  entry_dispatch :: "(Event \<Rightarrow> 'c Ao \<Rightarrow> 'c Ao option) option"
  entry_logical_prio :: LogicalPrio
  entry_priority_class :: PriorityClass
  entry_direct_eligible :: bool
  entry_isr_direct_safe :: bool

definition entry_valid :: "'c StaticAoEntry \<Rightarrow> bool" where
  "entry_valid en = (entry_object en \<noteq> None \<and> entry_dispatch en \<noteq> None \<and> entry_logical_prio en \<noteq> kInvalidPrio)"

definition dispatch_event :: "'c StaticAoEntry \<Rightarrow> Event \<Rightarrow> (nat \<Rightarrow> 'c Ao) \<Rightarrow> (nat \<Rightarrow> 'c Ao) option" where
  "dispatch_event en evt objects =
     (if entry_valid en then
        (case (entry_object en, entry_dispatch en) of
           (Some a, Some f) \<Rightarrow> do { ao \<leftarrow> f evt (objects a); Some (objects(a := ao)) }
         | _ \<Rightarrow> Some objects)
      else Some objects)"

definition make_static_ao_entry :: "Traits \<Rightarrow> nat \<Rightarrow> 'c StaticAoEntry" where
  "make_static_ao_entry tr a = \<lparr>entry_object = Some a, entry_dispatch = Some ao_dispatch,
     entry_logical_prio = tr_logical_prio tr, entry_priority_class = tr_priority_class tr,
     entry_direct_eligible = tr_direct_eligible tr, entry_isr_direct_safe = tr_isr_direct_safe tr\<rparr>"

end
