(* ===== verification/Submit_Properties.thy ===== *)
theory Submit_Properties
  imports Coordinator Pool_Properties Ao_Properties Staging_Properties
begin

text \<open>
  Correctness of the submit pipeline. Whatever stage ends it, a submit consumes the reference it
  was given exactly once, or transfers it to a new slot of staging together with one pending
  count of the target; it never aborts, and it leaves the rest of the state alone.
\<close>

section \<open>What a stage leaves alone\<close>

text \<open>The staging area up to its wake latch and submission word.\<close>
definition q_view :: "Staging \<Rightarrow> Staging" where
  "q_view sg = sg\<lparr>wake_pending := True, admission_word := 0\<rparr>"

lemma q_view_part: "part_q p (q_view sg) = part_q p sg" "claim_count c (q_view sg) = claim_count c sg"
  by (cases p; simp add: q_view_def) (cases c; simp add: q_view_def)

lemma q_view_parts [simp]: "parts (q_view sg) = parts sg"
  by (simp add: parts_def q_view_part fun_eq_iff)

lemma q_view_inv: "staging_inv cfg (q_view sg) = staging_inv cfg sg" "staging_fresh n (q_view sg) = staging_fresh n sg"
  by (simp_all add: staging_inv_def staging_fresh_def q_view_part)

lemma q_view_eq:
  assumes "q_view sg' = q_view sg"
  shows "parts sg' = parts sg" "staging_inv cfg sg' = staging_inv cfg sg" "staging_fresh n sg' = staging_fresh n sg"
    "batch_used sg' = batch_used sg"
proof -
  show "parts sg' = parts sg" "staging_inv cfg sg' = staging_inv cfg sg" "staging_fresh n sg' = staging_fresh n sg"
    using assms q_view_parts [of sg] q_view_parts [of sg'] q_view_inv(1) [of cfg sg] q_view_inv(1) [of cfg sg']
      q_view_inv(2) [of n sg] q_view_inv(2) [of n sg'] by simp_all
  have "batch_used sg = batch_used (q_view sg)" for sg by (simp add: q_view_def)
  then show "batch_used sg' = batch_used sg" using assms by metis
qed

text \<open>What the stages keep except where they say so.\<close>
record View =
  v_registry :: AoRegistry
  v_pending :: "nat \<Rightarrow> u16"
  v_class :: "nat \<Rightarrow> PriorityClass"
  v_breakers :: nat
  v_queues :: Staging
  v_word :: u32

definition view :: "('c, 'p) Sys \<Rightarrow> View" where
  "view s = \<lparr>v_registry = ao_registry s, v_pending = (\<lambda>a. pending_ctr (aos s a)),
     v_class = (\<lambda>a. ao_priority_class (aos s a)), v_breakers = length (breakers (breaker_bank s)),
     v_queues = q_view (staging s), v_word = admission_word (staging s)\<rparr>"

definition ok_aos :: "('c, 'p) Sys \<Rightarrow> bool" where
  "ok_aos s \<longleftrightarrow> (\<forall>a. Some a \<in> set (ao_registry s) \<longrightarrow> ao_ok (aos s a))"

lemma ok_aos_cong: "\<lbrakk>aos s' = aos s; ao_registry s' = ao_registry s\<rbrakk> \<Longrightarrow> ok_aos s' = ok_aos s"
  by (simp add: ok_aos_def)

lemma lookup_bound: "registry_lookup reg target = Some a \<Longrightarrow> Some a \<in> set reg"
  by (auto simp: registry_lookup_def in_set_conv_nth kInvalidTarget_def split: if_splits
      intro!: exI [of _ "unat target - 1"]) (metis Suc_pred less_Suc_eq_le linorder_not_le unat_gt_0)

text \<open>Steps that change none of it, nor the pools.\<close>
definition quiet_step :: "('c, 'p) Sys \<Rightarrow> ('c, 'p) Sys \<Rightarrow> bool" where
  "quiet_step s s' \<longleftrightarrow> view s' = view s \<and> pool_world s' = pool_world s \<and> aos s' = aos s"

lemma quiet_ok_aos: "quiet_step s s' \<Longrightarrow> ok_aos s' = ok_aos s"
  by (rule ok_aos_cong) (simp_all add: quiet_step_def view_def)

lemma quiet_refl [simp]: "quiet_step s s" by (simp add: quiet_step_def)

lemma quiet_trans: "quiet_step s t \<Longrightarrow> quiet_step t u \<Longrightarrow> quiet_step s u" by (simp add: quiet_step_def)

lemma quiet_simps [simp]:
  "quiet_step s (s\<lparr>clock_reads := n\<rparr>)" "quiet_step s (s\<lparr>policy_ctx := c\<rparr>)" "quiet_step s (s\<lparr>admission := a\<rparr>)"
  "quiet_step s (s\<lparr>signals := g\<rparr>)" "quiet_step s (s\<lparr>direct_depth := d\<rparr>)" "quiet_step s (sys_monitor f s)"
  "quiet_step s (pal_signal from_isr s)" "quiet_step s (enter_direct s)" "quiet_step s (leave_direct s)"
  "quiet_step s (arrival_destroy r s)"
  by (simp_all add: quiet_step_def view_def sys_monitor_def pal_signal_def enter_direct_def leave_direct_def arrival_destroy_def
      split: option.split prod.split)

lemma quiet_monotonic: "monotonic_ns env s = (t, s') \<Longrightarrow> quiet_step s s'"
  by (auto simp: monotonic_ns_def)

lemma quiet_sample: "sample_now env now s = (now', s') \<Longrightarrow> quiet_step s s' \<and> now' \<noteq> None"
  by (auto simp: sample_now_def split: option.splits prod.splits dest: quiet_monotonic)

lemma quiet_commit: "arrival_commit r s = (r', s') \<Longrightarrow> quiet_step s s'"
  by (auto simp: arrival_commit_def split: option.splits prod.splits)

lemma quiet_wake: "quiet_step s (wake_dispatcher from_isr s)"
  by (auto simp: wake_dispatcher_def request_dispatcher_wake_def quiet_step_def view_def pal_signal_def q_view_def)

lemma quiet_breaker: "\<exists>s'. sys_breaker f target s = Some s' \<and> quiet_step s s'"
  by (auto simp: sys_breaker_def bank_apply_def bank_index_def quiet_step_def view_def)

lemma quiet_sample_staging: "sample_for_staging env target cls now s = (now', s') \<Longrightarrow> quiet_step s s'"
  by (auto simp: sample_for_staging_def split: prod.splits option.splits if_splits
      dest: quiet_sample intro: quiet_trans)

lemmas quiet_intros = quiet_refl quiet_simps quiet_monotonic quiet_wake quiet_commit

lemma sys_gc_ok:
  assumes "event_gc e (pool_world s) = Some w"
  shows "sys_gc e s = Some (s\<lparr>pool_world := w\<rparr>)" "view (s\<lparr>pool_world := w\<rparr>) = view s"
  using assms by (simp_all add: sys_gc_def view_def)

section \<open>The stages\<close>

text \<open>
  What a stage does with the event: nothing when control falls through, or it returns with a
  disposition other than Queued and has released one reference.
\<close>
definition stage_ok :: "nat \<Rightarrow> ('c, 'p) Sys \<Rightarrow> SubmitResult option \<Rightarrow> ('c, 'p) Sys \<Rightarrow> bool" where
  "stage_ok e s r s' \<longleftrightarrow> view s' = view s \<and> (ok_aos s \<longrightarrow> ok_aos s')
     \<and> (case r of
          None \<Rightarrow> pool_world s' = pool_world s
        | Some r' \<Rightarrow> disposition r' \<noteq> Queued \<and> event_gc e (pool_world s) = Some (pool_world s'))"

lemma stage_okI:
  assumes "quiet_step s s1" "event_gc e (pool_world s) = Some w" "quiet_step (s1\<lparr>pool_world := w\<rparr>) s'" "d \<noteq> Queued"
  shows "stage_ok e s (Some (result d x)) s'"
  using assms quiet_ok_aos [OF assms(1)] quiet_ok_aos [OF assms(3)] ok_aos_cong [of s1 "s1\<lparr>pool_world := w\<rparr>"]
  by (simp add: stage_ok_def quiet_step_def result_def view_def)

lemma stage_ok_quiet: "quiet_step s s' \<Longrightarrow> stage_ok e s None s'"
  using quiet_ok_aos [of s s'] by (simp add: stage_ok_def quiet_step_def)

lemma sys_gc_quiet:
  assumes "quiet_step s s1" "event_gc e (pool_world s) = Some w"
  shows "sys_gc e s1 = Some (s1\<lparr>pool_world := w\<rparr>)"
  using assms by (intro sys_gc_ok) (simp add: quiet_step_def)

lemma stage_policy_ok:
  assumes "event_gc e (pool_world s) = Some w"
  shows "\<exists>r now s'. stage_policy env target e qos s = Some (r, now, s') \<and> stage_ok e s r s'"
proof (cases "env_policy env")
  case None
  then show ?thesis by (simp add: stage_policy_def stage_ok_quiet)
next
  case (Some evaluate)
  obtain now s1 where n: "sample_now env None s = (now, s1)" by fastforce
  obtain pr ctx where p: "evaluate (policy_ctx s1) target (event_at (pool_world s1) e) qos (now_value now) = (pr, ctx)" by fastforce
  have q: "quiet_step s (s1\<lparr>policy_ctx := ctx\<rparr>)" 
    by (rule quiet_trans [OF conjunct1 [OF quiet_sample [OF n]] quiet_simps(2)])
  let ?d = "if policy_reason pr \<noteq> 0 then DroppedRateLimit else DroppedPolicy"
  let ?s3 = "sys_monitor (record_disposition ?d) (sys_monitor (record_rejection target kC7Context) (s1\<lparr>policy_ctx := ctx\<rparr>))"
  have q3: "quiet_step s ?s3" by (rule quiet_trans [OF q quiet_trans [OF quiet_simps(6) quiet_simps(6)]])
  show ?thesis
  proof (cases "accept pr")
    case True
    then have "stage_policy env target e qos s = Some (None, now, s1\<lparr>policy_ctx := ctx\<rparr>)"
      using Some n p by (simp add: stage_policy_def)
    then show ?thesis using stage_ok_quiet [OF q] by blast
  next
    case False
    then have "stage_policy env target e qos s = Some (Some (result ?d (policy_reason pr)), now, ?s3\<lparr>pool_world := w\<rparr>)"
      using Some n p sys_gc_quiet [OF q3 assms] by (simp add: stage_policy_def Let_def split del: if_split)
    moreover have "stage_ok e s (Some (result ?d (policy_reason pr))) (?s3\<lparr>pool_world := w\<rparr>)"
      by (rule stage_okI [OF q3 assms quiet_refl]) simp
    ultimately show ?thesis by blast
  qed
qed

lemma stage_arrival_ok:
  assumes "event_gc e (pool_world s) = Some w"
  shows "\<exists>r arrival now' s'. stage_arrival env target ao e now s = Some (r, arrival, now', s') \<and> stage_ok e s r s'"
proof (cases "admission s")
  case None
  then show ?thesis by (simp add: stage_arrival_def stage_ok_quiet)
next
  case (Some a)
  show ?thesis
  proof (cases "min_arrival (limits_for target a) = 0")
    case True
    then show ?thesis using Some by (simp add: stage_arrival_def stage_ok_quiet)
  next
    case False
    obtain now1 s1 where n: "sample_now env now s = (now1, s1)" by fastforce
    obtain ok arrival a1 where r: "admission_reserve target (now_value now1) inert_reservation a = (ok, arrival, a1)"
      by (metis prod_cases3)
    have q: "quiet_step s (s1\<lparr>admission := Some a1\<rparr>)" 
      by (rule quiet_trans [OF conjunct1 [OF quiet_sample [OF n]] quiet_simps(3)])
    let ?s3 = "s1\<lparr>admission := Some a1, pool_world := w\<rparr>"
    have m: "quiet_step ?s3 (sys_monitor f (sys_monitor g (sys_monitor h ?s3)))" for f g h
      by (rule quiet_trans [OF quiet_simps(6) quiet_trans [OF quiet_simps(6) quiet_simps(6)]])
    show ?thesis
      using Some False n r q sys_gc_quiet [OF q assms] stage_okI [OF q assms m, of DroppedRateLimit kArrivalTooSoon]
      by (cases ok) (auto simp: stage_arrival_def Let_def stage_ok_quiet)
  qed
qed

text \<open>A dispatch under either lease keeps what the view shows of the AO.\<close>
lemma dispatch_holding_ok:
  assumes "ao_ok ao" "held \<noteq> RunIdle"
  shows "\<exists>taken ao'. dispatch_holding held evt ao = Some (taken, ao') \<and> ao_ok ao' \<and> pending_ctr ao' = pending_ctr ao
      \<and> ao_priority_class ao' = ao_priority_class ao"
proof (cases "ao_lease ao = RunIdle")
  case True
  obtain ao' where "ao_run_hsm evt ao = Some ao'" "ao_ok ao'" "pending_ctr ao' = pending_ctr ao"
      "ao_priority_class ao' = ao_priority_class ao" using ao_run_hsm_ok [OF assms(1), of evt] by metis
  then show ?thesis using dispatch_holding_idle [OF assms(2) True] by auto
next
  case False
  then show ?thesis using dispatch_holding_busy assms(1) by blast
qed

lemma rival_acts_ok [simp]:
  "ao_ok (rival_acts env n ao) = ao_ok ao" "pending_ctr (rival_acts env n ao) = pending_ctr ao"
  "ao_priority_class (rival_acts env n ao) = ao_priority_class ao"
  by (simp_all add: rival_acts_def ao_ok_def split: option.split)

lemma set_ao_view:
  assumes "pending_ctr ao' = pending_ctr (aos s a)" "ao_priority_class ao' = ao_priority_class (aos s a)"
  shows "view (set_ao a ao' s) = view s"
  using assms by (auto simp: view_def set_ao_def)

text \<open>A dispatch that changes at most the target's machine, context and lease.\<close>
definition run_step :: "('c, 'p) Sys \<Rightarrow> ('c, 'p) Sys \<Rightarrow> bool" where
  "run_step s s' \<longleftrightarrow> view s' = view s \<and> pool_world s' = pool_world s \<and> (ok_aos s \<longrightarrow> ok_aos s')"

lemma run_quiet: "quiet_step s s' \<Longrightarrow> run_step s s'"
  using quiet_ok_aos [of s s'] by (simp add: quiet_step_def run_step_def)

lemma run_trans: "run_step s t \<Longrightarrow> run_step t u \<Longrightarrow> run_step s u"
  by (simp add: run_step_def)

lemma run_dispatch:
  assumes "ok_aos s" "Some a \<in> set (ao_registry s)" "held \<noteq> RunIdle"
  obtains taken ao' where "dispatch_holding held evt (rival_acts env n (aos s a)) = Some (taken, ao')" "run_step s (set_ao a ao' s)"
proof -
  obtain taken ao' where d: "dispatch_holding held evt (rival_acts env n (aos s a)) = Some (taken, ao')" "ao_ok ao'"
      "pending_ctr ao' = pending_ctr (aos s a)" "ao_priority_class ao' = ao_priority_class (aos s a)"
    using dispatch_holding_ok [OF _ assms(3), of "rival_acts env n (aos s a)" evt] assms(1,2) by (auto simp: ok_aos_def)
  then have "run_step s (set_ao a ao' s)"
    using set_ao_view [OF d(3,4)] by (auto simp: run_step_def ok_aos_def set_ao_def)
  then show thesis using d(1) that by blast
qed

lemma direct_completed_ok:
  assumes "run_step s s1" "event_gc e (pool_world s) = Some w"
  shows "\<exists>arrival' s'. direct_completed target ao e elapsed arrival s1 = Some (arrival', s')
      \<and> stage_ok e s (Some (result Direct 0)) s'"
proof -
  obtain s2 where b: "(if elapsed > ao_rtc_budget_ns (aos s1 ao) then sys_breaker on_direct_timeout target s1
      else sys_breaker on_rtc_ok target s1) = Some s2" "quiet_step s1 s2"
    using quiet_breaker [of on_direct_timeout target s1] quiet_breaker [of on_rtc_ok target s1] by (metis (full_types))
  let ?s3 = "if pending_ctr (aos s2 ao) > 0 then wake_dispatcher False s2 else s2"
  have r2: "run_step s s2" by (rule run_trans [OF assms(1) run_quiet [OF b(2)]])
  have q: "run_step s ?s3" using r2 run_trans [OF r2 run_quiet [OF quiet_wake]] by simp
  have gc: "sys_gc e ?s3 = Some (?s3\<lparr>pool_world := w\<rparr>)" using q assms(2) by (intro sys_gc_ok) (simp add: run_step_def)
  obtain arrival' s' where c: "arrival_commit arrival (sys_monitor (record_disposition Direct) (?s3\<lparr>pool_world := w\<rparr>)) = (arrival', s')"
    by fastforce
  have "quiet_step (?s3\<lparr>pool_world := w\<rparr>) s'" by (rule quiet_trans [OF quiet_simps(6) quiet_commit [OF c]])
  moreover from this have "ok_aos s' = ok_aos ?s3" using quiet_ok_aos ok_aos_cong [of "?s3\<lparr>pool_world := w\<rparr>" ?s3] by fastforce
  ultimately have "stage_ok e s (Some (result Direct 0)) s'"
    using q assms(2) by (simp add: stage_ok_def quiet_step_def run_step_def view_def result_def)
  then show ?thesis using b(1) gc c by (simp add: direct_completed_def Let_def)
qed

lemma stage_direct_ok:
  assumes "event_gc e (pool_world s) = Some w" "ok_aos s" "target_breaker (breaker_bank s) target \<noteq> None"
    "Some ao \<in> set (ao_registry s)"
  shows "\<exists>r arrival' s'. stage_direct env target ao e from_isr arrival s = Some (r, arrival', s') \<and> stage_ok e s r s'"
proof -
  obtain b where b: "target_breaker (breaker_bank s) target = Some b" using assms(3) by blast
  have c: "stage_ok e s None (sys_monitor (record_lease_contention target) s')" if "run_step s s'" for s'
    using that run_trans [OF that run_quiet [OF quiet_simps(6)]] by (simp add: stage_ok_def run_step_def)
  show ?thesis
  proof (cases "(\<not> from_isr \<and> ao_direct_eligible (aos s ao) \<and> direct_allowed target b) \<and> ao_lease (aos s ao) = RunIdle")
    case False
    then consider "\<not> (\<not> from_isr \<and> ao_direct_eligible (aos s ao) \<and> direct_allowed target b)"
      | "\<not> from_isr \<and> ao_direct_eligible (aos s ao) \<and> direct_allowed target b" "ao_lease (aos s ao) \<noteq> RunIdle" by blast
    then show ?thesis
    proof cases
      case 1
      then have "stage_direct env target ao e from_isr arrival s = Some (None, arrival, s)"
        unfolding stage_direct_def b bind.bind_lunit by (subst if_not_P) simp_all
      then show ?thesis using stage_ok_quiet [OF quiet_refl, of e s] by simp
    next
      case 2
      then have "stage_direct env target ao e from_isr arrival s = Some (None, arrival, sys_monitor (record_lease_contention target) s)"
        unfolding stage_direct_def b bind.bind_lunit by simp
      then show ?thesis using c [OF run_quiet [OF quiet_refl]] by simp
    qed
  next
    case True
    obtain t0 s1 where m: "monotonic_ns env (enter_direct s) = (t0, s1)" by fastforce
    have q1: "quiet_step s s1" by (rule quiet_trans [OF quiet_simps(8) quiet_monotonic [OF m]])
    then have "ok_aos s1" "Some ao \<in> set (ao_registry s1)" using assms(2,4) quiet_ok_aos [OF q1] by (simp_all add: quiet_step_def view_def)
    from run_dispatch [OF this, of RunningDirect "event_at (pool_world s1) e" env "clock_reads s1"]
    obtain taken ao1 where d: "dispatch_direct (event_at (pool_world s1) e) (rival_acts env (clock_reads s1) (aos s1 ao)) = Some (taken, ao1)"
        "run_step s1 (set_ao ao ao1 s1)" unfolding dispatch_direct_def by auto
    obtain t1 s2 where m2: "monotonic_ns env (set_ao ao ao1 s1) = (t1, s2)" by fastforce
    have r: "run_step s (leave_direct s2)"
      by (rule run_trans [OF run_quiet [OF q1] run_trans [OF d(2) run_trans [OF run_quiet [OF quiet_monotonic [OF m2]] run_quiet [OF quiet_simps(9)]]]])
    obtain arrival' s' where dc: "direct_completed target ao e (t1 - t0) arrival (leave_direct s2) = Some (arrival', s')"
        "stage_ok e s (Some (result Direct 0)) s'" using direct_completed_ok [OF r assms(1)] by blast
    have e: "stage_direct env target ao e from_isr arrival s =
        (if taken then do {
           (arrival1, s4) \<leftarrow> direct_completed target ao e (t1 - t0) arrival (leave_direct s2);
           Some (Some (result Direct 0), arrival1, s4)
         } else Some (None, arrival, sys_monitor (record_lease_contention target) (leave_direct s2)))"
      using True unfolding stage_direct_def b by (simp add: m d(1) m2)
    show ?thesis
    proof (cases taken)
      case True
      then show ?thesis using dc(2) unfolding e dc(1) by auto
    next
      case False
      then show ?thesis using c [OF r] unfolding e by auto
    qed
  qed
qed

text \<open>
  How a submit ends: with a new slot of the target in staging and one more pending event, the
  pools untouched, or with one reference released and nothing in staging.
\<close>
definition submitted :: "Config \<Rightarrow> nat \<Rightarrow> TargetId \<Rightarrow> nat \<Rightarrow> nat \<Rightarrow> SubmitResult \<Rightarrow> ('c, 'p) Sys \<Rightarrow> ('c, 'p) Sys \<Rightarrow> bool" where
  "submitted cfg n target ao e r s s' \<longleftrightarrow> (ok_aos s \<longrightarrow> ok_aos s') \<and>
     (if disposition r = Queued then
        \<exists>x sg. slot_target x = target \<and> slot_event x = e
          \<and> enqueued cfg n (partition_from_class (ao_priority_class (aos s ao))) [x] (staging s) sg
          \<and> view s' = (view s)\<lparr>v_pending := (v_pending (view s))(ao := v_pending (view s) ao + 1), v_queues := q_view sg\<rparr>
          \<and> pool_world s' = pool_world s
      else \<exists>sg. enqueued cfg n PHigh [] (staging s) sg \<and> view s' = (view s)\<lparr>v_queues := q_view sg\<rparr>
          \<and> event_gc e (pool_world s) = Some (pool_world s'))"

lemma stage_submitted:
  assumes "stage_ok e s (Some r) s'" "staging_inv cfg (staging s)" "staging_fresh (Suc n) (staging s)"
  shows "submitted cfg n target ao e r s s'"
proof -
  have "view s' = (view s)\<lparr>v_queues := q_view (staging s)\<rparr>" using assms(1) by (simp add: stage_ok_def view_def)
  moreover have "disposition r \<noteq> Queued" "event_gc e (pool_world s) = Some (pool_world s')" "ok_aos s \<longrightarrow> ok_aos s'"
    using assms(1) by (simp_all add: stage_ok_def)
  ultimately show ?thesis unfolding submitted_def using enqueued_none [OF assms(2,3), of PHigh] by (auto intro: exI [of _ "staging s"])
qed

lemma run_submitted:
  assumes "stage_ok e s None s1" "submitted cfg n target ao e r s1 s'"
  shows "submitted cfg n target ao e r s s'"
proof -
  have v: "view s1 = view s" "pool_world s1 = pool_world s" "ok_aos s \<longrightarrow> ok_aos s1" using assms(1) by (simp_all add: stage_ok_def)
  then have c: "ao_priority_class (aos s1 ao) = ao_priority_class (aos s ao)" and q: "q_view (staging s1) = q_view (staging s)"
    by (simp_all add: view_def fun_eq_iff)
  have e: "\<exists>sg'. q_view sg' = q_view sg \<and> enqueued cfg n p xs (staging s) sg'" if "enqueued cfg n p xs (staging s1) sg" for p xs sg
  proof -
    define sg' where "sg' = sg\<lparr>wake_pending := wake_pending (staging s), admission_word := admission_word (staging s)\<rparr>"
    have "q_view sg' = q_view sg" by (simp add: sg'_def q_view_def)
    moreover have "sg_rest sg' = sg_rest (staging s)" by (simp add: sg'_def sg_rest_def)
    ultimately show ?thesis using that q_view_eq [OF q] q_view_eq [of sg' sg] by (auto simp: enqueued_def intro: exI [of _ sg'])
  qed
  show ?thesis
  proof (cases "disposition r = Queued")
    case True
    then obtain x sg where x: "slot_target x = target" "slot_event x = e"
        "enqueued cfg n (partition_from_class (ao_priority_class (aos s1 ao))) [x] (staging s1) sg"
        "view s' = (view s1)\<lparr>v_pending := (v_pending (view s1))(ao := v_pending (view s1) ao + 1), v_queues := q_view sg\<rparr>"
        "pool_world s' = pool_world s1" "ok_aos s1 \<longrightarrow> ok_aos s'" using assms(2) by (auto simp: submitted_def)
    obtain sg' where g: "q_view sg' = q_view sg" "enqueued cfg n (partition_from_class (ao_priority_class (aos s ao))) [x] (staging s) sg'"
      using e [OF x(3)] unfolding c by blast
    show ?thesis unfolding submitted_def if_P [OF True]
      by (intro conjI exI [of _ x] exI [of _ sg']) (simp_all add: x(1,2,4,5) g v, use x(6) v(3) in blast)
  next
    case False
    then obtain sg where "enqueued cfg n PHigh [] (staging s1) sg" "view s' = (view s1)\<lparr>v_queues := q_view sg\<rparr>"
        "event_gc e (pool_world s1) = Some (pool_world s')" "ok_aos s1 \<longrightarrow> ok_aos s'" using assms(2) by (auto simp: submitted_def)
    note y = this
    obtain sg' where g: "q_view sg' = q_view sg" "enqueued cfg n PHigh [] (staging s) sg'" using e [OF y(1)] by blast
    show ?thesis unfolding submitted_def if_not_P [OF False]
      by (intro conjI exI [of _ sg']) (simp_all add: y(2) y(3) [unfolded v] g v, use y(4) v(3) in blast)
  qed
qed

lemma reserve_pending_ok:
  assumes "pending_ctr (aos s ao) \<noteq> 0xffff"
  shows "\<exists>ok s'. reserve_pending target ao s = Some (ok, s')
      \<and> (if ok then s' = set_ao ao ((aos s ao)\<lparr>pending_ctr := pending_ctr (aos s ao) + 1\<rparr>) s else s' = s)"
  using assms by (auto simp: reserve_pending_def pending_increment_def pending_try_increment_def cas_alone_def increment_decide_def
      set_ao_def split: option.split)

lemma backlog_rejected_ok:
  assumes "quiet_step s s1" "event_gc e (pool_world s) = Some w"
  shows "\<exists>r s'. backlog_rejected target ao e now s1 = Some (r, s') \<and> stage_ok e s (Some r) s'"
proof -
  have m: "quiet_step t (sys_monitor f (sys_monitor g (sys_monitor h t)))" for f g h and t :: "('a, 'b) Sys"
    by (rule quiet_trans [OF quiet_simps(6) quiet_trans [OF quiet_simps(6) quiet_simps(6)]])
  show ?thesis using sys_gc_quiet [OF assms] stage_okI [OF assms m, of RejectedFull kBacklogFull]
    by (auto simp: backlog_rejected_def Let_def)
qed

lemma release_pending_inc:
  assumes "pending_ctr (aos s ao) \<noteq> 0xffff"
  shows "release_pending ao ((set_ao ao ((aos s ao)\<lparr>pending_ctr := pending_ctr (aos s ao) + 1\<rparr>) s)\<lparr>staging := sg\<rparr>)
    = Some (s\<lparr>staging := sg\<rparr>)"
proof -
  have "unat (pending_ctr (aos s ao)) \<noteq> unat (0xffff :: u16)" using assms by (metis word_unat_eq_iff)
  then have "unat (pending_ctr (aos s ao)) \<noteq> 65535" by simp
  then have "unat (pending_ctr (aos s ao)) + 1 < 65536" using unat_less_16 [of "pending_ctr (aos s ao)"] by linarith
  then have "unat (pending_ctr (aos s ao)) + 1 < 2 ^ LENGTH(16)" by simp
  then have "pending_ctr (aos s ao) + 1 > 0" using unat_inc [of "pending_ctr (aos s ao)"] by (simp add: word_less_nat_alt)
  then show ?thesis by (simp add: release_pending_def pending_decrement_def set_ao_def)
qed

lemma staging_rejected_ok:
  assumes "pending_ctr (aos s ao) \<noteq> 0xffff" "event_gc e (pool_world s) = Some w"
  shows "\<exists>r s'. staging_rejected target ao e now ((set_ao ao ((aos s ao)\<lparr>pending_ctr := pending_ctr (aos s ao) + 1\<rparr>) s)\<lparr>staging := sg\<rparr>)
      = Some (r, s') \<and> disposition r \<noteq> Queued \<and> quiet_step (s\<lparr>staging := sg, pool_world := w\<rparr>) s'"
proof -
  let ?s2 = "sys_monitor record_overflow (s\<lparr>staging := sg, pool_world := w\<rparr>)"
  obtain s3 where b: "sys_breaker on_overflow target ?s2 = Some s3" "quiet_step ?s2 s3" using quiet_breaker by blast
  have gc: "sys_gc e (s\<lparr>staging := sg\<rparr>) = Some (s\<lparr>staging := sg, pool_world := w\<rparr>)" using assms(2) by (simp add: sys_gc_def)
  let ?s4 = "sys_monitor (record_disposition RejectedFull) s3"
  define s' where "s' = (if admission ?s4 = None then ?s4
      else sys_monitor (record_admission_snapshot target RejectedFull kStagingFull (now_value now) (ao_rtc_budget_ns (aos ?s4 ao))) ?s4)"
  have "quiet_step (s\<lparr>staging := sg, pool_world := w\<rparr>) ?s4"
    by (rule quiet_trans [OF quiet_simps(6) quiet_trans [OF b(2) quiet_simps(6)]])
  then have "quiet_step (s\<lparr>staging := sg, pool_world := w\<rparr>) s'" unfolding s'_def by (auto intro: quiet_trans [OF _ quiet_simps(6)])
  then show ?thesis using release_pending_inc [OF assms(1), of sg] gc b(1)
    by (simp add: staging_rejected_def Let_def s'_def result_def del: if_split split del: if_split)
qed

lemma stage_queued_ok:
  assumes inv: "staging_inv cfg (staging s)" and fr: "staging_fresh (Suc n) (staging s)" and cfg: "env_cfg env = cfg"
    and gc: "event_gc e (pool_world s) = Some w" and pd: "pending_ctr (aos s ao) \<noteq> 0xffff"
  shows "\<exists>r arrival' s'. stage_queued env target ao e qos adm from_isr now arrival s = Some (r, arrival', s')
      \<and> submitted cfg n target ao e r s s'"
proof -
  let ?cls = "ao_priority_class (aos s ao)"
  obtain now1 s1 where sm: "sample_for_staging env target ?cls now s = (now1, s1)" by fastforce
  have q1: "quiet_step s s1" by (rule quiet_sample_staging [OF sm])
  have pd1: "pending_ctr (aos s1 ao) \<noteq> 0xffff" and gc1: "event_gc e (pool_world s1) = Some w" and a1: "aos s1 = aos s"
    and v1: "view s1 = view s" and q: "q_view (staging s1) = q_view (staging s)"
    using q1 pd gc by (simp_all add: quiet_step_def view_def)
  have inv1: "staging_inv cfg (staging s1)" "staging_fresh (Suc n) (staging s1)" using q_view_eq [OF q] inv fr by simp_all
  have "submitted cfg n target ao e r s1 s' \<Longrightarrow> submitted cfg n target ao e r s s'" for r s'
    by (rule run_submitted [OF stage_ok_quiet [OF q1]])
  moreover have "\<exists>r arrival' s'. stage_queued env target ao e qos adm from_isr now arrival s = Some (r, arrival', s')
      \<and> submitted cfg n target ao e r s1 s'"
  proof -
    let ?up = "set_ao ao ((aos s1 ao)\<lparr>pending_ctr := pending_ctr (aos s1 ao) + 1\<rparr>) s1"
    obtain ok s2 where rp: "reserve_pending target ao s1 = Some (ok, s2)" "if ok then s2 = ?up else s2 = s1"
      using reserve_pending_ok [OF pd1] by blast
    show ?thesis
    proof (cases ok)
      case False
      obtain r s' where "backlog_rejected target ao e now1 s1 = Some (r, s')" "stage_ok e s1 (Some r) s'"
        using backlog_rejected_ok [OF quiet_refl gc1] by blast
      then show ?thesis using False rp sm stage_submitted [OF _ inv1] by (auto simp: stage_queued_def)
    next
      case True
      then have s2: "s2 = ?up" using rp(2) by simp
      let ?ce = "can_enqueue cfg ?cls (critical qos) adm (staging s1)"
        and ?x = "new_slot cfg target e ?cls (now_value now1) (critical qos) adm"
      obtain sg where en: "enqueue cfg target e ?cls (now_value now1) (critical qos) adm (staging s1) = Some (?ce, sg)"
          "enqueued cfg n (partition_from_class ?cls) (if ?ce then [?x] else []) (staging s1) sg"
        using enqueue_correct [OF inv1] by blast
      have aw: "admission_word sg = admission_word (staging s1)" using en(2) by (simp add: enqueued_def sg_rest_def)
      have e: "stage_queued env target ao e qos adm from_isr now arrival s =
          (if \<not> ?ce then do { (r, s4) \<leftarrow> staging_rejected target ao e now1 (?up\<lparr>staging := sg\<rparr>); Some (r, arrival, s4) }
           else do {
             let (arrival1, s4) = arrival_commit arrival (?up\<lparr>staging := sg\<rparr>);
             let s6 = sys_monitor (record_disposition Queued) (wake_dispatcher from_isr s4);
             Some (result Queued 0, arrival1, sys_monitor (record_pending target (pending_ctr (aos s6 ao))) s6) })"
        using True rp(1) sm cfg en(1) unfolding s2 by (simp add: stage_queued_def Let_def set_ao_def)
      show ?thesis
      proof (cases ?ce)
        case False
        obtain r s' where r: "staging_rejected target ao e now1 (?up\<lparr>staging := sg\<rparr>) = Some (r, s')" "disposition r \<noteq> Queued"
            "quiet_step (s1\<lparr>staging := sg, pool_world := w\<rparr>) s'" using staging_rejected_ok [OF pd1 gc1] by blast
        have "enqueued cfg n PHigh [] (staging s1) sg" using en(2) False by (auto simp: enqueued_def)
        moreover have "view s' = (view s1)\<lparr>v_queues := q_view sg\<rparr>" using r(3) aw by (simp add: quiet_step_def view_def)
        moreover have "ok_aos s' = ok_aos s1" using quiet_ok_aos [OF r(3)] by (simp add: ok_aos_def)
        ultimately have "submitted cfg n target ao e r s1 s'"
          using r(2,3) gc1 by (auto simp: submitted_def quiet_step_def)
        then show ?thesis using e r(1) False by auto
      next
        case ce: True
        obtain arrival1 s4 where c: "arrival_commit arrival (?up\<lparr>staging := sg\<rparr>) = (arrival1, s4)" by fastforce
        let ?s6 = "sys_monitor (record_disposition Queued) (wake_dispatcher from_isr s4)"
        let ?s7 = "sys_monitor (record_pending target (pending_ctr (aos ?s6 ao))) ?s6"
        have q7: "quiet_step (?up\<lparr>staging := sg\<rparr>) ?s7"
          by (rule quiet_trans [OF quiet_commit [OF c] quiet_trans [OF quiet_wake quiet_trans [OF quiet_simps(6) quiet_simps(6)]]])
        have v: "view ?s7 = (view s1)\<lparr>v_pending := (v_pending (view s1))(ao := v_pending (view s1) ao + 1), v_queues := q_view sg\<rparr>"
          using q7 aw by (simp add: quiet_step_def view_def set_ao_def fun_eq_iff)
        have ok7: "ok_aos s1 \<longrightarrow> ok_aos ?s7" and pw7: "pool_world ?s7 = pool_world s1"
          using q7 quiet_ok_aos [OF q7] by (auto simp: quiet_step_def ok_aos_def set_ao_def ao_ok_def)
        have x: "slot_target ?x = target" "slot_event ?x = e" by (simp_all add: new_slot_def)
        have en': "enqueued cfg n (partition_from_class (ao_priority_class (aos s1 ao))) [?x] (staging s1) sg"
          using en(2) ce a1 by simp
        have "submitted cfg n target ao e (result Queued 0) s1 ?s7"
          unfolding submitted_def using x en' v ok7 pw7 by (auto simp: result_def)
        then show ?thesis using e ce c by (auto simp: Let_def)
      qed
    qed
  qed
  ultimately show ?thesis by blast
qed

section \<open>The pipeline\<close>

lemma bound_breaker:
  assumes "registry_lookup (ao_registry s) target = Some ao" "length (breakers (breaker_bank s)) = length (ao_registry s)"
  shows "target_breaker (breaker_bank s) target \<noteq> None"
  using assms by (auto simp: registry_lookup_def target_breaker_def bank_index_def bank_valid_def split: if_splits)

lemma submit_admitted_ok:
  assumes inv: "staging_inv cfg (staging s)" and fr: "staging_fresh (Suc n) (staging s)" and cfg: "env_cfg env = cfg"
    and gc: "event_gc e (pool_world s) = Some w" and pd: "pending_ctr (aos s ao) \<noteq> 0xffff" and ok: "ok_aos s"
    and lk: "registry_lookup (ao_registry s) target = Some ao" "length (breakers (breaker_bank s)) = length (ao_registry s)"
  shows "\<exists>r arrival s'. submit_admitted env target ao e qos adm from_isr s = Some (r, arrival, s') \<and> submitted cfg n target ao e r s s'"
proof -
  obtain b where b: "target_breaker (breaker_bank s) target = Some b" using bound_breaker [OF lk] by blast
  have keep: "staging_inv cfg (staging s')" "staging_fresh (Suc n) (staging s')" "event_gc e (pool_world s') = Some w"
      "pending_ctr (aos s' ao) \<noteq> 0xffff" "ok_aos s'" "registry_lookup (ao_registry s') target = Some ao"
      "length (breakers (breaker_bank s')) = length (ao_registry s')" if "stage_ok e s None s'" for s'
  proof -
    have v: "view s' = view s" "pool_world s' = pool_world s" "ok_aos s'" using that ok by (simp_all add: stage_ok_def)
    then have q: "q_view (staging s') = q_view (staging s)" by (simp add: view_def)
    show "staging_inv cfg (staging s')" "staging_fresh (Suc n) (staging s')" "event_gc e (pool_world s') = Some w"
      "pending_ctr (aos s' ao) \<noteq> 0xffff" "ok_aos s'" "registry_lookup (ao_registry s') target = Some ao"
      "length (breakers (breaker_bank s')) = length (ao_registry s')"
      using q_view_eq [OF q] inv fr gc pd lk v by (auto simp: view_def fun_eq_iff)
  qed
  have trans: "stage_ok e s r s''" if "stage_ok e s None s'" "stage_ok e s' r s''" for r s' s''
    using that by (auto simp: stage_ok_def split: option.splits)
  show ?thesis
  proof (cases "\<not> critical qos \<and> drop_non_critical b")
    case True
    let ?s1 = "sys_monitor (record_disposition DroppedOverload) s"
    have "submit_admitted env target ao e qos adm from_isr s = Some (result DroppedOverload 0, inert_reservation, ?s1\<lparr>pool_world := w\<rparr>)"
      using True b sys_gc_quiet [OF quiet_simps(6) gc] by (simp add: submit_admitted_def)
    moreover have "stage_ok e s (Some (result DroppedOverload 0)) (?s1\<lparr>pool_world := w\<rparr>)"
      by (rule stage_okI [OF quiet_simps(6) gc quiet_refl]) simp
    ultimately show ?thesis using stage_submitted [OF _ inv fr] by blast
  next
    case False
    obtain r1 now1 s1 where p: "stage_policy env target e qos s = Some (r1, now1, s1)" "stage_ok e s r1 s1"
      using stage_policy_ok [OF gc] by blast
    show ?thesis
    proof (cases r1)
      case (Some r)
      then have "submit_admitted env target ao e qos adm from_isr s = Some (r, inert_reservation, s1)"
        using b p(1) by (simp add: submit_admitted_def if_not_P [OF False])
      then show ?thesis using stage_submitted [OF _ inv fr] p(2) Some by blast
    next
      case None
      note K1 = keep [OF p(2) [unfolded None]]
      obtain r2 arrival now2 s2 where a: "stage_arrival env target ao e now1 s1 = Some (r2, arrival, now2, s2)" "stage_ok e s1 r2 s2"
        using stage_arrival_ok [OF K1(3)] by blast
      have s2: "stage_ok e s r2 s2" using trans p(2) a(2) None by blast
      show ?thesis
      proof (cases r2)
        case (Some r)
        then have "submit_admitted env target ao e qos adm from_isr s = Some (r, arrival, s2)"
          using b p(1) None a(1) by (simp add: submit_admitted_def if_not_P [OF False])
        then show ?thesis using stage_submitted [OF _ inv fr] s2 Some by blast
      next
        case None2: None
        note K2 = keep [OF s2 [unfolded None2]]
        obtain r3 arrival1 s3 where d: "stage_direct env target ao e from_isr arrival s2 = Some (r3, arrival1, s3)" "stage_ok e s2 r3 s3"
          using stage_direct_ok [OF K2(3,5) bound_breaker [OF K2(6,7)] lookup_bound [OF K2(6)]] by blast
        have s3: "stage_ok e s r3 s3" using trans s2 d(2) None2 by blast
        show ?thesis
        proof (cases r3)
          case (Some r)
          then have "submit_admitted env target ao e qos adm from_isr s = Some (r, arrival1, s3)"
            using b p(1) None a(1) None2 d(1) by (simp add: submit_admitted_def if_not_P [OF False])
          then show ?thesis using stage_submitted [OF _ inv fr] s3 Some by blast
        next
          case None3: None
          note K3 = keep [OF s3 [unfolded None3]]
          obtain r arrival' s' where "stage_queued env target ao e qos adm from_isr now2 arrival1 s3 = Some (r, arrival', s')"
              "submitted cfg n target ao e r s3 s'" using stage_queued_ok [OF K3(1,2) cfg K3(3,4)] by blast
          moreover have "submit_admitted env target ao e qos adm from_isr s = stage_queued env target ao e qos adm from_isr now2 arrival1 s3"
            using b p(1) None a(1) None2 d(1) None3 by (simp add: submit_admitted_def if_not_P [OF False])
          ultimately show ?thesis using run_submitted [OF s3 [unfolded None3]] by auto
        qed
      qed
    qed
  qed
qed

section \<open>The system invariant\<close>

definition slots :: "Staging \<Rightarrow> StagingSlot list" where
  "slots sg = parts sg PHigh @ parts sg PNormal @ parts sg PLow"

text \<open>The slots of the list that are bound for an AO.\<close>
definition backlog :: "AoRegistry \<Rightarrow> StagingSlot list \<Rightarrow> nat \<Rightarrow> nat" where
  "backlog reg xs a = length (filter (\<lambda>x. registry_lookup reg (slot_target x) = Some a) xs)"

lemma backlog_simps [simp]:
  "backlog reg [] a = 0" "backlog reg (xs @ ys) a = backlog reg xs a + backlog reg ys a"
  "backlog reg (x # xs) a = (if registry_lookup reg (slot_target x) = Some a then 1 else 0) + backlog reg xs a"
  by (simp_all add: backlog_def)

lemma backlog_le: "backlog reg xs a \<le> length xs"
  by (simp add: backlog_def)

lemma backlog_mset: "mset xs = mset ys \<Longrightarrow> backlog reg xs a = backlog reg ys a"
  unfolding backlog_def by (metis mset_filter size_mset)

text \<open>
  The state between operations, with D the slots the dispatcher holds: the pending counter of
  an AO counts its slots in staging and in D, and every slot lies in the partition of its AO.
\<close>
definition sys_inv :: "Config \<Rightarrow> StagingSlot list \<Rightarrow> ('c, 'p) Sys \<Rightarrow> bool" where
  "sys_inv cfg D s \<longleftrightarrow> staging_inv cfg (staging s) \<and> ok_aos s \<and> length (breakers (breaker_bank s)) = length (ao_registry s)
     \<and> (\<forall>a. unat (pending_ctr (aos s a)) = backlog (ao_registry s) (slots (staging s) @ D) a)
     \<and> (\<forall>p a. \<forall>x \<in> set (parts (staging s) p). registry_lookup (ao_registry s) (slot_target x) = Some a
          \<longrightarrow> partition_from_class (ao_priority_class (aos s a)) = p)"

definition small_config :: "Config \<Rightarrow> bool" where
  "small_config cfg \<longleftrightarrow> (\<forall>p. unat (part_capacity cfg p) < 65534)"

lemma sys_invD:
  assumes "sys_inv cfg D s"
  shows "staging_inv cfg (staging s)" "ok_aos s" "length (breakers (breaker_bank s)) = length (ao_registry s)"
    "unat (pending_ctr (aos s a)) = backlog (ao_registry s) (slots (staging s) @ D) a"
    "x \<in> set (parts (staging s) p) \<Longrightarrow> registry_lookup (ao_registry s) (slot_target x) = Some a \<Longrightarrow>
       partition_from_class (ao_priority_class (aos s a)) = p"
  using assms unfolding sys_inv_def by blast+

lemma parts_bound:
  assumes "staging_inv cfg sg"
  shows "length (parts sg p) \<le> unat (part_capacity cfg p)"
  using staging_queue.contents_bound [OF staging_invD(1) [OF assms, of p]] staging_invD(2) [OF assms, of p] by (simp add: parts_def)

lemma pending_bound:
  assumes "sys_inv cfg D s" "small_config cfg" "length D \<le> 1"
  shows "unat (pending_ctr (aos s a)) < 65535"
proof -
  let ?p = "partition_from_class (ao_priority_class (aos s a))" and ?reg = "ao_registry s"
  have z: "backlog ?reg (parts (staging s) p) a = 0" if "p \<noteq> ?p" for p
    using sys_invD(5) [OF assms(1)] that by (auto simp: backlog_def filter_empty_conv)
  have le: "backlog ?reg (parts (staging s) p) a \<le> unat (part_capacity cfg p)" for p
    using backlog_le [of ?reg "parts (staging s) p" a] parts_bound [OF sys_invD(1) [OF assms(1)], of p] by linarith
  have "backlog ?reg (slots (staging s)) a = backlog ?reg (parts (staging s) ?p) a"
    using z [of PHigh] z [of PNormal] z [of PLow] by (cases ?p) (simp_all add: slots_def)
  then have "unat (pending_ctr (aos s a)) \<le> unat (part_capacity cfg ?p) + 1"
    using sys_invD(4) [OF assms(1), of a] le [of ?p] backlog_le [of ?reg D a] assms(3) by simp
  moreover have "unat (part_capacity cfg ?p) < 65534" using assms(2) by (simp add: small_config_def)
  ultimately show ?thesis by linarith
qed

lemma sys_inv_view:
  assumes "sys_inv cfg D s" "view s' = view s" "ok_aos s'"
  shows "sys_inv cfg D s'"
proof -
  have q: "q_view (staging s') = q_view (staging s)" and r: "ao_registry s' = ao_registry s"
    and b: "length (breakers (breaker_bank s')) = length (breakers (breaker_bank s))"
    and p: "\<And>a. pending_ctr (aos s' a) = pending_ctr (aos s a)" and c: "\<And>a. ao_priority_class (aos s' a) = ao_priority_class (aos s a)"
    using assms(2) by (simp_all add: view_def fun_eq_iff)
  show ?thesis using assms(1,3) q_view_eq(1,2) [OF q] by (simp add: sys_inv_def r b p c slots_def)
qed

text \<open>
  The effect of a submit on the parts of the state that the dispatcher also works on.
\<close>
definition submit_effect :: "TargetId \<Rightarrow> nat \<Rightarrow> SubmitResult \<Rightarrow> ('c, 'p) Sys \<Rightarrow> ('c, 'p) Sys \<Rightarrow> bool" where
  "submit_effect target e r s s' \<longleftrightarrow> ao_registry s' = ao_registry s
    \<and> admission_word (staging s') = admission_word (staging s)
    \<and> (if disposition r = Queued
        then pool_world s' = pool_world s \<and> (\<exists>x p. slot_target x = target \<and> slot_event x = e
          \<and> (\<forall>p'. parts (staging s') p' = (if p' = p then parts (staging s) p @ [x] else parts (staging s) p')))
        else event_gc e (pool_world s) = Some (pool_world s') \<and> parts (staging s') = parts (staging s))"

lemma submitted_inv:
  assumes inv: "sys_inv cfg D s" and small: "small_config cfg" "length D \<le> 1"
    and lk: "registry_lookup (ao_registry s) target = Some ao" and sub: "submitted cfg n target ao e r s s'"
  shows "sys_inv cfg D s' \<and> staging_fresh n (staging s') \<and> submit_effect target e r s s'"
proof (cases "disposition r = Queued")
  case True
  let ?p = "partition_from_class (ao_priority_class (aos s ao))"
  obtain x sg where x: "slot_target x = target" "slot_event x = e" "enqueued cfg n ?p [x] (staging s) sg"
      and v: "view s' = (view s)\<lparr>v_pending := (v_pending (view s))(ao := v_pending (view s) ao + 1), v_queues := q_view sg\<rparr>"
      and w: "pool_world s' = pool_world s" "ok_aos s \<longrightarrow> ok_aos s'" using sub True by (auto simp: submitted_def)
  have q: "q_view (staging s') = q_view sg" and r: "ao_registry s' = ao_registry s"
    and b: "length (breakers (breaker_bank s')) = length (breakers (breaker_bank s))"
    and p: "pending_ctr (aos s' a) = (if a = ao then pending_ctr (aos s ao) + 1 else pending_ctr (aos s a))"
    and c: "ao_priority_class (aos s' a) = ao_priority_class (aos s a)"
    and aw: "admission_word (staging s') = admission_word (staging s)" for a
    using v by (simp_all add: view_def fun_eq_iff)
  have P: "parts (staging s') p' = (if p' = ?p then parts (staging s) ?p @ [x] else parts (staging s) p')" for p'
    using x(3) q_view_eq(1) [OF q] by (simp add: enqueued_def)
  have iv: "staging_inv cfg (staging s')" "staging_fresh n (staging s')" using x(3) q_view_eq [OF q] by (auto simp: enqueued_def)
  have "mset (slots (staging s')) = add_mset x (mset (slots (staging s)))"
    using P [of PHigh] P [of PNormal] P [of PLow] by (cases ?p) (simp_all add: slots_def)
  then have "mset (slots (staging s') @ D) = mset (x # slots (staging s) @ D)" by simp
  from backlog_mset [OF this] have B: "backlog (ao_registry s) (slots (staging s') @ D) a
      = (if a = ao then 1 else 0) + backlog (ao_registry s) (slots (staging s) @ D) a" for a using x(1) lk by auto
  have "unat (pending_ctr (aos s ao) + 1) = unat (pending_ctr (aos s ao)) + 1"
    using pending_bound [OF inv small, of ao] by (intro unat_inc) simp
  then have "unat (pending_ctr (aos s' a)) = backlog (ao_registry s) (slots (staging s') @ D) a" for a
    using sys_invD(4) [OF inv, of a] B [of a] p [of a] by (cases "a = ao") simp_all
  moreover have "partition_from_class (ao_priority_class (aos s' a)) = p'"
    if "y \<in> set (parts (staging s') p')" "registry_lookup (ao_registry s) (slot_target y) = Some a" for y p' a
    using that sys_invD(5) [OF inv, of y p' a] P [of p'] x(1) lk c [of a] by (auto split: if_splits)
  ultimately have "sys_inv cfg D s'" using iv(1) w(2) sys_invD(2,3) [OF inv] by (simp add: sys_inv_def r b)
  then show ?thesis using True w(1) r aw iv(2) x(1,2) P by (auto simp: submit_effect_def)
next
  case False
  obtain sg where sg: "enqueued cfg n PHigh [] (staging s) sg" and v: "view s' = (view s)\<lparr>v_queues := q_view sg\<rparr>"
      and w: "event_gc e (pool_world s) = Some (pool_world s')" "ok_aos s \<longrightarrow> ok_aos s'" using sub False by (auto simp: submitted_def)
  have q: "q_view (staging s') = q_view sg" and r: "ao_registry s' = ao_registry s"
    and b: "length (breakers (breaker_bank s')) = length (breakers (breaker_bank s))"
    and p: "pending_ctr (aos s' a) = pending_ctr (aos s a)" and c: "ao_priority_class (aos s' a) = ao_priority_class (aos s a)"
    and aw: "admission_word (staging s') = admission_word (staging s)" for a
    using v by (simp_all add: view_def fun_eq_iff)
  have P: "parts (staging s') = parts (staging s)" using sg q_view_eq(1) [OF q] by (auto simp: enqueued_def)
  have iv: "staging_inv cfg (staging s')" "staging_fresh n (staging s')" using sg q_view_eq [OF q] by (auto simp: enqueued_def)
  have "sys_inv cfg D s'" using inv iv(1) w(2) by (simp add: sys_inv_def r b p c slots_def P)
  then show ?thesis using False w(1) r aw iv(2) P by (simp add: submit_effect_def)
qed

section \<open>The whole submit\<close>

lemma sys_inv_word: "sys_inv cfg D (s\<lparr>staging := (staging s)\<lparr>admission_word := w\<rparr>\<rparr>) = sys_inv cfg D s"
proof -
  have "q_view ((staging s)\<lparr>admission_word := w\<rparr>) = q_view (staging s)" by (simp add: q_view_def)
  from q_view_eq(1,2) [OF this] show ?thesis by (simp add: sys_inv_def ok_aos_def slots_def)
qed

lemma lease_destroy:
  "pool_world (submission_lease_destroy i s) = pool_world s" "ao_registry (submission_lease_destroy i s) = ao_registry s"
  "staging (submission_lease_destroy i s) = (staging s)\<lparr>admission_word := admission_word (staging s) - 1\<rparr>"
  "sys_inv cfg D (submission_lease_destroy i s) = sys_inv cfg D s"
proof -
  let ?t = "s\<lparr>staging := (staging s)\<lparr>admission_word := admission_word (staging s) - 1\<rparr>\<rparr>"
  have t: "submission_lease_destroy i s = (if kAdmissionClosed OR 1 = admission_word (staging s) then pal_signal i ?t else ?t)"
    by (simp add: submission_lease_destroy_def release_submission_def)
  have "sys_inv cfg D (pal_signal i ?t) = sys_inv cfg D ?t"
    by (simp add: sys_inv_def pal_signal_def ok_aos_def)
  then show "sys_inv cfg D (submission_lease_destroy i s) = sys_inv cfg D s" unfolding t using sys_inv_word by simp
qed (simp_all add: submission_lease_destroy_def release_submission_def pal_signal_def)

lemma quiet_keeps:
  assumes "quiet_step s s'"
  shows "sys_inv cfg D s \<Longrightarrow> sys_inv cfg D s'" "pool_world s' = pool_world s" "ao_registry s' = ao_registry s"
    "admission_word (staging s') = admission_word (staging s)" "parts (staging s') = parts (staging s)"
    "staging_fresh n (staging s') = staging_fresh n (staging s)"
proof -
  have v: "view s' = view s" "pool_world s' = pool_world s" "aos s' = aos s" using assms by (simp_all add: quiet_step_def)
  show "sys_inv cfg D s \<Longrightarrow> sys_inv cfg D s'" 
    by (rule sys_inv_view [OF _ v(1)]) (auto simp: quiet_ok_aos [OF assms] dest: sys_invD(2))
  have "q_view (staging s') = q_view (staging s)" using v(1) by (simp add: view_def)
  from q_view_eq [OF this] show "parts (staging s') = parts (staging s)" "staging_fresh n (staging s') = staging_fresh n (staging s)" by auto
  show "pool_world s' = pool_world s" "ao_registry s' = ao_registry s" "admission_word (staging s') = admission_word (staging s)"
    using v by (simp_all add: view_def)
qed

lemma submit_rejected:
  assumes "sys_inv cfg D s" "staging_fresh (Suc n) (staging s)" "event_gc e (pool_world s) = Some w"
    and "quiet_step (s\<lparr>pool_world := w\<rparr>) s'" "disposition r \<noteq> Queued"
  shows "sys_inv cfg D s' \<and> staging_fresh n (staging s') \<and> submit_effect target e r s s'"
proof -
  have "sys_inv cfg D (s\<lparr>pool_world := w\<rparr>)" using assms(1) by (simp add: sys_inv_def ok_aos_def)
  moreover have "staging_fresh n (staging s)" using assms(2) by (auto simp: staging_fresh_def intro: staging_queue.fresh_less)
  ultimately show ?thesis using quiet_keeps [OF assms(4)] assms(3,5) by (simp add: submit_effect_def)
qed

lemma submit_internal_ok:
  assumes inv: "sys_inv cfg D s" and cfg: "env_cfg env = cfg" "small_config cfg" "length D \<le> 1"
    and fr: "staging_fresh (Suc n) (staging s)" and gc: "event_gc e (pool_world s) = Some w"
  shows "\<exists>r s'. submit_internal env target e qos adm from_isr s = Some (r, s')
    \<and> sys_inv cfg D s' \<and> staging_fresh n (staging s') \<and> submit_effect target e r s s'"
proof -
  have g: "sys_gc e s = Some (s\<lparr>pool_world := w\<rparr>)" using gc by (simp add: sys_gc_def)
  note rej = submit_rejected [OF inv fr gc]
  let ?rej = "sys_monitor (record_disposition RejectedState) (s\<lparr>pool_world := w\<rparr>)"
  show ?thesis
  proof (cases "registry_lookup (ao_registry s) target")
    case None
    then show ?thesis using rej [OF quiet_refl, of "result RejectedState 0"] g by (simp add: submit_internal_def result_def)
  next
    case (Some ao)
    show ?thesis
    proof (cases "admission_valid (env_cfg env) (ao_priority_class (aos s ao)) adm")
      case False
      then show ?thesis using rej [OF quiet_simps(6), of "result RejectedState 0"] g Some by (simp add: submit_internal_def result_def)
    next
      case True
      show ?thesis
      proof (cases "submission_decide () (admission_word (staging s))")
        case None
        then have "acquire_submission (staging s) = (False, staging s)" by (simp add: acquire_submission_def cas_alone_def)
        then show ?thesis using rej [OF quiet_simps(6), of "result RejectedState 0"] g Some True by (simp add: submit_internal_def result_def)
      next
        case dec: (Some w1)
        then have w1: "w1 = admission_word (staging s) + 1" by (simp add: submission_decide_def split: if_splits)
        define s0 where "s0 = s\<lparr>staging := (staging s)\<lparr>admission_word := w1\<rparr>\<rparr>"
        have q: "q_view (staging s0) = q_view (staging s)" by (simp add: s0_def q_view_def)
        have inv0: "sys_inv cfg D s0" using inv by (simp add: s0_def sys_inv_word)
        have lk: "registry_lookup (ao_registry s0) target = Some ao" and gc0: "event_gc e (pool_world s0) = Some w"
          using Some gc by (simp_all add: s0_def)
        have "unat (pending_ctr (aos s0 ao)) < 65535" by (rule pending_bound [OF inv0 cfg(2,3)])
        then have pd: "pending_ctr (aos s0 ao) \<noteq> 0xffff" by auto
        have fr0: "staging_fresh (Suc n) (staging s0)" using fr q_view_eq(3) [OF q] by simp
        obtain r arrival s1 where a: "submit_admitted env target ao e qos adm from_isr s0 = Some (r, arrival, s1)"
            "submitted cfg n target ao e r s0 s1"
          using submit_admitted_ok [OF sys_invD(1) [OF inv0] fr0 cfg(1) gc0 pd sys_invD(2) [OF inv0] lk sys_invD(3) [OF inv0]] by blast
        note S = submitted_inv [OF inv0 cfg(2,3) lk a(2)]
        let ?s2 = "submission_lease_destroy from_isr s1" and ?s' = "arrival_destroy arrival (submission_lease_destroy from_isr s1)"
        have "acquire_submission (staging s) = (True, (staging s)\<lparr>admission_word := w1\<rparr>)"
          using dec by (simp add: acquire_submission_def cas_alone_def)
        then have "submit_internal env target e qos adm from_isr s = Some (r, ?s')"
          using a(1) Some True by (simp add: submit_internal_def s0_def)
        moreover note K = quiet_keeps [OF quiet_simps(10) [of ?s2 arrival]]
        have q2: "q_view (staging ?s2) = q_view (staging s1)" by (simp add: lease_destroy q_view_def)
        have p0: "parts (staging s0) = parts (staging s)" by (rule q_view_eq(1) [OF q])
        have "sys_inv cfg D ?s'" using K(1) [of cfg D] S lease_destroy(4) [of cfg D from_isr s1] by blast
        moreover have "staging_fresh n (staging ?s')" using K(6) [of n] q_view_eq(3) [OF q2, of n] S by blast
        moreover have "submit_effect target e r s ?s'"
        proof -
          have "pool_world ?s' = pool_world s1" "ao_registry ?s' = ao_registry s1" "parts (staging ?s') = parts (staging s1)"
              "admission_word (staging ?s') = admission_word (staging s1) - 1"
            using K(2-5) q_view_eq(1) [OF q2] by (simp_all add: lease_destroy)
          moreover have "pool_world s0 = pool_world s" "ao_registry s0 = ao_registry s" "admission_word (staging s0) - 1 = admission_word (staging s)"
            by (simp_all add: s0_def w1)
          ultimately show ?thesis using conjunct2 [OF conjunct2 [OF S]] p0 unfolding submit_effect_def
            by (simp only: simp_thms) (elim conjE, assumption)
        qed
        ultimately show ?thesis by blast
      qed
    qed
  qed
qed

end
