(* ===== verification/Dispatcher_Properties.thy ===== *)
theory Dispatcher_Properties
  imports Dispatcher Submit_Properties
begin

text \<open>
  Correctness of the dispatcher and of its composition with the submit pipeline: every
  reference handed to a submit is released exactly once, whatever mixture of direct
  dispatches, queued dispatches, lease conflicts, rejections and shutdown drain it meets; the
  pending counters return to zero; and the shutdown drain ends with empty queues.
\<close>

section \<open>The reclaimer of a board profile\<close>

fun rec_inv :: "Reclaimer \<Rightarrow> PoolWorld \<Rightarrow> (nat \<Rightarrow> nat list) \<Rightarrow> bool" where
  "rec_inv ImmediateReclaimer w P = (P = (\<lambda>_. []))"
| "rec_inv (BatchReclaimer b) w P = batch_inv b w P"

interpretation profile: reclaimer reclaim_release id reclaim_flush rec_inv
proof unfold_locales
  fix w F P e r i and s :: Reclaimer
  assume a: "world_inv w F P" "rec_inv s w P" "live w F P e r i"
  show "\<exists>s' w' F' P'. reclaim_release e s w = Some (s', w') \<and> world_inv w' F' P' \<and> rec_inv s' w' P'
      \<and> live_map w' F' P' = spec_gc e (live_map w F P) \<and> world_frame w w'"
  proof (cases s)
    case ImmediateReclaimer
    then show ?thesis using immediate.rel_live [OF a(1) _ a(3)] a(2)
      by (force simp: immediate_release_def)
  next
    case (BatchReclaimer b)
    then obtain b' w' F' P' where "batcher_release e b w = Some (b', w')" "world_inv w' F' P'" "batch_inv b' w' P'"
        "live_map w' F' P' = spec_gc e (live_map w F P)" "world_frame w w'"
      using batched.rel_live [OF a(1) _ a(3), of b] a(2) by auto
    then show ?thesis using BatchReclaimer by (intro exI [of _ "BatchReclaimer b'"]) auto
  qed
next
  fix w e and s :: Reclaimer
  assume "static_event w e"
  then show "reclaim_release e s w = Some (s, w)"
    using batched.rel_static by (cases s) (auto simp: event_gc_static)
next
  fix w F P and s :: Reclaimer
  assume a: "world_inv w F P" "rec_inv s w P"
  show "\<exists>s' w' F'. reclaim_flush s w = (s', w') \<and> world_inv w' F' (\<lambda>_. []) \<and> rec_inv s' w' (\<lambda>_. [])
      \<and> live_map w' F' (\<lambda>_. []) = live_map w F P \<and> world_frame w w'"
  proof (cases s)
    case ImmediateReclaimer
    then show ?thesis using a by (auto simp: world_frame_refl)
  next
    case (BatchReclaimer b)
    then show ?thesis using batched.flush_all [OF a(1), of b] a(2) by force
  qed
qed simp

lemma rec_inv_new: "rec_inv (reclaimer_new prof cfg) w (\<lambda>_. [])"
proof (cases prof)
  case HostSmpProfile
  have "unat (reclaimer_pool_capacity cfg) < 256"
    by (simp add: reclaimer_pool_capacity_def Let_def kMaxEventPools_def word_less_nat_alt)
  then show ?thesis using HostSmpProfile batch_inv_init by simp
qed simp

section \<open>Accounting for references\<close>

lemma spec_gc_commute: "spec_gc a (spec_gc b L) = spec_gc b (spec_gc a L)"
  by (cases "a = b") (auto simp: spec_gc_def fun_upd_twist split: option.splits)

lemma fold_spec_gc_mset: "mset xs = mset ys \<Longrightarrow> fold spec_gc xs L = fold spec_gc ys L"
  using fold_permuted_eq [where P = "\<lambda>_. True" and f = spec_gc and xs = xs and ys = ys and z = L]
  by (metis spec_gc_commute)

text \<open>The events of the slots in staging and in the hands D of the dispatcher.\<close>
definition held_events :: "StagingSlot list \<Rightarrow> ('c, 'p) Sys \<Rightarrow> nat list" where
  "held_events D s = map slot_event (slots (staging s) @ D)"

text \<open>
  The references in the hands X of the clients and those of the held events are all there, and
  T is the map of live events once each of them has been released.
\<close>
definition accounts ::
    "Reclaimer \<Rightarrow> nat list \<Rightarrow> StagingSlot list \<Rightarrow> (nat \<Rightarrow> Event option) \<Rightarrow> ('c, 'p) Sys \<Rightarrow> bool" where
  "accounts r X D T s \<longleftrightarrow> (\<exists>F P. world_inv (pool_world s) F P \<and> rec_inv r (pool_world s) P
     \<and> releasable (pool_world s) (live_map (pool_world s) F P) (X @ held_events D s)
     \<and> fold spec_gc (X @ held_events D s) (live_map (pool_world s) F P) = T)"

lemma accountsI:
  assumes "world_inv (pool_world s) F P" "rec_inv r (pool_world s) P" "live_map (pool_world s) F P = L"
    "releasable (pool_world s) L (X @ held_events D s)" "fold spec_gc (X @ held_events D s) L = T"
  shows "accounts r X D T s"
  using assms unfolding accounts_def by blast

lemma held_events_world [simp]: "held_events D (s\<lparr>pool_world := w\<rparr>) = held_events D s"
  by (simp add: held_events_def)

lemma releasable_frame:
  assumes "releasable w L es" "world_frame w w'"
  shows "releasable w' L es"
  unfolding releasable_def
proof
  fix e assume "e \<in> set es"
  then have "case L e of None \<Rightarrow> static_event w e | Some ev \<Rightarrow> count_list es e \<le> unat (ref_ctr ev)"
    using assms(1) unfolding releasable_def by blast
  then show "case L e of None \<Rightarrow> static_event w' e | Some ev \<Rightarrow> count_list es e \<le> unat (ref_ctr ev)"
    using world_frame_same(5) [OF assms(2)] by (cases "L e") simp_all
qed

lemma accounts_cong:
  assumes "accounts r X D T s" "pool_world s' = pool_world s"
    and m: "mset (X' @ held_events D' s') = mset (X @ held_events D s)"
  shows "accounts r X' D' T s'"
  using assms(1) releasable_mset [OF _ m] fold_spec_gc_mset [OF m] unfolding accounts_def assms(2) by metis

lemma accounts_release:
  assumes "accounts r (e # X) D T s"
  shows "\<exists>r' w'. reclaim_release e r (pool_world s) = Some (r', w') \<and> accounts r' X D T (s\<lparr>pool_world := w'\<rparr>)"
proof -
  let ?es = "X @ held_events D s"
  obtain F P where a: "world_inv (pool_world s) F P" "rec_inv r (pool_world s) P"
      "releasable (pool_world s) (live_map (pool_world s) F P) (e # ?es)"
      "fold spec_gc ?es (spec_gc e (live_map (pool_world s) F P)) = T" using assms by (auto simp: accounts_def)
  have "event_ok (pool_world s) F P e" using releasable_event_ok [OF a(3)] by simp
  then obtain r' w' F' P' where r: "reclaim_release e r (pool_world s) = Some (r', w')" "world_inv w' F' P'" "rec_inv r' w' P'"
      "live_map w' F' P' = spec_gc e (live_map (pool_world s) F P)" "world_frame (pool_world s) w'"
    using profile.rel_event_ok [OF a(1,2)] by blast
  have "accounts r' X D T (s\<lparr>pool_world := w'\<rparr>)"
    using a(4) releasable_gc [OF a(3) r(5)] by (intro accountsI [of _ F' P']) (simp_all add: r(2,3,4))
  then show ?thesis using r(1) by blast
qed

lemma accounts_gc:
  assumes "accounts ImmediateReclaimer (e # X) D T s"
  shows "\<exists>w'. event_gc e (pool_world s) = Some w' \<and> accounts ImmediateReclaimer X D T (s\<lparr>pool_world := w'\<rparr>)"
  using accounts_release [OF assms] by auto

lemma accounts_flush:
  assumes "accounts r X D T s"
  shows "accounts ImmediateReclaimer X D T (sys_flush r s)"
proof -
  obtain F P where a: "world_inv (pool_world s) F P" "rec_inv r (pool_world s) P"
      "releasable (pool_world s) (live_map (pool_world s) F P) (X @ held_events D s)"
      "fold spec_gc (X @ held_events D s) (live_map (pool_world s) F P) = T" using assms by (auto simp: accounts_def)
  obtain r' w' F' where r: "reclaim_flush r (pool_world s) = (r', w')" "world_inv w' F' (\<lambda>_. [])"
      "live_map w' F' (\<lambda>_. []) = live_map (pool_world s) F P" "world_frame (pool_world s) w'"
    using profile.flush_all [OF a(1,2)] by blast
  show ?thesis using a(4) releasable_frame [OF a(3) r(4)]
    by (intro accountsI [of _ F' "\<lambda>_. []"]) (simp_all add: sys_flush_def r(1,2,3))
qed

lemma accounts_new: "accounts ImmediateReclaimer X D T s \<Longrightarrow> accounts (reclaimer_new prof cfg) X D T s"
  unfolding accounts_def rec_inv.simps(1) using rec_inv_new [of prof cfg] by blast

section \<open>One slot\<close>

text \<open>What the dispatcher leaves of staging and of the registry while it works on a slot.\<close>
definition kept :: "('c, 'p) Sys \<Rightarrow> ('c, 'p) Sys \<Rightarrow> bool" where
  "kept s s' \<longleftrightarrow> q_view (staging s') = q_view (staging s) \<and> admission_word (staging s') = admission_word (staging s)
     \<and> ao_registry s' = ao_registry s"

lemma kept_refl [simp]: "kept s s" "kept s (s\<lparr>pool_world := w\<rparr>)" "kept s (set_ao a ao s)"
  by (simp_all add: kept_def set_ao_def)

lemma kept_trans: "kept s t \<Longrightarrow> kept t u \<Longrightarrow> kept s u"
  by (simp add: kept_def)

lemma run_kept: "run_step s s' \<Longrightarrow> kept s s'"
  by (simp add: run_step_def kept_def view_def)

lemma kept_held: "kept s s' \<Longrightarrow> held_events D s' = held_events D s"
  using q_view_eq(1) [of "staging s'" "staging s"] by (simp add: kept_def held_events_def slots_def)

lemma accounts_kept: "\<lbrakk>accounts r X D T s; pool_world s' = pool_world s; kept s s'\<rbrakk> \<Longrightarrow> accounts r X D T s'"
  using accounts_cong kept_held by metis

lemma accounts_hand: "accounts r X (x # D) T s \<Longrightarrow> accounts r (slot_event x # X) D T s"
  using accounts_cong [of r X "x # D" T s s "slot_event x # X" D] by (simp add: held_events_def)

lemma sys_inv_run: "\<lbrakk>sys_inv cfg D s; run_step s s'\<rbrakk> \<Longrightarrow> sys_inv cfg D s'"
  using sys_inv_view sys_invD(2) unfolding run_step_def by metis

lemma sys_inv_world [simp]: "sys_inv cfg D (s\<lparr>pool_world := w\<rparr>) = sys_inv cfg D s"
  by (simp add: sys_inv_def ok_aos_def)

lemma sys_inv_unbound:
  assumes "sys_inv cfg (x # D) s" "registry_lookup (ao_registry s) (slot_target x) = None"
  shows "sys_inv cfg D s"
  using assms unfolding sys_inv_def by simp

lemma release_pending_sys:
  assumes inv: "sys_inv cfg (x # D) s" and lk: "registry_lookup (ao_registry s) (slot_target x) = Some ao"
  shows "\<exists>s'. release_pending ao s = Some s' \<and> sys_inv cfg D s' \<and> kept s s' \<and> pool_world s' = pool_world s"
proof -
  let ?n = "pending_ctr (aos s ao)" and ?s' = "set_ao ao ((aos s ao)\<lparr>pending_ctr := pending_ctr (aos s ao) - 1\<rparr>) s"
  have n: "unat (pending_ctr (aos s a)) = backlog (ao_registry s) (slots (staging s)) a + (if a = ao then 1 else 0) + backlog (ao_registry s) D a" for a
    using sys_invD(4) [OF inv, of a] lk by simp
  then have pos: "0 < unat ?n" by simp
  then have "release_pending ao s = Some ?s'" by (simp add: release_pending_def pending_decrement_def word_less_nat_alt)
  moreover have "unat (pending_ctr (aos ?s' a)) = backlog (ao_registry s) (slots (staging s) @ D) a" for a
    using n [of a] pos by (cases "a = ao") (simp_all add: set_ao_def unat_dec)
  then have "sys_inv cfg D ?s'" using sys_invD(1,2,3,5) [OF inv] by (auto simp: sys_inv_def set_ao_def ok_aos_def ao_ok_def)
  ultimately show ?thesis by (simp add: set_ao_def kept_def)
qed

lemma sys_release_ok:
  assumes "accounts r (slot_event x # X) D T s"
  shows "\<exists>r' s'. sys_release (slot_event x) r s = Some (r', s') \<and> accounts r' X D T s' \<and> kept s s' \<and> (\<forall>D'. sys_inv cfg D' s' = sys_inv cfg D' s)"
  using accounts_release [OF assms] by (auto simp: sys_release_def)

lemma try_dispatch_slot_ok:
  assumes inv: "sys_inv cfg (x # D) s" and acc: "accounts r X (x # D) T s"
  shows "\<exists>ok r' s'. try_dispatch_slot env x r s = Some (ok, r', s') \<and> kept s s'
    \<and> sys_inv cfg (if ok then D else x # D) s' \<and> accounts r' X (if ok then D else x # D) T s'"
proof (cases "registry_lookup (ao_registry s) (slot_target x)")
  case None
  obtain r' s' where "sys_release (slot_event x) r s = Some (r', s')" "accounts r' X D T s'" "kept s s'" "sys_inv cfg D s'"
    using sys_release_ok [OF accounts_hand [OF acc]] sys_inv_unbound [OF inv None] by metis
  then show ?thesis using None by (intro exI [of _ True]) (simp add: try_dispatch_slot_def)
next
  case (Some ao)
  let ?t = "slot_target x"
  obtain b where b: "target_breaker (breaker_bank s) ?t = Some b" using bound_breaker [OF Some sys_invD(3) [OF inv]] by blast
  obtain t0 s1 where m: "monotonic_ns env s = (t0, s1)" by fastforce
  have q1: "run_step s s1" by (rule run_quiet [OF quiet_monotonic [OF m]])
  have inv1: "sys_inv cfg (x # D) s1" by (rule sys_inv_run [OF inv q1])
  have lk1: "registry_lookup (ao_registry s1) ?t = Some ao" using Some run_kept [OF q1] by (simp add: kept_def)
  from run_dispatch [OF sys_invD(2) [OF inv1] lookup_bound [OF lk1], of RunningDispatcher "event_at (pool_world s1) (slot_event x)" env "clock_reads s1"]
  obtain taken ao1 where d: "try_dispatch_queued (event_at (pool_world s1) (slot_event x)) (rival_acts env (clock_reads s1) (aos s1 ao)) = Some (taken, ao1)"
      "run_step s1 (set_ao ao ao1 s1)" unfolding try_dispatch_queued_def by auto
  have r2: "run_step s (set_ao ao ao1 s1)" by (rule run_trans [OF q1 d(2)])
  show ?thesis
  proof (cases taken)
    case False
    then have "try_dispatch_slot env x r s = Some (False, r, set_ao ao ao1 s1)"
      using Some b m d(1) by (simp add: try_dispatch_slot_def)
    then show ?thesis using sys_inv_run [OF inv r2] run_kept [OF r2] accounts_kept [OF acc _ run_kept [OF r2]] r2
      by (intro exI [of _ False]) (simp add: run_step_def)
  next
    case True
    obtain t1 s3 where m3: "monotonic_ns env (set_ao ao ao1 s1) = (t1, s3)" by fastforce
    let ?f = "if t1 - t0 > ao_rtc_budget_ns (aos s3 ao) then on_dispatcher_rtc_timeout else on_rtc_ok"
    obtain s4 where s4: "sys_breaker ?f ?t s3 = Some s4" "quiet_step s3 s4" using quiet_breaker by blast
    have r4: "run_step s s4" by (rule run_trans [OF r2 run_trans [OF run_quiet [OF quiet_monotonic [OF m3]] run_quiet [OF s4(2)]]])
    have lk4: "registry_lookup (ao_registry s4) ?t = Some ao" using Some run_kept [OF r4] by (simp add: kept_def)
    obtain s5 where s5: "release_pending ao s4 = Some s5" "sys_inv cfg D s5" "kept s4 s5" "pool_world s5 = pool_world s4"
      using release_pending_sys [OF sys_inv_run [OF inv r4] lk4] by blast
    let ?s6 = "sys_monitor (record_pending ?t (pending_ctr (aos s5 ao))) s5"
    obtain s7 where s7: "sys_breaker on_dispatch_cycle ?t ?s6 = Some s7" "quiet_step ?s6 s7" using quiet_breaker by blast
    let ?s8 = "sys_monitor (record_disposition Queued) s7"
    have q8: "run_step s5 ?s8" by (rule run_quiet [OF quiet_trans [OF quiet_simps(6) quiet_trans [OF s7(2) quiet_simps(6)]]])
    have k8: "kept s ?s8" by (rule kept_trans [OF run_kept [OF r4] kept_trans [OF s5(3) run_kept [OF q8]]])
    have p8: "pool_world ?s8 = pool_world s" using r4 s5(4) q8 by (simp add: run_step_def)
    obtain r' s' where "sys_release (slot_event x) r ?s8 = Some (r', s')" "accounts r' X D T s'" "kept ?s8 s'" "sys_inv cfg D s'"
      using sys_release_ok [OF accounts_kept [OF accounts_hand [OF acc] p8 k8]] sys_inv_run [OF s5(2) q8] by metis
    moreover have "try_dispatch_slot env x r s = Option.bind (sys_release (slot_event x) r ?s8) (\<lambda>(r1, s9). Some (True, r1, s9))"
      using Some b m d(1) True m3 s4(1) s5(1) s7(1) by (simp add: try_dispatch_slot_def Let_def)
    ultimately show ?thesis using kept_trans [OF k8] by auto
  qed
qed

section \<open>Taking slots out\<close>

text \<open>What a pass leaves as it was apart from the slots it takes.\<close>
definition still :: "('c, 'p) Sys \<Rightarrow> ('c, 'p) Sys \<Rightarrow> bool" where
  "still s s' \<longleftrightarrow> (\<forall>n. staging_fresh n (staging s) \<longrightarrow> staging_fresh n (staging s'))
     \<and> admission_word (staging s') = admission_word (staging s) \<and> ao_registry s' = ao_registry s"

lemma still_refl [simp]: "still s s" by (simp add: still_def)

lemma still_trans: "still s t \<Longrightarrow> still t u \<Longrightarrow> still s u" by (simp add: still_def)

lemma kept_still: "kept s s' \<Longrightarrow> still s s'"
  using q_view_eq(3) [of "staging s'" "staging s"] by (auto simp: kept_def still_def)

lemma kept_slots: "kept s s' \<Longrightarrow> slots (staging s') = slots (staging s) \<and> batch_used (staging s') = batch_used (staging s)"
  using q_view_eq(1,4) [of "staging s'" "staging s"] by (simp add: kept_def slots_def)

lemma slots_Nil: "slots sg = [] \<longleftrightarrow> (\<forall>p. parts sg p = [])"
  by (auto simp: slots_def) (metis Partition.exhaust)

lemma pick_None: "pick cfg now sg = None \<longleftrightarrow> batch_used sg \<ge> kBatchSizeMax cfg \<or> slots sg = []"
  by (auto simp: pick_def slots_def)

lemma take_ok:
  assumes inv: "sys_inv cfg D s" and acc: "accounts r X D T s"
  shows "\<exists>out sg. dequeue_one cfg now (staging s) = Some (out, sg) \<and> still s (s\<lparr>staging := sg\<rparr>)
    \<and> sys_inv cfg (case out of None \<Rightarrow> D | Some x \<Rightarrow> x # D) (s\<lparr>staging := sg\<rparr>)
    \<and> accounts r X (case out of None \<Rightarrow> D | Some x \<Rightarrow> x # D) T (s\<lparr>staging := sg\<rparr>)
    \<and> (case out of
         None \<Rightarrow> slots sg = slots (staging s) \<and> (batch_used (staging s) \<ge> kBatchSizeMax cfg \<or> slots sg = [])
       | Some x \<Rightarrow> mset (slots (staging s)) = add_mset x (mset (slots sg)))"
proof -
  let ?sg = "staging s" and ?p = "pick cfg now (staging s)"
  obtain sg where d: "dequeue_one cfg now ?sg = Some (map_option (\<lambda>p. hd (parts ?sg p)) ?p, sg)" "dequeued cfg now ?sg sg"
    using dequeue_correct [OF sys_invD(1) [OF inv]] by blast
  have st: "still s (s\<lparr>staging := sg\<rparr>)" using d(2) by (simp add: dequeued_def still_def sg_rest_def)
  have iv: "staging_inv cfg sg" and P: "parts sg p = (if ?p = Some p then tl (parts ?sg p) else parts ?sg p)" for p
    using d(2) by (simp_all add: dequeued_def)
  show ?thesis
  proof (cases ?p)
    case None
    then have e: "parts sg = parts ?sg" using P by auto
    have "sys_inv cfg D (s\<lparr>staging := sg\<rparr>)" using inv iv unfolding sys_inv_def by (simp add: e slots_def ok_aos_def)
    moreover have "accounts r X D T (s\<lparr>staging := sg\<rparr>)" by (rule accounts_cong [OF acc]) (simp_all add: held_events_def slots_def e)
    moreover have "slots sg = slots ?sg" by (simp add: slots_def e)
    ultimately show ?thesis using d(1) None st pick_None [of cfg now ?sg] by auto
  next
    case (Some p)
    let ?x = "hd (parts ?sg p)"
    have p: "parts ?sg p = ?x # tl (parts ?sg p)" using pick_nonempty [OF Some] by simp
    have m: "mset (slots ?sg) = add_mset ?x (mset (slots sg))"
      using P [of PHigh] P [of PNormal] P [of PLow] Some p by (cases p) (simp_all add: slots_def, (metis mset.simps(2) union_mset_add_mset_left union_mset_add_mset_right)+)
    have b: "backlog (ao_registry s) (slots ?sg @ D) a = backlog (ao_registry s) (slots sg @ ?x # D) a" for a
      by (rule backlog_mset) (simp add: m)
    have sub: "y \<in> set (parts ?sg p')" if "y \<in> set (parts sg p')" for y p'
      using that P [of p'] by (cases "parts ?sg p'") (auto split: if_splits)
    have "sys_inv cfg (?x # D) (s\<lparr>staging := sg\<rparr>)"
      using sys_invD [OF inv] iv b sub unfolding sys_inv_def ok_aos_def by simp blast
    moreover have "accounts r X (?x # D) T (s\<lparr>staging := sg\<rparr>)" by (rule accounts_cong [OF acc]) (simp_all add: held_events_def m)
    ultimately show ?thesis using d(1) Some st m by auto
  qed
qed

section \<open>A pass\<close>

definition hand :: "('c, 'p) Disp \<Rightarrow> StagingSlot list" where
  "hand d = (case deferred d of None \<Rightarrow> [] | Some x \<Rightarrow> [x])"

lemma hand_simps [simp]:
  "hand (d\<lparr>d_sys := s\<rparr>) = hand d" "hand (d\<lparr>stop_reads := n\<rparr>) = hand d" "length (hand d) \<le> 1"
  "hand (d\<lparr>deferred := o'\<rparr>) = (case o' of None \<Rightarrow> [] | Some x \<Rightarrow> [x])"
  by (simp_all add: hand_def split: option.split)

text \<open>The dispatcher between two of its operations.\<close>
definition disp_inv :: "Config \<Rightarrow> Reclaimer \<Rightarrow> nat list \<Rightarrow> (nat \<Rightarrow> Event option) \<Rightarrow> ('c, 'p) Disp \<Rightarrow> bool" where
  "disp_inv cfg r X T d \<longleftrightarrow> sys_inv cfg (hand d) (d_sys d) \<and> accounts r X (hand d) T (d_sys d)"

lemma disp_inv_reads [simp]: "disp_inv cfg r X T (d\<lparr>stop_reads := n\<rparr>) = disp_inv cfg r X T d"
  by (simp add: disp_inv_def)

lemma disp_inv_kept:
  assumes "disp_inv cfg r X T d" "run_step (d_sys d) s"
  shows "disp_inv cfg r X T (d\<lparr>d_sys := s\<rparr>)" "still (d_sys d) s"
  using assms sys_inv_run [OF _ assms(2)] accounts_kept [OF _ _ run_kept [OF assms(2)]] kept_still [OF run_kept [OF assms(2)]]
  by (auto simp: disp_inv_def run_step_def)

lemma batch_loop_ok:
  assumes "disp_inv cfg r X T d" "deferred d = None" "env_cfg env = cfg"
  shows "\<exists>any' r' d'. batch_loop env stop r any d = Some (any', r', d') \<and> disp_inv cfg r' X T d' \<and> still (d_sys d) (d_sys d')
    \<and> stop_reads d \<le> stop_reads d'"
  using assms(1,2)
proof (induction "length (slots (staging (d_sys d)))" arbitrary: d r any rule: less_induct)
  case less
  note inv = less.prems(1)
  let ?d1 = "d\<lparr>stop_reads := Suc (stop_reads d)\<rparr>" and ?s = "d_sys d"
  show ?case
  proof (cases "stop (stop_reads d) \<or> \<not> batch_used (staging ?s) < kBatchSizeMax cfg")
    case True
    then show ?thesis using inv assms(3) by (subst batch_loop.simps) (auto simp: read_stop_def)
  next
    case False
    obtain now s1 where m: "monotonic_ns env ?s = (now, s1)" by fastforce
    have q1: "run_step ?s s1" by (rule run_quiet [OF quiet_monotonic [OF m]])
    note k1 = disp_inv_kept [OF inv q1] and e1 = kept_slots [OF run_kept [OF q1]]
    have h: "hand d = []" using less.prems(2) by (simp add: hand_def)
    have "sys_inv cfg [] s1" "accounts r X [] T s1" using k1(1) h by (simp_all add: disp_inv_def)
    note T = take_ok [OF this, of now]
    obtain out sg where t: "dequeue_one cfg now (staging s1) = Some (out, sg)" "still s1 (s1\<lparr>staging := sg\<rparr>)"
        "sys_inv cfg (case out of None \<Rightarrow> [] | Some x \<Rightarrow> [x]) (s1\<lparr>staging := sg\<rparr>)"
        "accounts r X (case out of None \<Rightarrow> [] | Some x \<Rightarrow> [x]) T (s1\<lparr>staging := sg\<rparr>)"
        and t5: "case out of
          None \<Rightarrow> slots sg = slots (staging s1) \<and> (batch_used (staging s1) \<ge> kBatchSizeMax cfg \<or> slots sg = [])
        | Some x \<Rightarrow> mset (slots (staging s1)) = add_mset x (mset (slots sg))" using T by (elim exE conjE) (rule that)
    let ?s2 = "s1\<lparr>staging := sg\<rparr>"
    have st: "still ?s ?s2" by (rule still_trans [OF k1(2) t(2)])
    show ?thesis
    proof (cases out)
      case None
      then have "batch_loop env stop r any d = Some (any, r, ?d1\<lparr>d_sys := ?s2\<rparr>)"
        using False m t(1) assms(3) by (subst batch_loop.simps) (simp add: read_stop_def)
      then show ?thesis using t(3,4) None st h by (simp add: disp_inv_def)
    next
      case (Some x)
      then have ia: "sys_inv cfg [x] ?s2" "accounts r X [x] T ?s2" using t(3,4) by simp_all
      obtain ok r1 s3 where d: "try_dispatch_slot env x r ?s2 = Some (ok, r1, s3)" "kept ?s2 s3"
          "sys_inv cfg (if ok then [] else [x]) s3" "accounts r1 X (if ok then [] else [x]) T s3"
        using try_dispatch_slot_ok [OF ia] by blast
      have st3: "still ?s s3" by (rule still_trans [OF st kept_still [OF d(2)]])
      have e: "batch_loop env stop r any d = (if \<not> ok then Some (True, r1, ?d1\<lparr>d_sys := s3, deferred := Some x\<rparr>)
          else batch_loop env stop r1 True (?d1\<lparr>d_sys := s3\<rparr>))"
        using False m t(1) assms(3) Some d(1) by (subst batch_loop.simps) (simp add: read_stop_def)
      show ?thesis
      proof (cases ok)
        case False
        let ?d = "?d1\<lparr>d_sys := s3, deferred := Some x\<rparr>"
        have "batch_loop env stop r any d = Some (True, r1, ?d)" unfolding e if_P [OF False] ..
        moreover have "disp_inv cfg r1 X T ?d" using False d(3,4) by (simp add: disp_inv_def)
        moreover have "still ?s (d_sys ?d)" "stop_reads d \<le> stop_reads ?d" using st3 by simp_all
        ultimately show ?thesis by blast
      next
        case True
        have "mset (slots (staging s1)) = add_mset x (mset (slots sg))" using t5 Some by simp
        from arg_cong [OF this, of size] have "length (slots (staging s1)) = Suc (length (slots sg))" by simp
        then have "length (slots (staging s3)) < length (slots (staging ?s))" using kept_slots [OF d(2)] e1 by simp
        moreover have "disp_inv cfg r1 X T (?d1\<lparr>d_sys := s3\<rparr>)" using True d(3,4) h by (simp add: disp_inv_def)
        ultimately obtain any' r' d' where "batch_loop env stop r1 True (?d1\<lparr>d_sys := s3\<rparr>) = Some (any', r', d')"
            "disp_inv cfg r' X T d'" "still s3 (d_sys d')" "Suc (stop_reads d) \<le> stop_reads d'"
          using less.hyps [of "?d1\<lparr>d_sys := s3\<rparr>" r1 True] less.prems(2) by auto
        then show ?thesis using e True still_trans [OF st3] by auto
      qed
    qed
  qed
qed

lemma run_deferred_ok:
  assumes "disp_inv cfg r X T d"
  shows "\<exists>ready r' d'. run_deferred env r d = Some (ready, r', d') \<and> disp_inv cfg r' X T d' \<and> still (d_sys d) (d_sys d')
    \<and> (ready \<longrightarrow> deferred d' = None) \<and> stop_reads d' = stop_reads d"
proof (cases "deferred d")
  case None
  then show ?thesis using assms by (intro exI [of _ True] exI [of _ r] exI [of _ d]) (simp add: run_deferred_def)
next
  case (Some x)
  let ?s = "sys_staging arm_dispatcher_wait (d_sys d)"
  have q: "run_step (d_sys d) ?s"
    by (rule run_quiet) (simp add: quiet_step_def sys_staging_def arm_dispatcher_wait_def view_def q_view_def)
  have "sys_inv cfg [x] ?s" "accounts r X [x] T ?s"
    using disp_inv_kept(1) [OF assms q] Some by (simp_all add: disp_inv_def hand_def)
  from try_dispatch_slot_ok [OF this] obtain ok r' s' where d: "try_dispatch_slot env x r ?s = Some (ok, r', s')" "kept ?s s'"
      "sys_inv cfg (if ok then [] else [x]) s'" "accounts r' X (if ok then [] else [x]) T s'" by blast
  have "still (d_sys d) s'" by (rule still_trans [OF disp_inv_kept(2) [OF assms q] kept_still [OF d(2)]])
  moreover have "disp_inv cfg r' X T (d\<lparr>d_sys := s', deferred := (if ok then None else Some x)\<rparr>)"
    using d(3,4) by (cases ok) (simp_all add: disp_inv_def)
  ultimately show ?thesis using Some d(1) by (intro exI [of _ ok] exI [of _ r']) (simp add: run_deferred_def)
qed

lemma disp_flush:
  assumes "disp_inv cfg r X T d"
  shows "disp_inv cfg ImmediateReclaimer X T (d\<lparr>d_sys := sys_flush r (d_sys d)\<rparr>)" "still (d_sys d) (sys_flush r (d_sys d))"
  using assms accounts_flush [of r X "hand d" T "d_sys d"] by (simp_all add: disp_inv_def sys_flush_def still_def)

lemma disp_new: "disp_inv cfg ImmediateReclaimer X T d \<Longrightarrow> disp_inv cfg (reclaimer_new prof c) X T d"
  using accounts_new by (auto simp: disp_inv_def)

lemma finish_pass_ok:
  assumes "disp_inv cfg ImmediateReclaimer X T d"
  shows "\<exists>d'. finish_pass prof env any d = Some d' \<and> disp_inv cfg ImmediateReclaimer X T d' \<and> still (d_sys d) (d_sys d')
    \<and> stop_reads d' = stop_reads d"
proof (cases "deferred d")
  case None
  let ?s = "sys_staging arm_dispatcher_wait ((d_sys d)\<lparr>breaker_bank := broadcast_dispatch_cycle (breaker_bank (d_sys d))\<rparr>)"
  have "run_step (d_sys d) ?s"
    by (rule run_quiet) (simp add: quiet_step_def sys_staging_def arm_dispatcher_wait_def view_def q_view_def
        broadcast_dispatch_cycle_def bank_for_each_def)
  from disp_inv_kept [OF assms this] show ?thesis using assms None by (cases any) (simp_all add: finish_pass_def)
next
  case (Some x)
  obtain ready r' d' where "run_deferred env (reclaimer_new prof (env_cfg env)) d = Some (ready, r', d')"
      "disp_inv cfg r' X T d'" "still (d_sys d) (d_sys d')" "stop_reads d' = stop_reads d"
    using run_deferred_ok [OF disp_new [OF assms]] by blast
  note d = this
  let ?d = "d'\<lparr>d_sys := sys_flush r' (d_sys d')\<rparr>"
  have "finish_pass prof env any d = Some ?d" using Some d(1) by (simp add: finish_pass_def)
  then show ?thesis using disp_flush(1) [OF d(2)] still_trans [OF d(3) disp_flush(2) [OF d(2)]]
      d(4) by (intro exI [of _ ?d]) simp
qed

lemma sys_inv_begin: "sys_inv cfg D (sys_staging begin_batch s) = sys_inv cfg D s"
  by (simp add: sys_inv_def ok_aos_def sys_staging_def begin_batch_def slots_def)

lemma accounts_begin: "accounts r X D T s \<Longrightarrow> accounts r X D T (sys_staging begin_batch s)"
  by (erule accounts_cong) (simp_all add: sys_staging_def begin_batch_def slots_def held_events_def)

lemma still_begin: "still s (sys_staging begin_batch s)"
  by (simp add: still_def sys_staging_def begin_batch_def)

lemma disp_begin:
  assumes "disp_inv cfg r X T d"
  shows "disp_inv cfg r X T (d\<lparr>d_sys := sys_staging begin_batch (d_sys d)\<rparr>)"
    "still (d_sys d) (d_sys (d\<lparr>d_sys := sys_staging begin_batch (d_sys d)\<rparr>))"
  using assms accounts_begin [of r X "hand d" T "d_sys d"] by (simp_all add: disp_inv_def sys_inv_begin still_begin)

lemma run_pass_ok:
  assumes inv: "disp_inv cfg ImmediateReclaimer X T d" and cfg: "env_cfg env = cfg"
  shows "\<exists>left d'. run_pass prof env stop d = Some (left, d') \<and> disp_inv cfg ImmediateReclaimer X T d' \<and> still (d_sys d) (d_sys d')
    \<and> stop_reads d \<le> stop_reads d'"
proof -
  let ?d0 = "d\<lparr>d_sys := sys_staging begin_batch (d_sys d)\<rparr>"
  note i0 = disp_begin [OF inv]
  obtain ready r d1 where d1: "run_deferred env (reclaimer_new prof (env_cfg env)) ?d0 = Some (ready, r, d1)"
      "disp_inv cfg r X T d1" "still (d_sys ?d0) (d_sys d1)" "ready \<longrightarrow> deferred d1 = None" "stop_reads d1 = stop_reads d"
    using run_deferred_ok [OF disp_new [OF i0(1)]] by fastforce
  have st1: "still (d_sys d) (d_sys d1)" by (rule still_trans [OF i0(2) d1(3)])
  show ?thesis
  proof (cases ready)
    case False
    let ?d = "d1\<lparr>d_sys := sys_flush r (d_sys d1)\<rparr>"
    have "run_pass prof env stop d = Some (False, ?d)" using False d1(1) by (simp add: run_pass_def)
    then show ?thesis using disp_flush(1) [OF d1(2)] still_trans [OF st1 disp_flush(2) [OF d1(2)]]
        d1(5) by (intro exI [of _ False] exI [of _ ?d]) simp
  next
    case True
    then obtain any r1 d2 where d2: "batch_loop env stop r (deferred d \<noteq> None) d1 = Some (any, r1, d2)"
        "disp_inv cfg r1 X T d2" "still (d_sys d1) (d_sys d2)" "stop_reads d1 \<le> stop_reads d2" using batch_loop_ok [OF d1(2) _ cfg] d1(4) by blast
    let ?d3 = "(d2\<lparr>d_sys := sys_flush r1 (d_sys d2)\<rparr>)\<lparr>stop_reads := Suc (stop_reads d2)\<rparr>"
    have i3: "disp_inv cfg ImmediateReclaimer X T ?d3" "still (d_sys d) (d_sys ?d3)"
      using disp_flush(1) [OF d2(2)] still_trans [OF st1 still_trans [OF d2(3) disp_flush(2) [OF d2(2)]]] by simp_all
    obtain d4 where d4: "finish_pass prof env any ?d3 = Some d4" "disp_inv cfg ImmediateReclaimer X T d4" "still (d_sys ?d3) (d_sys d4)"
        "stop_reads d4 = stop_reads ?d3"
      using finish_pass_ok [OF i3(1)] by blast
    have "run_pass prof env stop d = (if stop (stop_reads d2) then Some (True, ?d3)
        else Option.bind (finish_pass prof env any ?d3) (\<lambda>d4. Some (False, d4)))"
      using True d1(1) d2(1) by (simp add: run_pass_def read_stop_def)
    moreover have "still (d_sys d) (d_sys d4)" by (rule still_trans [OF i3(2) d4(3)])
    moreover have "stop_reads d \<le> stop_reads ?d3" "stop_reads d \<le> stop_reads d4" using d1(5) d2(4) d4(4) by simp_all
    ultimately show ?thesis using i3 d4(1,2) by (cases "stop (stop_reads d2)") auto
  qed
qed

section \<open>Shutdown\<close>

lemma any_buffered_iff:
  assumes "staging_inv cfg sg"
  shows "any_buffered sg = (slots sg \<noteq> [])"
proof -
  have "(sg_size p sg \<noteq> 0) = (parts sg p \<noteq> [])" for p
    using staging_queue.size_length [OF staging_invD(1) [OF assms, of p]]
    by (auto simp: sg_size_def parts_def word_unat_eq_iff [of _ 0])
  then show ?thesis by (auto simp: any_buffered_def slots_def)
qed

text \<open>A slot that is released without dispatch.\<close>
lemma drop_slot_ok:
  assumes inv: "sys_inv cfg (x # D) s" and acc: "accounts r X (x # D) T s"
  shows "\<exists>s1. (case registry_lookup (ao_registry s) (slot_target x) of
        None \<Rightarrow> Some s
      | Some ao \<Rightarrow> release_pending ao s) = Some s1 \<and> kept s s1 \<and> sys_inv cfg D s1 \<and> accounts r (slot_event x # X) D T s1"
proof (cases "registry_lookup (ao_registry s) (slot_target x)")
  case None
  then show ?thesis using sys_inv_unbound [OF inv] accounts_hand [OF acc] by simp
next
  case (Some ao)
  then obtain s1 where "release_pending ao s = Some s1" "sys_inv cfg D s1" "kept s s1" "pool_world s1 = pool_world s"
    using release_pending_sys [OF inv] by blast
  then show ?thesis using Some accounts_kept [OF accounts_hand [OF acc]] by simp
qed

lemma drain_batch_ok:
  assumes "sys_inv cfg D s" "accounts r X D T s" "env_cfg env = cfg"
  shows "\<exists>released' r' s'. drain_batch env now r released s = Some (released', r', s')
    \<and> sys_inv cfg D s' \<and> accounts r' X D T s' \<and> still s s' \<and> length (slots (staging s')) \<le> length (slots (staging s))
    \<and> (batch_used (staging s) < kBatchSizeMax cfg \<and> slots (staging s) \<noteq> [] \<longrightarrow> length (slots (staging s')) < length (slots (staging s)))"
  using assms(1,2)
proof (induction "length (slots (staging s))" arbitrary: s r released rule: less_induct)
  case less
  note inv = less.prems(1) and acc = less.prems(2)
  show ?case
  proof (cases "batch_used (staging s) < kBatchSizeMax cfg")
    case False
    then show ?thesis using inv acc assms(3) by (subst drain_batch.simps) simp
  next
    case True
    obtain out sg where t: "dequeue_one cfg now (staging s) = Some (out, sg)" "still s (s\<lparr>staging := sg\<rparr>)"
        "sys_inv cfg (case out of None \<Rightarrow> D | Some x \<Rightarrow> x # D) (s\<lparr>staging := sg\<rparr>)"
        "accounts r X (case out of None \<Rightarrow> D | Some x \<Rightarrow> x # D) T (s\<lparr>staging := sg\<rparr>)"
        and t5: "case out of
          None \<Rightarrow> slots sg = slots (staging s) \<and> (batch_used (staging s) \<ge> kBatchSizeMax cfg \<or> slots sg = [])
        | Some x \<Rightarrow> mset (slots (staging s)) = add_mset x (mset (slots sg))"
      using take_ok [OF inv acc, of now] by (elim exE conjE) (rule that)
    let ?s1 = "s\<lparr>staging := sg\<rparr>"
    show ?thesis
    proof (cases out)
      case None
      then have "drain_batch env now r released s = Some (released, r, ?s1)"
        using True t(1) assms(3) by (subst drain_batch.simps) simp
      then show ?thesis using None t(2-4) t5 True by auto
    next
      case (Some x)
      have "sys_inv cfg (x # D) ?s1" "accounts r X (x # D) T ?s1" using t(3,4) Some by simp_all
      from drop_slot_ok [OF this] obtain s2 where s2: "(case registry_lookup (ao_registry ?s1) (slot_target x) of
          None \<Rightarrow> Some ?s1 | Some ao \<Rightarrow> release_pending ao ?s1) = Some s2" "kept ?s1 s2" "sys_inv cfg D s2"
          "accounts r (slot_event x # X) D T s2" by blast
      define s3 where "s3 = (case registry_lookup (ao_registry s) (slot_target x) of
          None \<Rightarrow> s2 | Some ao \<Rightarrow> sys_monitor (record_pending (slot_target x) (pending_ctr (aos s2 ao))) s2)"
      have q: "run_step s2 s3" unfolding s3_def by (cases "registry_lookup (ao_registry s) (slot_target x)")
        (simp_all add: run_quiet)
      have a3: "accounts r (slot_event x # X) D T s3"
        by (rule accounts_kept [OF s2(4) _ run_kept [OF q]]) (use q in \<open>simp add: run_step_def\<close>)
      obtain r1 s4 where s4: "sys_release (slot_event x) r s3 = Some (r1, s4)" "accounts r1 X D T s4" "kept s3 s4" "sys_inv cfg D s4"
        using sys_release_ok [OF a3] sys_inv_run [OF s2(3) q] by metis
      have e: "drain_batch env now r released s = drain_batch env now r1 True s4"
        using True t(1) assms(3) Some s2(1) s4(1) unfolding s3_def
        by (subst drain_batch.simps) (cases "registry_lookup (ao_registry s) (slot_target x)"; simp)
      have k: "kept ?s1 s4" by (rule kept_trans [OF s2(2) kept_trans [OF run_kept [OF q] s4(3)]])
      have "mset (slots (staging s)) = add_mset x (mset (slots sg))" using t5 Some by simp
      from arg_cong [OF this, of size] have l: "length (slots (staging s)) = Suc (length (slots sg))" by simp
      then have "length (slots (staging s4)) < length (slots (staging s))" using kept_slots [OF k] by simp
      from less.hyps [OF this s4(4,2), of True] obtain released' r' s' where
          "drain_batch env now r1 True s4 = Some (released', r', s')" "sys_inv cfg D s'" "accounts r' X D T s'" "still s4 s'"
          "length (slots (staging s')) \<le> length (slots (staging s4))" by blast
      moreover have "still s s4" by (rule still_trans [OF t(2) kept_still [OF k]])
      ultimately show ?thesis using e l kept_slots [OF k] still_trans [of s s4 s']
        by (intro exI [of _ released'] exI [of _ r'] exI [of _ s']) simp
    qed
  qed
qed

lemma drain_loop_ok:
  assumes "sys_inv cfg D s" "accounts ImmediateReclaimer X D T s" "env_cfg env = cfg"
    and "kBatchSizeMax cfg \<noteq> 0" "submissions_idle (staging s)"
  shows "\<exists>s'. drain_loop prof env now s = Some s' \<and> sys_inv cfg D s' \<and> accounts ImmediateReclaimer X D T s'
    \<and> still s s' \<and> slots (staging s') = []"
  using assms(1,2,5)
proof (induction "length (slots (staging s))" arbitrary: s rule: less_induct)
  case less
  show ?case
  proof (cases "slots (staging s) = []")
    case True
    then have "drain_loop prof env now s = Some s"
      using any_buffered_iff [OF sys_invD(1) [OF less.prems(1)]] less.prems(3) by (subst drain_loop.simps) simp
    then show ?thesis using less.prems True by simp
  next
    case False
    let ?s0 = "sys_staging begin_batch s" and ?r = "reclaimer_new prof (env_cfg env)"
    have i0: "sys_inv cfg D ?s0" "accounts ?r X D T ?s0"
      using less.prems(1) accounts_new [OF accounts_begin [OF less.prems(2)]] by (simp_all add: sys_inv_begin)
    have b0: "batch_used (staging ?s0) < kBatchSizeMax cfg" "slots (staging ?s0) = slots (staging s)"
      using assms(4) by (simp_all add: sys_staging_def begin_batch_def slots_def word_neq_0_conv)
    obtain released r s1 where d: "drain_batch env now ?r False ?s0 = Some (released, r, s1)" "sys_inv cfg D s1" "accounts r X D T s1"
        "still ?s0 s1" "length (slots (staging s1)) < length (slots (staging s))"
      using drain_batch_ok [OF i0 assms(3), of now False] b0 False by auto
    let ?s2 = "sys_flush r s1"
    have "drain_loop prof env now s = drain_loop prof env now ?s2"
      using False any_buffered_iff [OF sys_invD(1) [OF less.prems(1)]] d(1) by (subst drain_loop.simps) simp
    moreover have st: "still s ?s2"
      by (rule still_trans [OF still_begin still_trans [OF d(4)]]) (simp add: still_def sys_flush_def)
    have "submissions_idle (staging ?s2)" using st less.prems(3) by (simp add: still_def submissions_idle_def)
    moreover have "sys_inv cfg D ?s2" using d(2) by (simp add: sys_flush_def)
    moreover have "length (slots (staging ?s2)) < length (slots (staging s))" using d(5) by (simp add: sys_flush_def)
    ultimately show ?thesis using less.hyps [of ?s2] accounts_flush [OF d(3)] still_trans [OF st] by metis
  qed
qed

lemma run_exit_ok:
  assumes inv: "disp_inv cfg ImmediateReclaimer X T d" and cfg: "env_cfg env = cfg" "kBatchSizeMax cfg \<noteq> 0"
    and idle: "submissions_idle (staging (d_sys d))"
  shows "\<exists>s'. run_exit prof env d = Some s' \<and> sys_inv cfg [] s' \<and> accounts ImmediateReclaimer X [] T s'
    \<and> still (d_sys d) s' \<and> slots (staging s') = []"
proof -
  have fin: "\<exists>s'. drain_queued_on_stop prof env s = Some s' \<and> sys_inv cfg [] s' \<and> accounts ImmediateReclaimer X [] T s'
      \<and> still (d_sys d) s' \<and> slots (staging s') = []"
    if "sys_inv cfg [] s" "accounts ImmediateReclaimer X [] T s" "still (d_sys d) s" for s
  proof -
    obtain now s1 where m: "monotonic_ns env s = (now, s1)" by fastforce
    have q: "run_step s s1" by (rule run_quiet [OF quiet_monotonic [OF m]])
    have st: "still (d_sys d) s1" by (rule still_trans [OF that(3) kept_still [OF run_kept [OF q]]])
    then have "submissions_idle (staging s1)" using idle by (simp add: still_def submissions_idle_def)
    moreover have "accounts ImmediateReclaimer X [] T s1"
      by (rule accounts_kept [OF that(2) _ run_kept [OF q]]) (use q in \<open>simp add: run_step_def\<close>)
    ultimately show ?thesis using drain_loop_ok [OF sys_inv_run [OF that(1) q] _ cfg, of X T prof now] still_trans [OF st]
      by (auto simp: drain_queued_on_stop_def m)
  qed
  show ?thesis
  proof (cases "deferred d")
    case None
    then show ?thesis using fin [of "d_sys d"] inv by (simp add: run_exit_def disp_inv_def hand_def)
  next
    case (Some x)
    let ?r = "reclaimer_new prof (env_cfg env)"
    have i: "sys_inv cfg [x] (d_sys d)" "accounts ?r X [x] T (d_sys d)"
      using inv Some accounts_new by (auto simp: disp_inv_def hand_def)
    obtain s1 where s1: "(case registry_lookup (ao_registry (d_sys d)) (slot_target x) of
        None \<Rightarrow> Some (d_sys d) | Some ao \<Rightarrow> release_pending ao (d_sys d)) = Some s1" "kept (d_sys d) s1" "sys_inv cfg [] s1"
        "accounts ?r (slot_event x # X) [] T s1" using drop_slot_ok [OF i] by blast
    obtain r s2 where s2: "sys_release (slot_event x) ?r s1 = Some (r, s2)" "accounts r X [] T s2" "kept s1 s2" "sys_inv cfg [] s2"
      using sys_release_ok [OF s1(4)] s1(3) by metis
    have "still (d_sys d) (sys_flush r s2)"
      by (rule still_trans [OF kept_still [OF kept_trans [OF s1(2) s2(3)]]]) (simp add: still_def sys_flush_def)
    moreover have "sys_inv cfg [] (sys_flush r s2)" using s2(4) by (simp add: sys_flush_def)
    moreover have "run_exit prof env d = drain_queued_on_stop prof env (sys_flush r s2)"
      using Some s1(1) s2(1) by (simp add: run_exit_def)
    ultimately show ?thesis using fin [of "sys_flush r s2"] accounts_flush [OF s2(2)] by simp
  qed
qed

section \<open>The main loop\<close>

lemma run_loop_ok:
  assumes "disp_inv cfg ImmediateReclaimer X T d" and cfg: "env_cfg env = cfg" "kBatchSizeMax cfg \<noteq> 0"
    and "submissions_idle (staging (d_sys d))" and stop: "\<And>m. n \<le> m \<Longrightarrow> stop m"
  shows "\<exists>s'. run_loop prof env stop d = Some s' \<and> sys_inv cfg [] s' \<and> accounts ImmediateReclaimer X [] T s'
    \<and> still (d_sys d) s' \<and> slots (staging s') = []"
  using assms(1,4)
proof (induction "n - stop_reads d" arbitrary: d rule: less_induct)
  case less
  let ?d1 = "d\<lparr>stop_reads := Suc (stop_reads d)\<rparr>"
  have i1: "disp_inv cfg ImmediateReclaimer X T ?d1" "submissions_idle (staging (d_sys ?d1))" using less.prems by simp_all
  show ?case
  proof (cases "stop (stop_reads d)")
    case True
    then have "run_loop prof env stop d = run_exit prof env ?d1" by (subst run_loop.simps) (simp add: read_stop_def)
    then show ?thesis using run_exit_ok [OF i1(1) cfg i1(2)] by simp
  next
    case False
    then have lt: "stop_reads d < n" using stop [of "stop_reads d"] by (meson not_le)
    obtain left d2 where p: "run_pass prof env stop ?d1 = Some (left, d2)" "disp_inv cfg ImmediateReclaimer X T d2"
        "still (d_sys d) (d_sys d2)" "Suc (stop_reads d) \<le> stop_reads d2" using run_pass_ok [OF i1(1) cfg(1), of prof stop] by auto
    have idle: "submissions_idle (staging (d_sys d2))" using p(3) less.prems(2) by (simp add: still_def submissions_idle_def)
    have e: "run_loop prof env stop d = (if left then run_exit prof env d2 else run_loop prof env stop d2)"
      using False p(1) by (subst run_loop.simps) (simp add: read_stop_def)
    have "\<exists>s'. run_loop prof env stop d = Some s' \<and> sys_inv cfg [] s' \<and> accounts ImmediateReclaimer X [] T s'
        \<and> still (d_sys d2) s' \<and> slots (staging s') = []"
    proof (cases left)
      case True
      then show ?thesis using e run_exit_ok [OF p(2) cfg idle] by simp
    next
      case False
      have "n - stop_reads d2 < n - stop_reads d" using lt p(4) by linarith
      then show ?thesis using e False less.hyps [OF _ p(2) idle] by simp
    qed
    then show ?thesis using still_trans [OF p(3)] by blast
  qed
qed

section \<open>Submissions\<close>

lemma submit_account:
  assumes inv: "sys_inv cfg D s" and acc: "accounts ImmediateReclaimer (e # X) D T s"
    and cfg: "env_cfg env = cfg" "small_config cfg" "length D \<le> 1" and fr: "staging_fresh (Suc n) (staging s)"
  shows "\<exists>r s'. submit_internal env target e qos adm from_isr s = Some (r, s') \<and> sys_inv cfg D s'
    \<and> accounts ImmediateReclaimer X D T s' \<and> staging_fresh n (staging s') \<and> submit_effect target e r s s'"
proof -
  obtain w where w: "event_gc e (pool_world s) = Some w" "accounts ImmediateReclaimer X D T (s\<lparr>pool_world := w\<rparr>)"
    using accounts_gc [OF acc] by blast
  obtain r s' where s: "submit_internal env target e qos adm from_isr s = Some (r, s')" "sys_inv cfg D s'"
      "staging_fresh n (staging s')" and e: "submit_effect target e r s s'"
    using submit_internal_ok [OF inv cfg fr w(1)] by blast
  have "accounts ImmediateReclaimer X D T s'"
  proof (cases "disposition r = Queued")
    case True
    then obtain x p where x: "slot_event x = e" "pool_world s' = pool_world s"
        and P: "\<And>p'. parts (staging s') p' = (if p' = p then parts (staging s) p @ [x] else parts (staging s) p')"
      using e by (auto simp: submit_effect_def)
    have "mset (slots (staging s')) = add_mset x (mset (slots (staging s)))"
      using P [of PHigh] P [of PNormal] P [of PLow] by (cases p) (simp_all add: slots_def)
    then show ?thesis using x by (intro accounts_cong [OF acc]) (simp_all add: held_events_def)
  next
    case False
    then have "pool_world s' = w" "parts (staging s') = parts (staging s)" using e w(1) by (simp_all add: submit_effect_def)
    then show ?thesis by (intro accounts_cong [OF w(2)]) (simp_all add: held_events_def slots_def)
  qed
  then show ?thesis using s e by blast
qed

end
