(* ===== verification/Runtime_Properties.thy ===== *)
theory Runtime_Properties
  imports Runtime Dispatcher_Properties
begin

text \<open>
  The life of a runtime: binding and initialisation establish the invariant of the system,
  any mixture of submissions and dispatcher passes keeps it, and stopping ends with empty
  queues, zero pending counters and every submitted reference released exactly once.
\<close>

section \<open>Setup\<close>

text \<open>What the application must provide: a validated machine with an initial state.\<close>
definition ao_ready :: "'c Ao \<Rightarrow> bool" where
  "ao_ready ao \<longleftrightarrow> ao_ok ao \<and> in_range (ao_hsm ao) (initial_state (ao_hsm ao)) \<and> pending_ctr ao = 0"

lemma ao_init_default_ok:
  assumes "ao_ready ao"
  shows "\<exists>ao'. ao_init_default ao = Some ao' \<and> ao_ready ao' \<and> ao_initialized ao'"
proof (cases "ao_initialized ao")
  case True
  then show ?thesis using assms by (simp add: ao_init_default_def)
next
  case False
  let ?h = "ao_hsm ao"
  have V: "valid ?h" "targets_ok ?h" "depth_ok ?h" "in_range ?h (initial_state ?h)"
    using assms by (simp_all add: ao_ready_def ao_ok_def hsm_ok_def)
  obtain h' ctx' where h: "hsm_init ?h (ao_context ao) = Some (h', ctx')" "h' = ?h\<lparr>current := current h'\<rparr>" "active_leaf h'"
    using hsm_init_enters [OF V(1,3,4)] by blast
  have "hsm_ok h'" using V tables_current [of "current h'" ?h] h(2,3) by (simp add: hsm_ok_def)
  moreover have "0 \<le> current h'" using h(3) by (simp add: active_leaf_def in_range_def)
  moreover have "initial_state h' = initial_state ?h" by (subst h(2)) simp
  moreover have "states h' = states ?h" by (subst h(2)) simp
  ultimately show ?thesis using False h(1) V(4) assms
    by (simp add: ao_init_default_def ao_init_def ao_ready_def ao_ok_def coact_assert_def in_range_def)
qed

lemma init_targets_ok:
  assumes "\<And>a. ao_ready (aos s a)"
  shows "\<exists>objs. init_targets is s = Some (s\<lparr>aos := objs\<rparr>) \<and> (\<forall>a. ao_ready (objs a))"
  using assms
proof (induction "is" arbitrary: s)
  case Nil
  then show ?case by (intro exI [of _ "aos s"]) simp
next
  case (Cons i "is")
  show ?case
  proof (cases "registry_lookup (ao_registry s) (of_nat i)")
    case None
    then show ?thesis using Cons by simp
  next
    case (Some a)
    obtain ao where ao: "ao_init_default (aos s a) = Some ao" "ao_ready ao" using ao_init_default_ok [OF Cons.prems] by blast
    have "ao_ready (aos (set_ao a ao s) b)" for b using ao(2) Cons.prems by (simp add: set_ao_def)
    from Cons.IH [OF this] show ?thesis using Some ao(1) by (auto simp: set_ao_def)
  qed
qed

datatype BindOp = BindNext "nat option" | BindAt TargetId nat

fun run_binds :: "BindOp list \<Rightarrow> ('c, 'p) Runtime \<Rightarrow> ('c, 'p) Runtime" where
  "run_binds [] rt = rt"
| "run_binds (BindNext ao # ops) rt = run_binds ops (snd (runtime_bind ao rt))"
| "run_binds (BindAt t a # ops) rt = run_binds ops (snd (runtime_bind_at t a rt))"

lemma bind_lowest_length: "length (snd (bind_lowest a reg)) = length reg"
  by (induction a reg rule: bind_lowest.induct) (auto split: prod.split)

lemma registry_bind_length:
  "length (snd (registry_bind objs ao prio reg)) = length reg" "length (snd (registry_bind_at objs t a prio reg)) = length reg"
  by (auto simp: registry_bind_def registry_bind_at_def bind_lowest_length split: option.split)

lemma bind_frame:
  assumes "\<not> rt_initialized rt"
  shows "\<exists>reg. snd (runtime_bind ao rt) = set_rt_sys ((rt_sys rt)\<lparr>ao_registry := reg\<rparr>) rt \<and> length reg = length (ao_registry (rt_sys rt))"
    "\<exists>reg. snd (runtime_bind_at t a rt) = set_rt_sys ((rt_sys rt)\<lparr>ao_registry := reg\<rparr>) rt \<and> length reg = length (ao_registry (rt_sys rt))"
proof -
  have same: "\<exists>reg. rt = set_rt_sys ((rt_sys rt)\<lparr>ao_registry := reg\<rparr>) rt \<and> length reg = length (ao_registry (rt_sys rt))"
    by (intro exI [of _ "ao_registry (rt_sys rt)"]) (simp add: set_rt_sys_def rt_sys_def)
  show "\<exists>reg. snd (runtime_bind ao rt) = set_rt_sys ((rt_sys rt)\<lparr>ao_registry := reg\<rparr>) rt \<and> length reg = length (ao_registry (rt_sys rt))"
  proof (cases ao)
    case (Some a)
    then show ?thesis using assms registry_bind_length(1)
      by (intro exI [of _ "snd (registry_bind (aos (rt_sys rt)) ao (ao_logical_prio (aos (rt_sys rt) a)) (ao_registry (rt_sys rt)))"])
        (simp add: runtime_bind_def Let_def split_beta)
  qed (use assms same in \<open>simp add: runtime_bind_def\<close>)
  show "\<exists>reg. snd (runtime_bind_at t a rt) = set_rt_sys ((rt_sys rt)\<lparr>ao_registry := reg\<rparr>) rt \<and> length reg = length (ao_registry (rt_sys rt))"
    using assms registry_bind_length(2)
    by (intro exI [of _ "snd (registry_bind_at (aos (rt_sys rt)) t a (ao_logical_prio (aos (rt_sys rt) a)) (ao_registry (rt_sys rt)))"])
      (simp add: runtime_bind_at_def Let_def split_beta)
qed

lemma run_binds_frame:
  assumes "\<not> rt_initialized rt"
  shows "\<exists>reg. run_binds ops rt = set_rt_sys ((rt_sys rt)\<lparr>ao_registry := reg\<rparr>) rt \<and> length reg = length (ao_registry (rt_sys rt))"
  using assms
proof (induction ops arbitrary: rt)
  case Nil
  then show ?case by (intro exI [of _ "ao_registry (rt_sys rt)"]) (simp add: set_rt_sys_def rt_sys_def)
next
  case (Cons op ops)
  obtain reg where r: "run_binds (op # ops) rt = run_binds ops (set_rt_sys ((rt_sys rt)\<lparr>ao_registry := reg\<rparr>) rt)"
      "length reg = length (ao_registry (rt_sys rt))"
    using bind_frame [OF Cons.prems] by (cases op) (metis run_binds.simps(2,3))+
  have "\<not> rt_initialized (set_rt_sys ((rt_sys rt)\<lparr>ao_registry := reg\<rparr>) rt)" using Cons.prems by (simp add: set_rt_sys_def)
  from Cons.IH [OF this] show ?case using r by (auto simp: set_rt_sys_def rt_sys_def)
qed

text \<open>A runtime whose parts start empty, with its AOs bound and initialised.\<close>
definition runtime_setup :: "BindOp list \<Rightarrow> PalStart \<Rightarrow> Config \<Rightarrow> ('c, 'p) Runtime \<Rightarrow> (bool \<times> ('c, 'p) Runtime) option" where
  "runtime_setup binds pal cfg rt = do { (_, rt1) \<leftarrow> runtime_initialize cfg (run_binds binds rt); runtime_start pal rt1 }"

definition queues_ok :: "QueueBackend \<Rightarrow> Config \<Rightarrow> bool" where
  "queues_ok b cfg \<longleftrightarrow> (\<forall>p. part_capacity cfg p \<noteq> 0) \<and> (b = MpscBackend \<longrightarrow> (\<forall>p. unat (part_capacity cfg p) dvd 2 ^ 32))"

lemma runtime_setup_ok:
  assumes q: "queues_ok b cfg" and r: "\<And>a. ao_ready (objects a)" and n: "n < 2 ^ 64"
  shows "\<exists>rt. runtime_setup binds pal cfg (runtime_new b cfg sn adm ctx w objects) = Some (pal_start_dispatcher pal, rt)
    \<and> rt_started rt = pal_start_dispatcher pal \<and> rt_initialized rt \<and> deferred (rt_disp rt) = None \<and> sys_inv cfg [] (rt_sys rt)
    \<and> staging_fresh n (staging (rt_sys rt)) \<and> submissions_idle (staging (rt_sys rt))
    \<and> slots (staging (rt_sys rt)) = [] \<and> pool_world (rt_sys rt) = w"
proof -
  let ?rt = "runtime_new b cfg sn adm ctx w objects"
  obtain reg where b: "run_binds binds ?rt = set_rt_sys ((rt_sys ?rt)\<lparr>ao_registry := reg\<rparr>) ?rt" "length reg = length (ao_registry (rt_sys ?rt))"
    using run_binds_frame [of ?rt binds] by (auto simp: runtime_new_def)
  let ?s = "(rt_sys ?rt)\<lparr>ao_registry := reg\<rparr>"
  have "ao_ready (aos ?s a)" for a using r by (simp add: runtime_new_def rt_sys_def)
  from init_targets_ok [OF this] obtain objs where o: "init_targets [1..<Suc (unat (kMaxAo cfg))] ?s = Some (?s\<lparr>aos := objs\<rparr>)"
      "\<And>a. ao_ready (objs a)" by blast
  define s where "s = ?s\<lparr>aos := objs\<rparr>"
  define rt where "rt = (set_rt_sys s ?rt)\<lparr>rt_initialized := True, rt_started := pal_start_dispatcher pal\<rparr>"
  have "runtime_initialize cfg (run_binds binds ?rt) = Some (True, (set_rt_sys s ?rt)\<lparr>rt_initialized := True\<rparr>)"
    using o(1) unfolding b(1) by (simp add: runtime_initialize_def s_def runtime_new_def set_rt_sys_def rt_sys_def)
  then have e: "runtime_setup binds pal cfg ?rt = Some (pal_start_dispatcher pal, rt)"
    by (simp add: runtime_setup_def runtime_start_def coact_assert_def rt_def set_rt_sys_def runtime_new_def)
  have sg: "staging s = staging_new b cfg" "pool_world s = w" by (simp_all add: s_def runtime_new_def rt_sys_def)
  have iv: "staging_inv cfg (staging s)" "\<And>p. parts (staging s) p = []" "staging_fresh n (staging s)"
    using staging_new_inv [of cfg b n] q n by (auto simp: sg queues_ok_def)
  have z: "slots (staging s) = []" using iv(2) by (simp add: slots_Nil)
  have "length (breakers (breaker_bank s)) = length (ao_registry s)"
    using b(2) by (simp add: s_def runtime_new_def rt_sys_def bank_new_def registry_new_def)
  moreover have "pending_ctr (aos s a) = 0" "ao_ok (aos s a)" for a using o(2) by (simp_all add: s_def ao_ready_def)
  ultimately have "sys_inv cfg [] s" using iv z by (simp add: sys_inv_def ok_aos_def)
  moreover have "submissions_idle (staging s)" by (simp add: sg staging_new_def submissions_idle_def)
  moreover have "rt_sys rt = s" "deferred (rt_disp rt) = None" by (simp_all add: rt_def rt_sys_def set_rt_sys_def runtime_new_def)
  ultimately show ?thesis using e iv(3) z sg(2) by (simp add: rt_def)
qed

section \<open>Submissions and passes in any order\<close>

datatype RtOp =
    RtSubmit bool TargetId nat EventQos StagingAdmission
  | RtPass "nat \<Rightarrow> bool"
  | RtClose

fun run_ops :: "Profile \<Rightarrow> 'p Env \<Rightarrow> RtOp list \<Rightarrow> ('c, 'p) Disp \<Rightarrow> (SubmitResult list \<times> ('c, 'p) Disp) option" where
  "run_ops prof env [] d = Some ([], d)"
| "run_ops prof env (RtSubmit from_isr t e qos adm # ops) d = do {
     (r, s) \<leftarrow> submit_internal env t e qos adm from_isr (d_sys d);
     (rs, d') \<leftarrow> run_ops prof env ops (d\<lparr>d_sys := s\<rparr>);
     Some (r # rs, d')
   }"
| "run_ops prof env (RtPass stop # ops) d = do { (_, d1) \<leftarrow> run_pass prof env stop d; run_ops prof env ops d1 }"
| "run_ops prof env (RtClose # ops) d = run_ops prof env ops (d\<lparr>d_sys := request_stop (d_sys d)\<rparr>)"

fun op_events :: "RtOp list \<Rightarrow> nat list" where
  "op_events [] = []"
| "op_events (RtSubmit _ _ e _ _ # ops) = e # op_events ops"
| "op_events (_ # ops) = op_events ops"

lemma submissions_idle_close: "submissions_idle (close_admission sg) = submissions_idle sg"
proof -
  have "(w OR kAdmissionClosed) AND kAdmissionCountMask = w AND kAdmissionCountMask" for w
    by (simp add: kAdmissionCountMask_def bit_eq_iff) (auto simp: bit_simps)
  then show ?thesis by (simp add: submissions_idle_def close_admission_def)
qed

lemma request_stop_ok:
  "sys_inv cfg D (request_stop s) = sys_inv cfg D s" "pool_world (request_stop s) = pool_world s"
  "held_events D (request_stop s) = held_events D s" "staging (request_stop s) = close_admission (staging s)"
  "staging_fresh n (staging (request_stop s)) = staging_fresh n (staging s)" "ao_registry (request_stop s) = ao_registry s"
proof -
  let ?t = "s\<lparr>staging := (staging s)\<lparr>admission_word := admission_word (staging s) OR kAdmissionClosed\<rparr>\<rparr>"
  have t: "request_stop s = pal_signal False ?t" by (simp add: request_stop_def close_admission_def)
  have "sys_inv cfg D (pal_signal False ?t) = sys_inv cfg D ?t" by (simp add: sys_inv_def pal_signal_def ok_aos_def)
  then show "sys_inv cfg D (request_stop s) = sys_inv cfg D s" unfolding t using sys_inv_word by simp
  show "pool_world (request_stop s) = pool_world s" "staging (request_stop s) = close_admission (staging s)"
    "ao_registry (request_stop s) = ao_registry s" by (simp_all add: request_stop_def pal_signal_def)
  have "q_view (staging (request_stop s)) = q_view (staging s)" by (simp add: t pal_signal_def q_view_def)
  from q_view_eq(1,3) [OF this] show "held_events D (request_stop s) = held_events D s"
      "staging_fresh n (staging (request_stop s)) = staging_fresh n (staging s)"
    by (simp_all add: held_events_def slots_def)
qed

lemma disp_close: "disp_inv cfg r X T d \<Longrightarrow> disp_inv cfg r X T (d\<lparr>d_sys := request_stop (d_sys d)\<rparr>)"
  using accounts_cong [of r X "hand d" T "d_sys d" "request_stop (d_sys d)" X "hand d"]
  by (simp add: disp_inv_def request_stop_ok)

lemma run_ops_ok:
  assumes "disp_inv cfg ImmediateReclaimer (op_events ops @ X) T d" "staging_fresh (length ops) (staging (d_sys d))"
    and cfg: "env_cfg env = cfg" "small_config cfg" and "submissions_idle (staging (d_sys d))"
  shows "\<exists>rs d'. run_ops prof env ops d = Some (rs, d') \<and> disp_inv cfg ImmediateReclaimer X T d'
    \<and> submissions_idle (staging (d_sys d')) \<and> length rs = length (op_events ops)"
  using assms(1,2,5)
proof (induction ops arbitrary: d)
  case (Cons op ops)
  note inv = Cons.prems(1) and fr = Cons.prems(2) and idle = Cons.prems(3)
  have fr': "staging_fresh (length ops) (staging (d_sys d))"
    using fr by (auto simp: staging_fresh_def intro: staging_queue.fresh_less)
  show ?case
  proof (cases op)
    case (RtSubmit from_isr t e qos adm)
    have "sys_inv cfg (hand d) (d_sys d)" "accounts ImmediateReclaimer (e # op_events ops @ X) (hand d) T (d_sys d)"
      using inv RtSubmit by (simp_all add: disp_inv_def)
    from submit_account [OF this cfg hand_simps(3), of "length ops" t qos adm from_isr] fr
    obtain r s where s: "submit_internal env t e qos adm from_isr (d_sys d) = Some (r, s)" "sys_inv cfg (hand d) s"
        "accounts ImmediateReclaimer (op_events ops @ X) (hand d) T s" "staging_fresh (length ops) (staging s)"
        "submit_effect t e r (d_sys d) s" by auto
    have "disp_inv cfg ImmediateReclaimer (op_events ops @ X) T (d\<lparr>d_sys := s\<rparr>)" using s(2,3) by (simp add: disp_inv_def)
    moreover have "submissions_idle (staging s)" using s(5) idle by (simp add: submit_effect_def submissions_idle_def)
    ultimately show ?thesis using Cons.IH [of "d\<lparr>d_sys := s\<rparr>"] s(1,4) RtSubmit by auto
  next
    case (RtPass stop)
    obtain left d1 where p: "run_pass prof env stop d = Some (left, d1)" "disp_inv cfg ImmediateReclaimer (op_events ops @ X) T d1"
        "still (d_sys d) (d_sys d1)" using run_pass_ok [OF _ cfg(1)] inv RtPass by fastforce
    then have "submissions_idle (staging (d_sys d1))" "staging_fresh (length ops) (staging (d_sys d1))"
      using idle fr' by (simp_all add: still_def submissions_idle_def)
    then show ?thesis using Cons.IH [OF p(2)] p(1) RtPass by auto
  next
    case RtClose
    let ?d = "d\<lparr>d_sys := request_stop (d_sys d)\<rparr>"
    have "disp_inv cfg ImmediateReclaimer (op_events ops @ X) T ?d" using disp_close inv RtClose by simp
    moreover have "staging_fresh (length ops) (staging (d_sys ?d))" using fr' by (simp add: request_stop_ok(5))
    moreover have "submissions_idle (staging (d_sys ?d))" using idle by (simp add: request_stop_ok submissions_idle_close)
    ultimately show ?thesis using Cons.IH [of ?d] RtClose by simp
  qed
qed simp

lemma accounts_end:
  assumes "accounts ImmediateReclaimer [] [] T s" "slots (staging s) = []"
  shows "\<exists>F. world_inv (pool_world s) F (\<lambda>_. []) \<and> live_map (pool_world s) F (\<lambda>_. []) = T"
  using assms by (auto simp: accounts_def held_events_def)

lemma accounts_start:
  assumes "world_inv (pool_world s) F (\<lambda>_. [])" "releasable (pool_world s) (live_map (pool_world s) F (\<lambda>_. [])) X"
    "slots (staging s) = []"
  shows "accounts ImmediateReclaimer X [] (fold spec_gc X (live_map (pool_world s) F (\<lambda>_. []))) s"
  using assms by (intro accountsI [of s F "\<lambda>_. []"]) (simp_all add: held_events_def)

lemma pending_zero: "sys_inv cfg [] s \<Longrightarrow> slots (staging s) = [] \<Longrightarrow> pending_ctr (aos s a) = 0"
  using sys_invD(4) [of cfg "[]" s a] by (simp add: unat_eq_0)

lemma runtime_stop_ok:
  assumes "disp_inv cfg ImmediateReclaimer X T (rt_disp rt)" "env_cfg env = cfg" "kBatchSizeMax cfg \<noteq> 0"
    "submissions_idle (staging (rt_sys rt))" "rt_started rt"
  shows "\<exists>rt'. runtime_stop prof env rt = Some rt' \<and> sys_inv cfg [] (rt_sys rt') \<and> accounts ImmediateReclaimer X [] T (rt_sys rt')
    \<and> slots (staging (rt_sys rt')) = [] \<and> rt_initialized rt' = rt_initialized rt \<and> \<not> rt_started rt' \<and> deferred (rt_disp rt') = None
    \<and> ao_registry (rt_sys rt') = ao_registry (rt_sys rt)
    \<and> admission_word (staging (rt_sys rt')) = admission_word (staging (rt_sys rt)) OR kAdmissionClosed"
proof -
  let ?d = "(rt_disp rt)\<lparr>d_sys := request_stop (rt_sys rt)\<rparr>"
  have i: "disp_inv cfg ImmediateReclaimer X T ?d" using disp_close [OF assms(1)] by (simp add: rt_sys_def)
  have "submissions_idle (staging (d_sys ?d))" using assms(4) by (simp add: request_stop_ok submissions_idle_close)
  from run_loop_ok [OF i assms(2,3) this, of 0 "\<lambda>_. True" prof] obtain s where s: "run_loop prof env (\<lambda>_. True) ?d = Some s"
      "sys_inv cfg [] s" "accounts ImmediateReclaimer X [] T s" "still (request_stop (rt_sys rt)) s" "slots (staging s) = []" by auto
  have "admission_word (staging s) = admission_word (staging (rt_sys rt)) OR kAdmissionClosed" "ao_registry s = ao_registry (rt_sys rt)"
    using s(4) by (simp_all add: still_def request_stop_ok close_admission_def)
  then show ?thesis using s assms(5)
    by (intro exI [of _ "rt\<lparr>rt_disp := ?d\<lparr>d_sys := s, deferred := None\<rparr>, rt_started := False\<rparr>"]) (simp add: runtime_stop_def rt_sys_def)
qed

lemma submit_closed:
  assumes "admission_word (staging s) AND kAdmissionClosed \<noteq> 0" "event_gc e (pool_world s) = Some w"
  shows "\<exists>m. submit_internal env target e qos adm from_isr s = Some (result RejectedState 0, s\<lparr>pool_world := w, monitor := m\<rparr>)"
proof -
  have "acquire_submission (staging s) = (False, staging s)"
    using assms(1) by (simp add: acquire_submission_def cas_alone_def submission_decide_def)
  then show ?thesis using assms(2)
    by (auto simp: submit_internal_def sys_gc_def sys_monitor_def split: option.split intro: exI [of _ "monitor s"])
qed

lemma closed_bit: "(w OR kAdmissionClosed) AND kAdmissionClosed \<noteq> 0"
proof -
  have "(w OR kAdmissionClosed) AND kAdmissionClosed = kAdmissionClosed" by (simp add: bit_eq_iff bit_simps) 
  then show ?thesis by (simp add: kAdmissionClosed_def)
qed

section \<open>Properties\<close>

text \<open>
  C1. References are conserved over the whole life of a runtime. Bind any AOs with validated
  machines, initialise and start; then let submissions (from tasks or interrupts, to any
  target, accepted, dropped or rejected for whatever reason), dispatcher passes (with lease
  conflicts and stop requests at any point) and closings of the admission happen in any
  order; then stop. No operation aborts and each of them returns; in the end all queues are
  empty, every pending counter is zero, no block is in a reclaimer's hands, and the live events
  are those of the start with one reference of every submitted event released exactly once.
\<close>
theorem runtime_conserves_references:
  assumes "queues_ok b cfg" and "small_config cfg" and "kBatchSizeMax cfg \<noteq> 0" and "env_cfg env = cfg" and "length ops < 2 ^ 64"
    and "\<forall>a. ao_ready (objects a)" and "world_inv w F (\<lambda>_. [])" and "releasable w (live_map w F (\<lambda>_. [])) (op_events ops)"
  shows "\<exists>rt rs d rt' F'.
      runtime_setup binds StartVoid cfg (runtime_new b cfg sn adm ctx w objects) = Some (True, rt)
    \<and> run_ops prof env ops (rt_disp rt) = Some (rs, d) \<and> length rs = length (op_events ops)
    \<and> runtime_stop prof env (rt\<lparr>rt_disp := d\<rparr>) = Some rt'
    \<and> slots (staging (rt_sys rt')) = [] \<and> (\<forall>a. pending_ctr (aos (rt_sys rt') a) = 0)
    \<and> world_inv (pool_world (rt_sys rt')) F' (\<lambda>_. [])
    \<and> live_map (pool_world (rt_sys rt')) F' (\<lambda>_. []) = fold spec_gc (op_events ops) (live_map w F (\<lambda>_. []))"
proof -
  let ?T = "fold spec_gc (op_events ops) (live_map w F (\<lambda>_. []))"
  obtain rt where s: "runtime_setup binds StartVoid cfg (runtime_new b cfg sn adm ctx w objects) = Some (True, rt)"
      "rt_started rt" "deferred (rt_disp rt) = None" "sys_inv cfg [] (rt_sys rt)" "staging_fresh (length ops) (staging (rt_sys rt))"
      "submissions_idle (staging (rt_sys rt))" "slots (staging (rt_sys rt)) = []" "pool_world (rt_sys rt) = w"
    using runtime_setup_ok [OF assms(1) _ assms(5), of objects binds StartVoid sn adm ctx w] assms(6) by auto
  have "accounts ImmediateReclaimer (op_events ops) [] ?T (rt_sys rt)"
    using accounts_start [of "rt_sys rt" F "op_events ops"] s(7,8) assms(7,8) by simp
  then have "disp_inv cfg ImmediateReclaimer (op_events ops @ []) ?T (rt_disp rt)"
    using s(3,4) by (simp add: disp_inv_def hand_def rt_sys_def)
  from run_ops_ok [OF this _ assms(4,2)] obtain rs d where d: "run_ops prof env ops (rt_disp rt) = Some (rs, d)"
      "disp_inv cfg ImmediateReclaimer [] ?T d" "submissions_idle (staging (d_sys d))" "length rs = length (op_events ops)"
    using s(5,6) unfolding rt_sys_def by blast
  obtain rt' where rt': "runtime_stop prof env (rt\<lparr>rt_disp := d\<rparr>) = Some rt'" "sys_inv cfg [] (rt_sys rt')"
      "accounts ImmediateReclaimer [] [] ?T (rt_sys rt')" "slots (staging (rt_sys rt')) = []"
    using runtime_stop_ok [of cfg "[]" ?T "rt\<lparr>rt_disp := d\<rparr>" env prof] assms(3,4) d(2,3) s(2) by (auto simp: rt_sys_def)
  obtain F' where "world_inv (pool_world (rt_sys rt')) F' (\<lambda>_. [])" "live_map (pool_world (rt_sys rt')) F' (\<lambda>_. []) = ?T"
    using accounts_end [OF rt'(3,4)] by blast
  then show ?thesis using s(1) d(1,4) rt'(1,4) pending_zero [OF rt'(2,4)] by blast
qed

lemma demo_ao_ready: "ao_ready demo_ao"
  using demo_ao_ok by (simp add: ao_ready_def ao_ok_def demo_ao_def) (simp add: demo_hsm_def in_range_def)

lemma demo_config: "queues_ok b DefaultConfig" "small_config DefaultConfig" "kBatchSizeMax DefaultConfig \<noteq> 0"
proof -
  have "unat (part_capacity DefaultConfig p) dvd 2 ^ 32" "part_capacity DefaultConfig p \<noteq> 0"
      "unat (part_capacity DefaultConfig p) < 65534" for p by (cases p; simp add: DefaultConfig_def)+
  then show "queues_ok b DefaultConfig" "small_config DefaultConfig" by (simp_all add: queues_ok_def small_config_def)
  show "kBatchSizeMax DefaultConfig \<noteq> 0" by (simp add: DefaultConfig_def)
qed

definition demo_env :: "nat Env" where
  "demo_env = \<lparr>env_cfg = DefaultConfig, env_clock = (\<lambda>n. of_nat (1000 * n)), env_policy = None, env_rival = (\<lambda>_. None)\<rparr>"

lemma demo_releasable:
  "\<exists>F e. world_inv demo_world1 F (\<lambda>_. []) \<and> releasable demo_world1 (live_map demo_world1 F (\<lambda>_. [])) [e]
     \<and> live_map demo_world1 F (\<lambda>_. []) e \<noteq> None \<and> spec_gc e (live_map demo_world1 F (\<lambda>_. [])) e = None"
proof -
  obtain F e r i where l: "world_inv demo_world1 F (\<lambda>_. [])" "live demo_world1 F (\<lambda>_. []) e r i" "ref_ctr (event_at demo_world1 e) = 1"
    using demo_live by blast
  then have "live_map demo_world1 F (\<lambda>_. []) e = Some (event_at demo_world1 e)" by (auto simp: live_map_def)
  then show ?thesis using l(1,3) by (intro exI [of _ F] exI [of _ e]) (simp add: releasable_def spec_gc_def)
qed

text \<open>One AO, one event: submitted, a dispatcher pass, stop; its block is back in the pool.\<close>
theorem runtime_conserves_references_witness:
  "\<exists>e rt rs d rt' F'.
      runtime_setup [BindNext (Some 0)] StartVoid DefaultConfig
        (runtime_new MpscBackend DefaultConfig 4 None (0 :: nat) demo_world1 (\<lambda>_. demo_ao)) = Some (True, rt)
    \<and> run_ops HostSmpProfile demo_env [RtSubmit True 1 e \<lparr>critical = False, mergeable = False\<rparr> Ordinary, RtPass (\<lambda>_. False)] (rt_disp rt)
        = Some (rs, d) \<and> length rs = 1
    \<and> runtime_stop HostSmpProfile demo_env (rt\<lparr>rt_disp := d\<rparr>) = Some rt'
    \<and> slots (staging (rt_sys rt')) = [] \<and> live_map (pool_world (rt_sys rt')) F' (\<lambda>_. []) e = None"
proof -
  obtain F e where e: "world_inv demo_world1 F (\<lambda>_. [])" "releasable demo_world1 (live_map demo_world1 F (\<lambda>_. [])) [e]"
      "spec_gc e (live_map demo_world1 F (\<lambda>_. [])) e = None" using demo_releasable by blast
  let ?ops = "[RtSubmit True 1 e \<lparr>critical = False, mergeable = False\<rparr> Ordinary, RtPass (\<lambda>_. False)]"
  have c: "env_cfg demo_env = DefaultConfig" "length ?ops < 2 ^ 64" "\<forall>a :: nat. ao_ready demo_ao" and ev: "op_events ?ops = [e]"
    using demo_ao_ready by (simp_all add: demo_env_def)
  have "releasable demo_world1 (live_map demo_world1 F (\<lambda>_. [])) (op_events ?ops)" using e(2) unfolding ev .
  from runtime_conserves_references [OF demo_config c e(1) this, where binds = "[BindNext (Some 0)]" and b = MpscBackend
      and sn = 4 and adm = None and ctx = 0 and prof = HostSmpProfile]
  obtain rt rs d rt' F' where r: "runtime_setup [BindNext (Some 0)] StartVoid DefaultConfig
        (runtime_new MpscBackend DefaultConfig 4 None 0 demo_world1 (\<lambda>_. demo_ao)) = Some (True, rt)"
      "run_ops HostSmpProfile demo_env ?ops (rt_disp rt) = Some (rs, d)" "length rs = length (op_events ?ops)"
      "runtime_stop HostSmpProfile demo_env (rt\<lparr>rt_disp := d\<rparr>) = Some rt'" "slots (staging (rt_sys rt')) = []"
      "live_map (pool_world (rt_sys rt')) F' (\<lambda>_. []) = fold spec_gc (op_events ?ops) (live_map demo_world1 F (\<lambda>_. []))"
    by (elim exE conjE) (rule that)
  have "length rs = 1" "live_map (pool_world (rt_sys rt')) F' (\<lambda>_. []) e = None" using r(3,6) e(3) unfolding ev by simp_all
  with r(1,2,4,5) show ?thesis by blast
qed

text \<open>
  C2. A submit accounts for its event exactly: in a consistent system it never aborts, keeps the
  system consistent and the number of submissions in progress unchanged. If it answers Queued,
  exactly one slot for the target and the event has been appended to one partition and the
  pools are untouched; otherwise the partitions are unchanged and one reference has been
  released.
\<close>
theorem submit_accounts_for_event:
  assumes "sys_inv cfg D s" and "env_cfg env = cfg" and "small_config cfg" and "length D \<le> 1"
    and "staging_fresh 1 (staging s)" and "world_inv (pool_world s) F (\<lambda>_. [])" and "event_ok (pool_world s) F (\<lambda>_. []) e"
  shows "\<exists>r s'. submit_internal env target e qos adm from_isr s = Some (r, s') \<and> sys_inv cfg D s'
    \<and> ao_registry s' = ao_registry s \<and> admission_word (staging s') = admission_word (staging s)
    \<and> (if disposition r = Queued
        then pool_world s' = pool_world s \<and> (\<exists>x p. slot_target x = target \<and> slot_event x = e
          \<and> (\<forall>p'. parts (staging s') p' = (if p' = p then parts (staging s) p @ [x] else parts (staging s) p')))
        else parts (staging s') = parts (staging s)
          \<and> (\<exists>F'. world_inv (pool_world s') F' (\<lambda>_. [])
                \<and> live_map (pool_world s') F' (\<lambda>_. []) = spec_gc e (live_map (pool_world s) F (\<lambda>_. []))))"
proof -
  obtain w F' where w: "event_gc e (pool_world s) = Some w" "world_inv w F' (\<lambda>_. [])"
      "live_map w F' (\<lambda>_. []) = spec_gc e (live_map (pool_world s) F (\<lambda>_. []))"
    using immediate.rel_event_ok [OF assms(6) _ assms(7), of "()"] by (auto simp: immediate_release_def)
  have "staging_fresh (Suc 0) (staging s)" using assms(5) by simp
  from submit_internal_ok [OF assms(1-4) this w(1), of target qos adm from_isr] obtain r s' where
      s: "submit_internal env target e qos adm from_isr s = Some (r, s')" "sys_inv cfg D s'" "submit_effect target e r s s'" by blast
  then show ?thesis using w by (intro exI [of _ r] exI [of _ s']) (cases "disposition r = Queued"; auto simp: submit_effect_def)
qed

text \<open>A running system with one AO and an allocated event nobody has submitted yet.\<close>
lemma demo_system:
  "\<exists>s :: (int list, nat) Sys. \<exists>F e. sys_inv DefaultConfig [] s \<and> staging_fresh 2 (staging s) \<and> submissions_idle (staging s)
     \<and> slots (staging s) = [] \<and> pool_world s = demo_world1 \<and> world_inv demo_world1 F (\<lambda>_. [])
     \<and> releasable demo_world1 (live_map demo_world1 F (\<lambda>_. [])) [e] \<and> spec_gc e (live_map demo_world1 F (\<lambda>_. [])) e = None"
proof -
  obtain F e where e: "world_inv demo_world1 F (\<lambda>_. [])" "releasable demo_world1 (live_map demo_world1 F (\<lambda>_. [])) [e]"
      "spec_gc e (live_map demo_world1 F (\<lambda>_. [])) e = None" using demo_releasable by blast
  have n: "(2 :: nat) < 2 ^ 64" by simp
  have r: "ao_ready ((\<lambda>_. demo_ao) a)" for a :: nat using demo_ao_ready by simp
  obtain rt :: "(int list, nat) Runtime" where "sys_inv DefaultConfig [] (rt_sys rt)" "staging_fresh 2 (staging (rt_sys rt))"
      "submissions_idle (staging (rt_sys rt))" "slots (staging (rt_sys rt)) = []" "pool_world (rt_sys rt) = demo_world1"
    using runtime_setup_ok [OF demo_config(1) r n, where binds = "[BindNext (Some 0)]" and pal = StartVoid and b = RingBackend
      and sn = 4 and adm = None and ctx = 0 and w = demo_world1] by blast
  then show ?thesis using e by blast
qed

theorem submit_accounts_for_event_witness:
  "\<exists>s :: (int list, nat) Sys. \<exists>e r s'. submit_internal demo_env 1 e \<lparr>critical = True, mergeable = False\<rparr> Ordinary False s = Some (r, s')
     \<and> sys_inv DefaultConfig [] s'"
proof -
  obtain s :: "(int list, nat) Sys" and F e where s: "sys_inv DefaultConfig [] s" "staging_fresh 2 (staging s)" "pool_world s = demo_world1"
      "world_inv demo_world1 F (\<lambda>_. [])" "releasable demo_world1 (live_map demo_world1 F (\<lambda>_. [])) [e]" using demo_system by blast
  have "staging_fresh (Suc 1) (staging s)" using s(2) by (simp add: numeral_2_eq_2)
  then have f: "staging_fresh 1 (staging s)" by (auto simp: staging_fresh_def intro: staging_queue.fresh_less)
  have c: "env_cfg demo_env = DefaultConfig" "length ([] :: StagingSlot list) \<le> 1" by (simp_all add: demo_env_def)
  have w: "world_inv (pool_world s) F (\<lambda>_. [])" "event_ok (pool_world s) F (\<lambda>_. []) e"
    using s(3,4) releasable_event_ok [OF s(5)] by simp_all
  from submit_accounts_for_event [OF s(1) c(1) demo_config(2) c(2) f w] show ?thesis by blast
qed

text \<open>
  C3. The dispatcher thread ends: if the stop flag is set from some moment on, no submission is
  in progress and the queued events hold their references, then \<^verbatim>\<open>run\<close> returns. Dispatched or
  drained, every queued event has then been released exactly once, all queues are empty and
  all pending counters zero.
\<close>
theorem dispatcher_ends_after_stop:
  assumes "sys_inv cfg [] s" and "env_cfg env = cfg" and "kBatchSizeMax cfg \<noteq> 0" and "submissions_idle (staging s)"
    and "world_inv (pool_world s) F (\<lambda>_. [])"
    and "releasable (pool_world s) (live_map (pool_world s) F (\<lambda>_. [])) (map slot_event (slots (staging s)))"
    and "\<forall>m. n \<le> m \<longrightarrow> stop m"
  shows "\<exists>s' F'. dispatcher_run prof env stop s = Some s' \<and> slots (staging s') = [] \<and> (\<forall>a. pending_ctr (aos s' a) = 0)
    \<and> world_inv (pool_world s') F' (\<lambda>_. [])
    \<and> live_map (pool_world s') F' (\<lambda>_. []) = fold spec_gc (map slot_event (slots (staging s))) (live_map (pool_world s) F (\<lambda>_. []))"
proof -
  let ?d = "\<lparr>d_sys = s, deferred = None, stop_reads = 0\<rparr>" and ?T = "fold spec_gc (map slot_event (slots (staging s))) (live_map (pool_world s) F (\<lambda>_. []))"
  have "accounts ImmediateReclaimer [] [] ?T s"
    using assms(5,6) by (intro accountsI [of s F "\<lambda>_. []"]) (simp_all add: held_events_def)
  then have "disp_inv cfg ImmediateReclaimer [] ?T ?d" using assms(1) by (simp add: disp_inv_def hand_def)
  from run_loop_ok [OF this assms(2,3), of n stop prof] assms(4,7) obtain s' where
      r: "run_loop prof env stop ?d = Some s'" "sys_inv cfg [] s'" "accounts ImmediateReclaimer [] [] ?T s'" "slots (staging s') = []" by auto
  obtain F' where "world_inv (pool_world s') F' (\<lambda>_. [])" "live_map (pool_world s') F' (\<lambda>_. []) = ?T" using accounts_end [OF r(3,4)] by blast
  then show ?thesis using r(1,4) pending_zero [OF r(2,4)] unfolding dispatcher_run_def by blast
qed

text \<open>An event is submitted from an interrupt, then the dispatcher runs until its third look at the flag.\<close>
theorem dispatcher_ends_after_stop_witness:
  "\<exists>s :: (int list, nat) Sys. \<exists>e r s1 s'. submit_internal demo_env 1 e \<lparr>critical = True, mergeable = False\<rparr> Ordinary True s = Some (r, s1)
     \<and> dispatcher_run HostSmpProfile demo_env (\<lambda>m. 2 \<le> m) s1 = Some s' \<and> slots (staging s') = []"
proof -
  obtain s :: "(int list, nat) Sys" and F e where s: "sys_inv DefaultConfig [] s" "staging_fresh 2 (staging s)" "submissions_idle (staging s)"
      "slots (staging s) = []" "pool_world s = demo_world1" "world_inv demo_world1 F (\<lambda>_. [])"
      "releasable demo_world1 (live_map demo_world1 F (\<lambda>_. [])) [e]" using demo_system by blast
  have c: "env_cfg demo_env = DefaultConfig" "length ([] :: StagingSlot list) \<le> 1" by (simp_all add: demo_env_def)
  obtain T where "accounts ImmediateReclaimer (e # []) [] T s" using accounts_start [of s F "[e]"] s(4-7) by auto
  from submit_account [OF s(1) this c(1) demo_config(2) c(2), of 1 1 "\<lparr>critical = True, mergeable = False\<rparr>" Ordinary True] s(2) obtain r s1 where
      s1: "submit_internal demo_env 1 e \<lparr>critical = True, mergeable = False\<rparr> Ordinary True s = Some (r, s1)" "sys_inv DefaultConfig [] s1"
        "accounts ImmediateReclaimer [] [] T s1" "submit_effect 1 e r s s1" by (auto simp: numeral_2_eq_2)
  obtain F1 where f: "world_inv (pool_world s1) F1 (\<lambda>_. [])"
      "releasable (pool_world s1) (live_map (pool_world s1) F1 (\<lambda>_. [])) (map slot_event (slots (staging s1)))"
    using s1(3) by (auto simp: accounts_def held_events_def)
  have i: "submissions_idle (staging s1)" using s(3) s1(4) by (simp add: submit_effect_def submissions_idle_def)
  have st: "\<forall>m. 2 \<le> m \<longrightarrow> (\<lambda>m. 2 \<le> m) m" for m :: nat by simp
  from dispatcher_ends_after_stop [OF s1(2) c(1) demo_config(3) i f st] show ?thesis using s1(1) by blast
qed

text \<open>
  C7. Stopping is final, whatever the platform does with a second start: after a stop of a
  started runtime, \<^verbatim>\<open>start\<close> answers what the platform's \<^verbatim>\<open>start_dispatcher\<close> reports (true for
  one that returns nothing, false for one that refuses the restart), and in either case
  every later submission is rejected with RejectedState, its reference is released and the
  queues are not touched.
\<close>
theorem restart_rejects_submissions:
  assumes "disp_inv cfg ImmediateReclaimer X T (rt_disp rt)" and "env_cfg env = cfg" and "kBatchSizeMax cfg \<noteq> 0"
    and "submissions_idle (staging (rt_sys rt))" and "rt_started rt" and "rt_initialized rt"
  shows "\<exists>rt1 rt2. runtime_stop prof env rt = Some rt1 \<and> runtime_start pal rt1 = Some (pal_start_dispatcher pal, rt2)
    \<and> accounts ImmediateReclaimer X [] T (rt_sys rt2)
    \<and> (\<forall>target e qos adm from_isr w. event_gc e (pool_world (rt_sys rt2)) = Some w \<longrightarrow>
        (\<exists>m. submit_internal env target e qos adm from_isr (rt_sys rt2)
          = Some (result RejectedState 0, (rt_sys rt2)\<lparr>pool_world := w, monitor := m\<rparr>)))"
proof -
  obtain rt1 where r: "runtime_stop prof env rt = Some rt1" "rt_initialized rt1" "\<not> rt_started rt1"
      "admission_word (staging (rt_sys rt1)) = admission_word (staging (rt_sys rt)) OR kAdmissionClosed"
      "accounts ImmediateReclaimer X [] T (rt_sys rt1)"
    using runtime_stop_ok [OF assms(1-5), of prof] assms(6) by auto
  let ?rt2 = "if pal_start_dispatcher pal then rt1\<lparr>rt_started := True\<rparr> else rt1"
  have "runtime_start pal rt1 = Some (pal_start_dispatcher pal, ?rt2)" using r(2,3) by (simp add: runtime_start_def coact_assert_def)
  moreover have "rt_sys ?rt2 = rt_sys rt1" by (simp add: rt_sys_def)
  moreover have "admission_word (staging (rt_sys rt1)) AND kAdmissionClosed \<noteq> 0" using closed_bit r(4) by simp
  moreover from this have "\<forall>target e qos adm from_isr w. event_gc e (pool_world (rt_sys rt1)) = Some w \<longrightarrow>
      (\<exists>m. submit_internal env target e qos adm from_isr (rt_sys rt1)
        = Some (result RejectedState 0, (rt_sys rt1)\<lparr>pool_world := w, monitor := m\<rparr>))" using submit_closed by blast
  ultimately show ?thesis using r(1,5) by (intro exI [of _ rt1] exI [of _ ?rt2]) (simp only: simp_thms)
qed

text \<open>A runtime is set up and started, stopped and started again; an event allocated before is then submitted.\<close>
theorem restart_rejects_submissions_witness:
  "\<exists>(rt :: (int list, nat) Runtime) rt1 rt2 e s'.
     runtime_setup [BindNext (Some 0)] StartVoid DefaultConfig
       (runtime_new RingBackend DefaultConfig 4 None 0 demo_world1 (\<lambda>_. demo_ao)) = Some (True, rt)
     \<and> runtime_stop RttSingleCoreProfile demo_env rt = Some rt1 \<and> runtime_start StartVoid rt1 = Some (True, rt2)
     \<and> submit_internal demo_env 1 e \<lparr>critical = True, mergeable = False\<rparr> Ordinary True (rt_sys rt2) = Some (result RejectedState 0, s')"
proof -
  obtain F e where e: "world_inv demo_world1 F (\<lambda>_. [])" "releasable demo_world1 (live_map demo_world1 F (\<lambda>_. [])) [e]"
    using demo_releasable by blast
  have c: "env_cfg demo_env = DefaultConfig" "(2 :: nat) < 2 ^ 64" "ao_ready ((\<lambda>_. demo_ao) a)" for a :: nat
    using demo_ao_ready by (simp_all add: demo_env_def)
  obtain rt :: "(int list, nat) Runtime" where rt: "runtime_setup [BindNext (Some 0)] StartVoid DefaultConfig
        (runtime_new RingBackend DefaultConfig 4 None 0 demo_world1 (\<lambda>_. demo_ao)) = Some (True, rt)"
      "rt_started rt" "rt_initialized rt" "deferred (rt_disp rt) = None" "sys_inv DefaultConfig [] (rt_sys rt)"
      "submissions_idle (staging (rt_sys rt))" "slots (staging (rt_sys rt)) = []" "pool_world (rt_sys rt) = demo_world1"
    using runtime_setup_ok [OF demo_config(1) c(3,2), where binds = "[BindNext (Some 0)]" and pal = StartVoid and b = RingBackend
      and sn = 4 and adm = None and ctx = 0 and w = demo_world1] by auto
  obtain T where "accounts ImmediateReclaimer [e] [] T (rt_sys rt)" using accounts_start [of "rt_sys rt" F "[e]"] rt(7,8) e by auto
  then have "disp_inv DefaultConfig ImmediateReclaimer [e] T (rt_disp rt)" using rt(4,5) by (simp add: disp_inv_def hand_def rt_sys_def)
  from restart_rejects_submissions [OF this c(1) demo_config(3) rt(6,2,3), of RttSingleCoreProfile StartVoid] obtain rt1 rt2 where
    r: "runtime_stop RttSingleCoreProfile demo_env rt = Some rt1" "runtime_start StartVoid rt1 = Some (True, rt2)"
      "accounts ImmediateReclaimer [e] [] T (rt_sys rt2)"
      "\<forall>target e qos adm from_isr w. event_gc e (pool_world (rt_sys rt2)) = Some w \<longrightarrow>
        (\<exists>m. submit_internal demo_env target e qos adm from_isr (rt_sys rt2)
          = Some (result RejectedState 0, (rt_sys rt2)\<lparr>pool_world := w, monitor := m\<rparr>))" by auto
  obtain w where "event_gc e (pool_world (rt_sys rt2)) = Some w" using accounts_gc [OF r(3)] by auto
  then show ?thesis using rt(1) r(1,2,4) by blast
qed

section \<open>A started runtime\<close>

text \<open>One bound AO, empty queues and a pool from which nothing has been taken.\<close>
lemma demo_runtime:
  obtains rt where "runtime_setup [BindNext (Some 0)] StartVoid DefaultConfig
        (runtime_new MpscBackend DefaultConfig 4 None (0 :: nat) demo_world (\<lambda>_. demo_ao)) = Some (True, rt)"
    "sys_inv DefaultConfig [] (rt_sys rt)" "accounts ImmediateReclaimer [] [] Map.empty (rt_sys rt)"
    "registered (pool_world (rt_sys rt)) 7" "staging_fresh 1 (staging (rt_sys rt))"
proof -
  have r: "ao_ready demo_ao" "pal_start_dispatcher StartVoid" by (simp_all add: demo_ao_ready)
  obtain rt where rt: "runtime_setup [BindNext (Some 0)] StartVoid DefaultConfig
        (runtime_new MpscBackend DefaultConfig 4 None (0 :: nat) demo_world (\<lambda>_. demo_ao)) = Some (True, rt)"
      "sys_inv DefaultConfig [] (rt_sys rt)" "staging_fresh 1 (staging (rt_sys rt))" "slots (staging (rt_sys rt)) = []"
      "pool_world (rt_sys rt) = demo_world"
    using runtime_setup_ok [OF demo_config(1) r(1), where n = 1 and b = MpscBackend and binds = "[BindNext (Some 0)]" and pal = StartVoid
      and sn = 4 and adm = None and ctx = 0 and w = demo_world] r(2) by auto
  moreover have "accounts ImmediateReclaimer [] [] Map.empty (rt_sys rt)"
    using accounts_start [of "rt_sys rt" demo_free "[]"] demo_world_inv rt(4,5) by (simp add: releasable_def)
  ultimately show thesis using that demo_world_inv(3) by simp
qed

end
