(* ===== verification/Posting.thy ===== *)
theory Posting
  imports Dispatcher_Properties
begin

text \<open>
  Components that allocate an event and submit it themselves, such as the timer and the task
  registry: the pair of calls keeps the system consistent and leaks nothing.
\<close>

lemma accounts_alloc:
  assumes acc: "accounts ImmediateReclaimer X D T s" and r: "registered (pool_world s) r"
  shows "alloc r sig (pool_world s) = (None, pool_world s)
    \<or> (\<exists>e w. alloc r sig (pool_world s) = (Some e, w) \<and> accounts ImmediateReclaimer (e # X) D T (s\<lparr>pool_world := w\<rparr>) \<and> registered w r)"
proof -
  let ?w = "pool_world s" and ?es = "X @ held_events D s"
  obtain F where a: "world_inv ?w F (\<lambda>_. [])" "releasable ?w (live_map ?w F (\<lambda>_. [])) ?es"
      "fold spec_gc ?es (live_map ?w F (\<lambda>_. [])) = T" using acc by (auto simp: accounts_def)
  show ?thesis
  proof (cases "unat (used (pools ?w r)) < unat (capacity (pools ?w r))")
    case False
    then show ?thesis using alloc_full [OF a(1) r, of 0 sig] by (simp add: alloc_def)
  next
    case True
    let ?ev = "\<lparr>signal = sig, ev_pool_id = pool_id (pools ?w r), ref_ctr = 1\<rparr>" and ?L = "live_map ?w F (\<lambda>_. [])"
    obtain e w F' where b: "alloc r sig ?w = (Some e, w)" "world_inv w F' (\<lambda>_. [])" "?L e = None"
        "live_map w F' (\<lambda>_. []) = ?L(e := Some ?ev)" "pool_update ?w r w"
      using alloc_refines [OF a(1) r, of 0 sig] True by (auto simp: alloc_def)
    have fr: "world_frame ?w w" by (rule pool_update_frame [OF b(5) r])
    have new: "e \<notin> set ?es"
    proof
      assume "e \<in> set ?es"
      then have "static_event ?w e" using a(2) b(3) unfolding releasable_def by fastforce
      then have "live_map w F' (\<lambda>_. []) e = None" using static_live_map world_frame_same(5) [OF fr] by blast
      then show False by (simp add: b(4))
    qed
    have "releasable w (?L(e := Some ?ev)) (e # ?es)"
      unfolding releasable_def
    proof
      fix x assume x: "x \<in> set (e # ?es)"
      show "case (?L(e := Some ?ev)) x of None \<Rightarrow> static_event w x | Some ev \<Rightarrow> count_list (e # ?es) x \<le> unat (ref_ctr ev)"
      proof (cases "x = e")
        case True
        then show ?thesis using new count_notin [OF new] by simp
      next
        case False
        then have "x \<in> set ?es" using x by simp
        then have "case ?L x of None \<Rightarrow> static_event ?w x | Some ev \<Rightarrow> count_list ?es x \<le> unat (ref_ctr ev)"
          using a(2) unfolding releasable_def by blast
        then show ?thesis using False world_frame_same(5) [OF fr] by (cases "?L x") simp_all
      qed
    qed
    moreover have g: "spec_gc e (?L(e := Some ?ev)) = ?L" using b(3) by (auto simp: spec_gc_def)
    have "fold spec_gc (e # ?es) (?L(e := Some ?ev)) = T" using a(3) by (simp only: fold_Cons o_apply g)
    ultimately have "accounts ImmediateReclaimer (e # X) D T (s\<lparr>pool_world := w\<rparr>)"
      using b(2,4) by (intro accountsI [of _ F' "\<lambda>_. []" _ "?L(e := Some ?ev)"]) (simp_all del: fold_Cons fold_append)
    then show ?thesis using b(1) world_frame_same(1) [OF fr] r by simp
  qed
qed

lemma event_gc_registered: "event_gc e w = Some w' \<Longrightarrow> registered w' r = registered w r"
  by (auto simp: event_gc_def reclaim_def Let_def bind_eq_Some_conv set_event_def upd_pool_def store_next_def registered_def
      split: if_splits)

lemma post_event_ok:
  assumes "sys_inv cfg D s" "accounts ImmediateReclaimer X D T s" "registered (pool_world s) r"
    and cfg: "env_cfg env = cfg" "small_config cfg" "length D \<le> 1" and fr: "staging_fresh (Suc n) (staging s)"
  shows "alloc r sig (pool_world s) = (None, pool_world s)
    \<or> (\<exists>e w res s1. alloc r sig (pool_world s) = (Some e, w)
         \<and> submit_from_task env target e qos Ordinary (s\<lparr>pool_world := w\<rparr>) = Some (res, s1)
         \<and> sys_inv cfg D s1 \<and> accounts ImmediateReclaimer X D T s1 \<and> registered (pool_world s1) r \<and> staging_fresh n (staging s1))"
  using accounts_alloc [OF assms(2,3), of sig]
proof (elim disjE exE conjE)
  fix e w
  assume a: "alloc r sig (pool_world s) = (Some e, w)" "accounts ImmediateReclaimer (e # X) D T (s\<lparr>pool_world := w\<rparr>)" "registered w r"
  let ?s = "s\<lparr>pool_world := w\<rparr>"
  have "sys_inv cfg D ?s" "staging_fresh (Suc n) (staging ?s)" using assms(1) fr by simp_all
  from submit_account [OF this(1) a(2) cfg this(2), of target qos Ordinary False]
  obtain res s1 where s1: "submit_internal env target e qos Ordinary False ?s = Some (res, s1)" "sys_inv cfg D s1"
      "accounts ImmediateReclaimer X D T s1" "staging_fresh n (staging s1)" "submit_effect target e res ?s s1" by blast
  have "registered (pool_world s1) r"
    using s1(5) a(3) event_gc_registered [of e w "pool_world s1" r] by (auto simp: submit_effect_def split: if_splits)
  then show ?thesis using a(1) s1(1-4) by (auto simp: submit_from_task_def)
qed simp

end
