(* ===== verification/Timer_Properties.thy ===== *)
theory Timer_Properties
  imports Timer Runtime_Properties Posting
begin

text \<open>
  Correctness of the timer scheduler: a poll fires every due task exactly once and moves
  periodic tasks to their first deadline in the future, identifiers are unique until the
  counter wraps, and the events a poll allocates are accounted for like those of any other
  producer.
\<close>

section \<open>Catching up\<close>

lemma catch_up_ok:
  assumes "period \<noteq> 0" "unat now + unat period < 2 ^ 64"
  shows "\<exists>k f. catch_up period now fire = Some f \<and> unat f = unat fire + k * unat period \<and> now < f
    \<and> (if fire \<le> now then f \<le> now + period else k = 0)"
proof (induction "unat now + 1 - unat fire" arbitrary: fire rule: less_induct)
  case less
  have p: "0 < unat period" using assms(1) by (simp add: unat_gt_0)
  have np: "unat (now + period) = unat now + unat period" using assms(2) by (intro unat_add_small) simp
  show ?case
  proof (cases "fire \<le> now")
    case False
    then show ?thesis by (intro exI [of _ 0] exI [of _ fire]) (subst catch_up.simps, simp)
  next
    case True
    then have le: "unat fire \<le> unat now" by (simp add: word_le_nat_alt)
    have fp: "unat (fire + period) = unat fire + unat period" using le assms(2) by (intro unat_add_small) simp
    have "unat now + 1 - unat (fire + period) < unat now + 1 - unat fire" using le p fp by simp
    from less.hyps [OF this] obtain k f where k: "catch_up period now (fire + period) = Some f"
        "unat f = unat (fire + period) + k * unat period" "now < f"
        "if fire + period \<le> now then f \<le> now + period else k = 0" by blast
    have "f \<le> now + period" using k(2,4) fp np le by (cases "fire + period \<le> now") (simp_all add: word_le_nat_alt)
    moreover have "catch_up period now fire = Some f" using True k(1) by (subst catch_up.simps) simp
    moreover have "unat f = unat fire + Suc k * unat period" using k(2) fp by simp
    ultimately show ?thesis using k(3) True by (intro exI [of _ "Suc k"] exI [of _ f]) simp
  qed
qed

section \<open>A poll\<close>

definition due :: "u64 \<Rightarrow> TaskSlot \<Rightarrow> bool" where
  "due now x \<longleftrightarrow> ts_active x \<and> next_fire_ns x \<le> now"

definition firing :: "TaskSlot \<Rightarrow> PendingFire" where
  "firing x = \<lparr>pf_target = ts_target x, pf_signal = ts_signal x, pf_qos = ts_qos x\<rparr>"

text \<open>What a poll makes of a slot.\<close>
definition polled :: "u64 \<Rightarrow> TaskSlot \<Rightarrow> TaskSlot \<Rightarrow> bool" where
  "polled now x y \<longleftrightarrow>
     (if \<not> due now x then y = x
      else if one_shot x then y = x\<lparr>ts_active := False\<rparr>
      else \<exists>k f. y = x\<lparr>next_fire_ns := f\<rparr> \<and> unat f = unat (next_fire_ns x) + Suc k * unat (period_ns x)
             \<and> now < f \<and> f \<le> now + period_ns x)"

text \<open>Periods are positive and deadlines do not wrap.\<close>
definition periods_ok :: "u64 \<Rightarrow> TaskSlot list \<Rightarrow> bool" where
  "periods_ok now xs \<longleftrightarrow> (\<forall>x \<in> set xs. ts_active x \<longrightarrow> period_ns x \<noteq> 0 \<and> unat now + unat (period_ns x) < 2 ^ 64)"

lemma collect_ok:
  assumes "periods_ok now xs"
  shows "\<exists>ys. collect now xs = Some (map firing (filter (due now) xs), ys) \<and> list_all2 (polled now) xs ys"
  using assms
proof (induction xs)
  case (Cons x xs)
  obtain ys where ys: "collect now xs = Some (map firing (filter (due now) xs), ys)" "list_all2 (polled now) xs ys"
    using Cons by (auto simp: periods_ok_def)
  show ?case
  proof (cases "due now x")
    case False
    then have "\<not> ts_active x \<or> now < next_fire_ns x" by (auto simp: due_def)
    moreover have "polled now x x" using False by (simp add: polled_def)
    ultimately show ?thesis using False ys by auto
  next
    case True
    then have a: "ts_active x" "next_fire_ns x \<le> now" "\<not> now < next_fire_ns x" by (auto simp: due_def)
    show ?thesis
    proof (cases "one_shot x")
      case once: True
      then have "polled now x (x\<lparr>ts_active := False\<rparr>)" using True by (simp add: polled_def)
      then show ?thesis using True once a ys by (simp add: firing_def)
    next
      case False
      have p: "period_ns x \<noteq> 0" "unat now + unat (period_ns x) < 2 ^ 64" using Cons.prems a(1) by (auto simp: periods_ok_def)
      have le: "unat (next_fire_ns x) \<le> unat now" using a(2) by (simp add: word_le_nat_alt)
      have s: "unat (next_fire_ns x + period_ns x) = unat (next_fire_ns x) + unat (period_ns x)"
        using p(2) le by (intro unat_add_small) simp
      have np: "unat (now + period_ns x) = unat now + unat (period_ns x)" using p(2) by (intro unat_add_small) simp
      obtain k f where f: "catch_up (period_ns x) now (next_fire_ns x + period_ns x) = Some f"
          "unat f = unat (next_fire_ns x + period_ns x) + k * unat (period_ns x)" "now < f"
          "if next_fire_ns x + period_ns x \<le> now then f \<le> now + period_ns x else k = 0" using catch_up_ok [OF p] by blast
      have "f \<le> now + period_ns x"
        using f(2,4) s np le by (cases "next_fire_ns x + period_ns x \<le> now") (simp_all add: word_le_nat_alt)
      moreover have "unat f = unat (next_fire_ns x) + Suc k * unat (period_ns x)" using f(2) s by simp
      ultimately have "polled now x (x\<lparr>next_fire_ns := f\<rparr>)" using True False f(3) unfolding polled_def by auto
      then show ?thesis using True False a ys f(1) by (simp add: firing_def)
    qed
  qed
qed simp

section \<open>Identifiers\<close>

definition active_ids :: "TimerScheduler \<Rightarrow> u32 list" where
  "active_ids tm = map ts_id (filter ts_active (tm_slots tm))"

definition timer_inv :: "TimerScheduler \<Rightarrow> bool" where
  "timer_inv tm \<longleftrightarrow> distinct (active_ids tm) \<and> (\<forall>i \<in> set (active_ids tm). 0 < i \<and> i < next_id tm) \<and> next_id tm \<noteq> 0"

lemma first_free_Some:
  "first_free k xs = Some i \<Longrightarrow> k \<le> i \<and> i - k < length xs \<and> \<not> ts_active (xs ! (i - k))"
  by (induction k xs rule: first_free.induct) (auto simp: nth_Cons' split: if_splits)

lemma first_free_None: "first_free k xs = None \<longleftrightarrow> (\<forall>x \<in> set xs. ts_active x)"
  by (induction k xs rule: first_free.induct) auto

lemma filter_update:
  assumes "i < length xs" "\<not> P (xs ! i)" "P x"
  shows "\<exists>as bs. filter P xs = as @ bs \<and> filter P (xs[i := x]) = as @ x # bs"
proof -
  have "xs = take i xs @ xs ! i # drop (Suc i) xs" by (rule id_take_nth_drop [OF assms(1)])
  then have "filter P xs = filter P (take i xs) @ filter P (drop (Suc i) xs)"
    using assms(2) by (metis filter.simps(2) filter_append)
  moreover have "filter P (xs[i := x]) = filter P (take i xs) @ x # filter P (drop (Suc i) xs)"
    using assms(1,3) by (simp add: upd_conv_take_nth_drop)
  ultimately show ?thesis by blast
qed

lemma cancel_scan_split:
  assumes "filter ts_active xs = as @ x # bs" "ts_id x = i" "i \<notin> ts_id ` set as"
  shows "\<exists>ys. cancel_scan i xs = Some ys \<and> filter ts_active ys = as @ bs"
  using assms
proof (induction xs arbitrary: as)
  case (Cons z zs)
  show ?case
  proof (cases "ts_active z \<and> ts_id z = i")
    case True
    have "as = []" using True Cons.prems by (cases as) auto
    then show ?thesis using True Cons.prems by auto
  next
    case False
    show ?thesis
    proof (cases "ts_active z")
      case True
      then obtain as' where "as = z # as'" using Cons.prems False by (cases as) auto
      then show ?thesis using Cons.IH [of as'] Cons.prems True False by auto
    next
      case inactive: False
      then show ?thesis using Cons.IH [of as] Cons.prems False by auto
    qed
  qed
qed simp

lemma cancel_scan_None: "cancel_scan i xs = None \<longleftrightarrow> i \<notin> ts_id ` set (filter ts_active xs)"
  by (induction i xs rule: cancel_scan.induct) auto

lemma schedule_Inr:
  assumes "schedule now target sig ms qos once tm = (Inr i, tm1)"
  shows "i = next_id tm" "next_id tm1 = next_id tm + 1"
    "\<exists>as bs x. filter ts_active (tm_slots tm) = as @ bs \<and> filter ts_active (tm_slots tm1) = as @ x # bs \<and> ts_id x = i"
proof -
  obtain k where k: "first_free 0 (tm_slots tm) = Some k" using assms by (auto simp: schedule_def split: if_splits option.splits)
  let ?x = "\<lparr>ts_target = target, ts_signal = sig, ts_qos = qos, period_ns = ucast ms * kNsPerMs,
      next_fire_ns = now + ucast ms * kNsPerMs, ts_id = next_id tm, ts_active = True, one_shot = once\<rparr>"
  have t: "i = next_id tm" "tm1 = tm\<lparr>tm_slots := (tm_slots tm)[k := ?x], next_id := next_id tm + 1\<rparr>"
    using assms k by (auto simp: schedule_def Let_def split: if_splits)
  have "k < length (tm_slots tm)" "\<not> ts_active (tm_slots tm ! k)" using first_free_Some [OF k] by simp_all
  from filter_update [where P = ts_active, OF this, of ?x] obtain as bs where "filter ts_active (tm_slots tm) = as @ bs"
      "filter ts_active (tm_slots tm1) = as @ ?x # bs" unfolding t by auto
  moreover have "ts_id ?x = i" by (simp add: t)
  ultimately show "\<exists>as bs x. filter ts_active (tm_slots tm) = as @ bs \<and> filter ts_active (tm_slots tm1) = as @ x # bs \<and> ts_id x = i" by blast
  show "i = next_id tm" "next_id tm1 = next_id tm + 1" by (simp_all add: t)
qed

section \<open>Accounting for the events\<close>

lemma fresh_mono: "staging_fresh n sg \<Longrightarrow> m \<le> n \<Longrightarrow> staging_fresh m sg"
proof (induction n)
  case (Suc n)
  then have "staging_fresh n sg" by (auto simp: staging_fresh_def intro: staging_queue.fresh_less)
  then show ?case using Suc by (cases "m = Suc n") simp_all
qed simp

lemma submit_pending_ok:
  assumes "sys_inv cfg D s" "accounts ImmediateReclaimer X D T s" "registered (pool_world s) r"
    and cfg: "env_cfg env = cfg" "small_config cfg" "length D \<le> 1" and "staging_fresh (length ps) (staging s)"
  shows "\<exists>tm' s'. submit_pending env r ps tm s = Some (tm', s') \<and> sys_inv cfg D s' \<and> accounts ImmediateReclaimer X D T s'
    \<and> tm_slots tm' = tm_slots tm \<and> fired_count tm' + skipped_count tm' = fired_count tm + skipped_count tm + of_nat (length ps)"
  using assms(1,2,3,7)
proof (induction ps arbitrary: tm s)
  case (Cons p ps)
  note inv = Cons.prems(1) and acc = Cons.prems(2) and reg = Cons.prems(3)
  have fr: "staging_fresh (Suc (length ps)) (staging s)" using Cons.prems(4) by simp
  from post_event_ok [OF inv acc reg cfg fr, of "pf_signal p" "pf_target p" "pf_qos p"] show ?case
  proof (elim disjE exE conjE)
    assume a: "alloc r (pf_signal p) (pool_world s) = (None, pool_world s)"
    from Cons.IH [OF inv acc reg fresh_mono [OF fr], of "tm\<lparr>skipped_count := skipped_count tm + 1\<rparr>"] show ?thesis
      using a by (auto simp: algebra_simps)
  next
    fix e w res s1
    assume a: "alloc r (pf_signal p) (pool_world s) = (Some e, w)"
        "submit_from_task env (pf_target p) e (pf_qos p) Ordinary (s\<lparr>pool_world := w\<rparr>) = Some (res, s1)"
      and s1: "sys_inv cfg D s1" "accounts ImmediateReclaimer X D T s1" "registered (pool_world s1) r" "staging_fresh (length ps) (staging s1)"
    from Cons.IH [OF s1, of "tm\<lparr>fired_count := fired_count tm + 1\<rparr>"] show ?thesis
      using a by (auto simp: algebra_simps)
  qed
qed simp

lemma submit_pending_full:
  assumes "world_inv (pool_world s) F P" "registered (pool_world s) r" "used (pools (pool_world s) r) = capacity (pools (pool_world s) r)"
  shows "submit_pending env r ps tm s = Some (tm\<lparr>skipped_count := skipped_count tm + of_nat (length ps)\<rparr>, s)"
proof (induction ps arbitrary: tm)
  case (Cons p ps)
  have "alloc r (pf_signal p) (pool_world s) = (None, pool_world s)"
    using alloc_full [OF assms(1,2), of 0 "pf_signal p"] assms(3) by (simp add: alloc_def)
  then show ?case using Cons by (simp add: algebra_simps)
qed simp

text \<open>A pool from which every block has been taken, for the instances below.\<close>
lemma demo_full:
  "\<exists>w F. world_inv w F (\<lambda>_. []) \<and> registered w 7 \<and> used (pools w 7) = capacity (pools w 7)
     \<and> w = ((\<lambda>w. snd (alloc 7 5 w)) ^^ 4) demo_world"
proof -
  have "\<exists>F. world_inv w F (\<lambda>_. []) \<and> registered w 7 \<and> capacity (pools w 7) = capacity (pools demo_world 7) \<and> unat (used (pools w 7)) = n"
    if "n \<le> 4" "w = ((\<lambda>w. snd (alloc 7 5 w)) ^^ n) demo_world" for n w
    using that
  proof (induction n arbitrary: w)
    case 0
    then show ?case using demo_world_inv by auto
  next
    case (Suc n)
    let ?v = "((\<lambda>w. snd (alloc 7 5 w)) ^^ n) demo_world"
    obtain F where v: "world_inv ?v F (\<lambda>_. [])" "registered ?v 7" "capacity (pools ?v 7) = capacity (pools demo_world 7)"
        "unat (used (pools ?v 7)) = n" using Suc by auto
    have room: "unat (used (pools ?v 7)) + unat (0 :: u16) < unat (capacity (pools ?v 7))"
      using v(3,4) Suc.prems(1) demo_world_inv(4) by simp
    obtain a F' where a: "alloc_with_margin 7 5 0 ?v = (Some a, w)" "world_inv w F' (\<lambda>_. [])"
        "used (pools w 7) = used (pools ?v 7) + 1" "pool_update ?v 7 w"
      using alloc_refines [OF v(1,2) room, of 5] Suc.prems(2) by (auto simp: alloc_def)
    have "unat (used (pools ?v 7) + 1) = Suc n" using unat_inc [of "used (pools ?v 7)"] v(4) Suc.prems(1) by simp
    then show ?case using a v(2,3) pool_update_same [OF a(4)] by auto
  qed
  from this [of 4] show ?thesis using demo_world_inv(4) by (metis word_unat_eq_iff le_refl)
qed

section \<open>Properties\<close>

text \<open>
  C12. A poll fires every due task exactly once and no other task, in the order of the slots.
  Afterwards a fired one-shot task is inactive, a fired periodic task has the first of its
  deadlines that lies in the future (missed periods are skipped, the phase is kept), every
  other task is unchanged; the scan ends, provided periods are positive and deadlines stay
  below 2^64 ns.
\<close>
theorem poll_fires_due_tasks_once:
  assumes "\<forall>x \<in> set xs. ts_active x \<longrightarrow> period_ns x \<noteq> 0 \<and> unat now + unat (period_ns x) < 2 ^ 64"
  shows "\<exists>ys. collect now xs = Some (map firing (filter (\<lambda>x. ts_active x \<and> next_fire_ns x \<le> now) xs), ys)
    \<and> list_all2 (\<lambda>x y.
        if \<not> (ts_active x \<and> next_fire_ns x \<le> now) then y = x
        else if one_shot x then y = x\<lparr>ts_active := False\<rparr>
        else \<exists>k f. y = x\<lparr>next_fire_ns := f\<rparr> \<and> unat f = unat (next_fire_ns x) + Suc k * unat (period_ns x)
               \<and> now < f \<and> f \<le> now + period_ns x) xs ys"
proof -
  have p: "periods_ok now xs" using assms by (simp add: periods_ok_def)
  have "due now = (\<lambda>x. ts_active x \<and> next_fire_ns x \<le> now)" by (auto simp: due_def)
  moreover have "polled now = (\<lambda>x y. if \<not> (ts_active x \<and> next_fire_ns x \<le> now) then y = x
      else if one_shot x then y = x\<lparr>ts_active := False\<rparr>
      else \<exists>k f. y = x\<lparr>next_fire_ns := f\<rparr> \<and> unat f = unat (next_fire_ns x) + Suc k * unat (period_ns x)
             \<and> now < f \<and> f \<le> now + period_ns x)" by (intro ext) (simp only: polled_def due_def)
  ultimately show ?thesis using collect_ok [OF p] by simp
qed

text \<open>A 10 ms task that is three and a half periods late fires once and is next due in half a period.\<close>
theorem poll_fires_due_tasks_once_witness:
  "\<exists>y f. collect 45000000 [empty_task\<lparr>ts_active := True, period_ns := 10000000, next_fire_ns := 10000000\<rparr>]
       = Some ([firing empty_task], [y]) \<and> next_fire_ns y = f \<and> 45000000 < f \<and> f \<le> 55000000"
proof -
  let ?x = "empty_task\<lparr>ts_active := True, period_ns := 10000000, next_fire_ns := 10000000\<rparr>"
  have "\<forall>x \<in> set [?x]. ts_active x \<longrightarrow> period_ns x \<noteq> 0 \<and> unat (45000000 :: u64) + unat (period_ns x) < 2 ^ 64" by simp
  from poll_fires_due_tasks_once [OF this] obtain y where "collect 45000000 [?x] = Some ([firing ?x], [y])"
      "\<exists>k f. y = ?x\<lparr>next_fire_ns := f\<rparr> \<and> unat f = 10000000 + Suc k * 10000000 \<and> 45000000 < f \<and> f \<le> 45000000 + 10000000"
    by (auto simp: empty_task_def list_all2_Cons1)
  moreover have "firing ?x = firing empty_task" by (simp add: firing_def)
  ultimately show ?thesis by auto
qed

text \<open>
  C13. Scheduling and cancelling are inverse: as long as the identifier counter does not wrap,
  a schedule hands out a valid identifier that no active task has, cancelling it restores
  exactly the active tasks there were before, and a second cancel reports kNotFound.
\<close>
theorem schedule_cancel_roundtrip:
  assumes "timer_inv tm" and "schedule now target sig ms qos once tm = (Inr i, tm1)" and "i \<noteq> - 1"
  shows "timer_inv tm1 \<and> i \<noteq> kInvalidTimerTaskId \<and> i \<notin> set (active_ids tm)
    \<and> (\<exists>tm2. cancel i tm1 = (Inr (), tm2) \<and> filter ts_active (tm_slots tm2) = filter ts_active (tm_slots tm)
         \<and> cancel i tm2 = (Inl kNotFound, tm2))"
proof -
  note S = schedule_Inr [OF assms(2)]
  obtain as bs x where x: "filter ts_active (tm_slots tm) = as @ bs" "filter ts_active (tm_slots tm1) = as @ x # bs" "ts_id x = i"
    using S(3) by blast
  have D: "distinct (map ts_id (as @ bs))" "\<And>j. j \<in> ts_id ` set (as @ bs) \<Longrightarrow> 0 < j \<and> j < i" "i \<noteq> 0"
    using assms(1) S(1) by (auto simp: timer_inv_def active_ids_def x(1))
  have lt: "i < i + 1" using assms(3) inc_less_eq_self_iff_eq [of i] by (auto simp: not_le [symmetric])
  have new: "i \<notin> ts_id ` set (as @ bs)" using D(2) by blast
  have "timer_inv tm1" unfolding timer_inv_def active_ids_def x(2) S(2) S(1) [symmetric]
    using D new lt x(3) by (auto simp: word_neq_0_conv intro: order.strict_trans)
  moreover obtain ys where c: "cancel_scan i (tm_slots tm1) = Some ys" "filter ts_active ys = as @ bs"
    using cancel_scan_split [OF x(2,3)] new by auto
  have "cancel_scan i ys = None" unfolding cancel_scan_None c(2) by (rule new)
  then have "cancel i (tm1\<lparr>tm_slots := ys\<rparr>) = (Inl kNotFound, tm1\<lparr>tm_slots := ys\<rparr>)" by (simp add: cancel_def)
  moreover have "cancel i tm1 = (Inr (), tm1\<lparr>tm_slots := ys\<rparr>)" using c(1) by (simp add: cancel_def)
  moreover have "i \<notin> set (active_ids tm)" using new by (simp add: active_ids_def x(1) image_Un)
  ultimately show ?thesis using D(3) c(2) x(1) by (auto simp: kInvalidTimerTaskId_def)
qed

theorem schedule_cancel_roundtrip_witness:
  "\<exists>tm1 tm2. schedule 0 3 7 10 \<lparr>critical = False, mergeable = False\<rparr> False (timer_new 1) = (Inr 1, tm1)
     \<and> cancel 1 tm1 = (Inr (), tm2) \<and> cancel 1 tm2 = (Inl kNotFound, tm2)"
proof -
  obtain tm1 where t: "schedule 0 3 7 10 \<lparr>critical = False, mergeable = False\<rparr> False (timer_new 1) = (Inr 1, tm1)"
    by (simp add: schedule_def timer_new_def empty_task_def Let_def)
  have i: "timer_inv (timer_new 1)" by (simp add: timer_inv_def active_ids_def timer_new_def empty_task_def)
  have "(1 :: u32) \<noteq> - 1" by simp
  from schedule_cancel_roundtrip [OF i t this] show ?thesis using t by blast
qed

text \<open>
  C10. The timer leaks nothing: in a consistent system a poll returns, every due task is either
  handed to the coordinator or counted as skipped, the system stays consistent, and the
  events that will be live once all held references are released are the same as before the
  poll, so each event it allocated is held by a queued slot or already released. A
  due one-shot task is inactive afterwards in both cases, a due periodic one waits for its
  next period.
\<close>
theorem poll_leaks_nothing:
  assumes "sys_inv cfg D s" and "accounts ImmediateReclaimer X D T s" and "registered (pool_world s) r"
    and "env_cfg env = cfg" and "small_config cfg" and "length D \<le> 1"
    and "staging_fresh (length (tm_slots tm)) (staging s)" and "periods_ok now (tm_slots tm)"
  shows "\<exists>tm' s'. poll env r now tm s = Some (tm', s') \<and> sys_inv cfg D s' \<and> accounts ImmediateReclaimer X D T s'
    \<and> list_all2 (polled now) (tm_slots tm) (tm_slots tm')
    \<and> fired_count tm' + skipped_count tm' = fired_count tm + skipped_count tm + of_nat (length (filter (due now) (tm_slots tm)))"
proof -
  obtain ys where c: "collect now (tm_slots tm) = Some (map firing (filter (due now) (tm_slots tm)), ys)"
      "list_all2 (polled now) (tm_slots tm) ys" using collect_ok [OF assms(8)] by blast
  let ?ps = "map firing (filter (due now) (tm_slots tm))"
  have "staging_fresh (length ?ps) (staging s)"
    using fresh_mono [OF assms(7)] by simp
  from submit_pending_ok [OF assms(1-6) this, of "tm\<lparr>tm_slots := ys\<rparr>"] show ?thesis
    using c by (auto simp: poll_def fire_expired_def)
qed

text \<open>A freshly started runtime with one bound AO, and a one-shot task whose time has come.\<close>
theorem poll_leaks_nothing_witness:
  "\<exists>rt tm' s'. runtime_setup [BindNext (Some 0)] StartVoid DefaultConfig
        (runtime_new MpscBackend DefaultConfig 4 None (0 :: nat) demo_world (\<lambda>_. demo_ao)) = Some (True, rt)
    \<and> poll demo_env 7 20 (timer_new 0\<lparr>tm_slots := [empty_task\<lparr>ts_active := True, one_shot := True, period_ns := 10\<rparr>]\<rparr>) (rt_sys rt) = Some (tm', s')
    \<and> fired_count tm' + skipped_count tm' = 1 \<and> sys_inv DefaultConfig [] s'"
proof -
  let ?tm = "timer_new 0\<lparr>tm_slots := [empty_task\<lparr>ts_active := True, one_shot := True, period_ns := 10\<rparr>]\<rparr>"
  obtain rt where rt: "runtime_setup [BindNext (Some 0)] StartVoid DefaultConfig
        (runtime_new MpscBackend DefaultConfig 4 None (0 :: nat) demo_world (\<lambda>_. demo_ao)) = Some (True, rt)"
      "sys_inv DefaultConfig [] (rt_sys rt)" "accounts ImmediateReclaimer [] [] Map.empty (rt_sys rt)"
      "registered (pool_world (rt_sys rt)) 7" "staging_fresh 1 (staging (rt_sys rt))" by (rule demo_runtime)
  have h: "env_cfg demo_env = DefaultConfig" "length [] \<le> (1 :: nat)"
      "staging_fresh (length (tm_slots ?tm)) (staging (rt_sys rt))" "periods_ok 20 (tm_slots ?tm)"
    using rt(5) by (simp_all add: demo_env_def periods_ok_def)
  from poll_leaks_nothing [OF rt(2,3,4) h(1) demo_config(2) h(2,3,4)]
  obtain tm' s' where p: "poll demo_env 7 20 ?tm (rt_sys rt) = Some (tm', s')" "sys_inv DefaultConfig [] s'"
      "fired_count tm' + skipped_count tm' = fired_count ?tm + skipped_count ?tm + of_nat (length (filter (due 20) (tm_slots ?tm)))"
    by (elim exE conjE) (rule that)
  have "fired_count tm' + skipped_count tm' = 1" using p(3) by (simp add: timer_new_def empty_task_def due_def)
  with p(1,2) rt(1) show ?thesis by blast
qed

text \<open>
  C11. A one-shot task is lost when the pool is exhausted at its time: the poll counts the
  firing as skipped, submits nothing and leaves the slot inactive, so that the task is never
  due again. Only periodic tasks stay scheduled.
\<close>
theorem skipped_one_shot_is_lost:
  assumes "world_inv (pool_world s) F P" and "registered (pool_world s) r"
    and "used (pools (pool_world s) r) = capacity (pools (pool_world s) r)" and "periods_ok now (tm_slots tm)"
    and "i < length (tm_slots tm)" and "due now (tm_slots tm ! i)" and "one_shot (tm_slots tm ! i)"
  shows "\<exists>tm'. poll env r now tm s = Some (tm', s) \<and> fired_count tm' = fired_count tm
    \<and> skipped_count tm' = skipped_count tm + of_nat (length (filter (due now) (tm_slots tm)))
    \<and> (\<forall>later. \<not> due later (tm_slots tm' ! i))"
proof -
  obtain ys where c: "collect now (tm_slots tm) = Some (map firing (filter (due now) (tm_slots tm)), ys)"
      "list_all2 (polled now) (tm_slots tm) ys" using collect_ok [OF assms(4)] by blast
  have "polled now (tm_slots tm ! i) (ys ! i)" using c(2) assms(5) by (rule list_all2_nthD)
  then have "\<not> due later (ys ! i)" for later using assms(6,7) by (simp add: polled_def due_def)
  then show ?thesis using c(1) submit_pending_full [OF assms(1-3)] by (simp add: poll_def fire_expired_def)
qed

text \<open>A runtime started with an exhausted pool, and a one-shot task whose time has come.\<close>
theorem skipped_one_shot_is_lost_witness:
  "\<exists>rt tm'. runtime_setup [BindNext (Some 0)] StartVoid DefaultConfig
        (runtime_new MpscBackend DefaultConfig 4 None (0 :: nat) (((\<lambda>w. snd (alloc 7 5 w)) ^^ 4) demo_world) (\<lambda>_. demo_ao)) = Some (True, rt)
    \<and> poll demo_env 7 20 (timer_new 0\<lparr>tm_slots := [empty_task\<lparr>ts_active := True, one_shot := True, period_ns := 10\<rparr>]\<rparr>) (rt_sys rt)
        = Some (tm', rt_sys rt)
    \<and> skipped_count tm' = 1 \<and> fired_count tm' = 0 \<and> \<not> due 1000 (tm_slots tm' ! 0)"
proof -
  let ?tm = "timer_new 0\<lparr>tm_slots := [empty_task\<lparr>ts_active := True, one_shot := True, period_ns := 10\<rparr>]\<rparr>"
  obtain w F where w: "world_inv w F (\<lambda>_. [])" "registered w 7" "used (pools w 7) = capacity (pools w 7)"
      "w = ((\<lambda>w. snd (alloc 7 5 w)) ^^ 4) demo_world" using demo_full by blast
  have r: "ao_ready ((\<lambda>_. demo_ao) a)" "(1 :: nat) < 2 ^ 64" for a :: nat by (simp_all add: demo_ao_ready)
  obtain rt where rt: "runtime_setup [BindNext (Some 0)] StartVoid DefaultConfig
        (runtime_new MpscBackend DefaultConfig 4 None (0 :: nat) w (\<lambda>_. demo_ao)) = Some (True, rt)" "pool_world (rt_sys rt) = w"
    using runtime_setup_ok [OF demo_config(1) r, where b = MpscBackend and binds = "[BindNext (Some 0)]" and pal = StartVoid
      and sn = 4 and adm = None and ctx = 0 and w = w] by auto
  have t: "periods_ok 20 (tm_slots ?tm)" "0 < length (tm_slots ?tm)" "due 20 (tm_slots ?tm ! 0)" "one_shot (tm_slots ?tm ! 0)"
    "filter (due 20) (tm_slots ?tm) = tm_slots ?tm" "skipped_count ?tm = 0" "fired_count ?tm = 0"
    by (simp_all add: periods_ok_def due_def empty_task_def timer_new_def)
  from skipped_one_shot_is_lost [of "rt_sys rt" F "\<lambda>_. []" 7 20 ?tm 0 demo_env, unfolded rt(2), OF w(1-3) t(1-4)] show ?thesis
    using rt(1) w(4) t(5-7) by auto
qed

end
