(* ===== verification/Spsc_Ring.thy ===== *)
theory Spsc_Ring
  imports Queues
begin

text \<open>
  The lock-free single-producer single-consumer ring (spsc_ring.hpp). The operations are
  given twice: as functions, for a caller that runs alone, and as the atomic steps of the
  one producer and the one consumer, in any interleaving. A cell without a constructed
  payload is None. The history collects the results at the access that decides them; the
  main property is that it is always a history of a bounded FIFO, over any number of
  wrap-arounds of the 16-bit sequence counters.
\<close>

section \<open>The ring and its operations\<close>

record 'a SpscRing =
  spsc_head :: u16
  spsc_tail :: u16
  spsc_cells :: "'a option list"

definition is_spsc_ring_config :: "u16 \<Rightarrow> bool" where
  "is_spsc_ring_config Capacity \<longleftrightarrow> Capacity \<ge> 2 \<and> Capacity AND (Capacity - 1) = 0 \<and> Capacity \<le> 0x7FFF"

definition spsc_new :: "u16 \<Rightarrow> 'a SpscRing" where
  "spsc_new Capacity = \<lparr>spsc_head = 0, spsc_tail = 0, spsc_cells = replicate (unat Capacity) None\<rparr>"

definition slot_at :: "u16 \<Rightarrow> u16 \<Rightarrow> nat" where
  "slot_at Capacity seq = unat (seq AND (Capacity - 1))"

definition spsc_try_push :: "u16 \<Rightarrow> 'a \<Rightarrow> 'a SpscRing \<Rightarrow> bool \<times> 'a SpscRing" where
  "spsc_try_push Capacity value r =
     (let h = spsc_head r; t = spsc_tail r; n = h - t
      in if n \<ge> Capacity then (False, r)
         else (True, r\<lparr>spsc_cells := (spsc_cells r)[slot_at Capacity h := Some value], spsc_head := h + 1\<rparr>))"

definition spsc_try_push_observed :: "u16 \<Rightarrow> 'a \<Rightarrow> 'a SpscRing \<Rightarrow> QueueResult \<times> 'a SpscRing" where
  "spsc_try_push_observed Capacity value r =
     (let h = spsc_head r; t = spsc_tail r; n = h - t
      in if n \<ge> Capacity then (\<lparr>success = False, size_after = n\<rparr>, r)
         else (\<lparr>success = True, size_after = n + 1\<rparr>,
               r\<lparr>spsc_cells := (spsc_cells r)[slot_at Capacity h := Some value], spsc_head := h + 1\<rparr>))"

text \<open>The outer option is the read of a cell that holds no payload.\<close>
definition spsc_try_pop :: "u16 \<Rightarrow> 'a SpscRing \<Rightarrow> ('a option \<times> 'a SpscRing) option" where
  "spsc_try_pop Capacity r =
     (let t = spsc_tail r; h = spsc_head r
      in if t = h then Some (None, r)
         else do {
           out \<leftarrow> spsc_cells r ! slot_at Capacity t;
           Some (Some out, r\<lparr>spsc_cells := (spsc_cells r)[slot_at Capacity t := None], spsc_tail := t + 1\<rparr>)
         })"

definition spsc_size :: "u16 \<Rightarrow> 'a SpscRing \<Rightarrow> u16" where
  "spsc_size Capacity r = (let n = spsc_head r - spsc_tail r in if n > Capacity then Capacity else n)"

section \<open>The atomic steps\<close>

datatype 'a PushPc = PushIdle | PushHead 'a u16 | PushRoom 'a u16 | PushWritten 'a u16

datatype 'a PopPc = PopIdle | PopTail u16 | PopReady u16 | PopTaken u16 'a

datatype 'a SpscEvent = Pushed 'a | PushRefused | Popped 'a | PopEmpty

record 'a SpscSystem =
  sp_ring :: "'a SpscRing"
  sp_push :: "'a PushPc"
  sp_pop :: "'a PopPc"
  sp_history :: "'a SpscEvent list"

definition spsc_start :: "u16 \<Rightarrow> 'a SpscSystem" where
  "spsc_start Capacity = \<lparr>sp_ring = spsc_new Capacity, sp_push = PushIdle, sp_pop = PopIdle, sp_history = []\<rparr>"

inductive spsc_step :: "u16 \<Rightarrow> 'a SpscSystem \<Rightarrow> 'a SpscSystem \<Rightarrow> bool" for Capacity where
  sp_push_head: "sp_push y = PushIdle \<Longrightarrow> spsc_step Capacity y (y\<lparr>sp_push := PushHead value (spsc_head (sp_ring y))\<rparr>)"
| sp_push_full: "\<lbrakk>sp_push y = PushHead value h; h - spsc_tail (sp_ring y) \<ge> Capacity\<rbrakk> \<Longrightarrow>
     spsc_step Capacity y (y\<lparr>sp_push := PushIdle, sp_history := sp_history y @ [PushRefused]\<rparr>)"
| sp_push_room: "\<lbrakk>sp_push y = PushHead value h; \<not> h - spsc_tail (sp_ring y) \<ge> Capacity\<rbrakk> \<Longrightarrow>
     spsc_step Capacity y (y\<lparr>sp_push := PushRoom value h\<rparr>)"
| sp_push_write: "sp_push y = PushRoom value h \<Longrightarrow>
     spsc_step Capacity y (y\<lparr>sp_push := PushWritten value h,
       sp_ring := (sp_ring y)\<lparr>spsc_cells := (spsc_cells (sp_ring y))[slot_at Capacity h := Some value]\<rparr>\<rparr>)"
| sp_push_publish: "sp_push y = PushWritten value h \<Longrightarrow>
     spsc_step Capacity y (y\<lparr>sp_push := PushIdle, sp_ring := (sp_ring y)\<lparr>spsc_head := h + 1\<rparr>,
       sp_history := sp_history y @ [Pushed value]\<rparr>)"
| sp_pop_tail: "sp_pop y = PopIdle \<Longrightarrow> spsc_step Capacity y (y\<lparr>sp_pop := PopTail (spsc_tail (sp_ring y))\<rparr>)"
| sp_pop_empty: "\<lbrakk>sp_pop y = PopTail t; t = spsc_head (sp_ring y)\<rbrakk> \<Longrightarrow>
     spsc_step Capacity y (y\<lparr>sp_pop := PopIdle, sp_history := sp_history y @ [PopEmpty]\<rparr>)"
| sp_pop_ready: "\<lbrakk>sp_pop y = PopTail t; t \<noteq> spsc_head (sp_ring y)\<rbrakk> \<Longrightarrow> spsc_step Capacity y (y\<lparr>sp_pop := PopReady t\<rparr>)"
| sp_pop_take: "\<lbrakk>sp_pop y = PopReady t; spsc_cells (sp_ring y) ! slot_at Capacity t = Some out\<rbrakk> \<Longrightarrow>
     spsc_step Capacity y (y\<lparr>sp_pop := PopTaken t out,
       sp_ring := (sp_ring y)\<lparr>spsc_cells := (spsc_cells (sp_ring y))[slot_at Capacity t := None]\<rparr>\<rparr>)"
| sp_pop_recycle: "sp_pop y = PopTaken t out \<Longrightarrow>
     spsc_step Capacity y (y\<lparr>sp_pop := PopIdle, sp_ring := (sp_ring y)\<lparr>spsc_tail := t + 1\<rparr>,
       sp_history := sp_history y @ [Popped out]\<rparr>)"

section \<open>Sequence counters\<close>

lemma power_of_two_nat: "0 < c \<Longrightarrow> c AND (c - 1) = 0 \<Longrightarrow> \<exists>k. c = 2 ^ k" for c :: nat
proof (induction c rule: less_induct)
  case (less c)
  show ?case
  proof (cases "even c")
    case True
    then obtain m where m: "c = 2 * m" by (elim evenE)
    then have "0 < m" "c - 1 = 1 + 2 * (m - 1)" using less.prems(1) by simp_all
    then have "2 * (m AND (m - 1)) = 0" using less.prems(2) m by (simp add: and_rec [of "2 * m"])
    then obtain k where "m = 2 ^ k" using less.IH [of m] m \<open>0 < m\<close> by auto
    then show ?thesis using m by (intro exI [of _ "Suc k"]) simp
  next
    case False
    then obtain m where m: "c = 2 * m + 1" by (elim oddE)
    then have "2 * m = 0" using less.prems(2) by (simp add: and_rec [of "Suc (2 * m)"])
    then show ?thesis using m by (intro exI [of _ 0]) simp
  qed
qed

lemma config_power:
  assumes "is_spsc_ring_config c"
  obtains k where "unat c = 2 ^ k" "k < 16" "c = 2 ^ k"
proof -
  have c: "1 \<le> c" "c \<noteq> 0" "unat c < 2 ^ 15" using assms by (auto simp: is_spsc_ring_config_def word_le_nat_alt unat_eq_0)
  then have "unat (c - 1) = unat c - 1" by (simp add: unat_sub)
  moreover have "unat (c AND (c - 1)) = 0" using assms by (simp add: is_spsc_ring_config_def)
  ultimately have "unat c AND (unat c - 1) = 0" by (simp add: unsigned_and_eq)
  then obtain k where k: "unat c = 2 ^ k" using power_of_two_nat [of "unat c"] c(2) by (auto simp: unat_gt_0)
  then have "(2 :: nat) ^ k < 2 ^ 15" using c(3) by simp
  then have "k < 15" by (rule power_less_imp_less_exp [rotated]) simp
  moreover have "c = 2 ^ k" using arg_cong [OF k, of "of_nat :: nat \<Rightarrow> u16"] by simp
  ultimately show thesis using that k by simp
qed

lemma slot_at_mod: "is_spsc_ring_config c \<Longrightarrow> slot_at c (of_nat i) = i mod unat c"
proof (elim config_power)
  fix k assume k: "unat c = 2 ^ k" "k < 16" "c = 2 ^ k"
  have "(of_nat i :: u16) AND (c - 1) = take_bit k (of_nat i)" unfolding k(3) by (simp add: take_bit_eq_mask mask_eq_exp_minus_1)
  then have "slot_at c (of_nat i) = take_bit k (unat (of_nat i :: u16))" by (simp only: slot_at_def unsigned_take_bit_eq)
  then have "slot_at c (of_nat i) = (i mod 2 ^ 16) mod 2 ^ k" by (simp add: take_bit_eq_mod unat_of_nat)
  also have "\<dots> = i mod 2 ^ k" by (intro mod_mod_cancel le_imp_power_dvd less_imp_le k(2))
  finally show ?thesis by (simp add: k(1))
qed

lemma seq_diff: "t \<le> h \<Longrightarrow> h - t < 2 ^ 16 \<Longrightarrow> unat (of_nat h - of_nat t :: u16) = h - t"
  using of_nat_diff [of t h, where 'a = u16] unat_of_nat_small [of "h - t", where 'a = 16] by simp

lemma cells_update:
  assumes "j < n" "length cs = n" "\<And>i. i < n \<Longrightarrow> cs ! ((T + i) mod n) = f i" "i < n"
  shows "cs[(T + j) mod n := v] ! ((T + i) mod n) = (if i = j then v else f i)"
  using assms mod_add_cancel_eq [of T i n j] by (auto simp: nth_list_update_if)

section \<open>Linearisability\<close>

text \<open>The histories of a FIFO of capacity \<open>n\<close>: the result is its contents, None when a result is wrong.\<close>
fun replay :: "nat \<Rightarrow> 'a list \<Rightarrow> 'a SpscEvent list \<Rightarrow> 'a list option" where
  "replay n q [] = Some q"
| "replay n q (Pushed v # es) = (if length q < n then replay n (q @ [v]) es else None)"
| "replay n q (PushRefused # es) = (if length q = n then replay n q es else None)"
| "replay n q (Popped v # es) = (if q \<noteq> [] \<and> hd q = v then replay n (tl q) es else None)"
| "replay n q (PopEmpty # es) = (if q = [] then replay n q es else None)"

lemma replay_snoc: "replay n q (es @ [e]) = Option.bind (replay n q es) (\<lambda>q'. replay n q' [e])"
  by (induction n q es rule: replay.induct) simp_all

fun written :: "'a PushPc \<Rightarrow> 'a option" where
  "written (PushWritten v h) = Some v"
| "written pc = None"

fun taken :: "'a PopPc \<Rightarrow> bool" where
  "taken (PopTaken t v) = True"
| "taken pc = False"

text \<open>What the cell \<open>i\<close> places after the tail holds.\<close>
definition expected :: "'a list \<Rightarrow> 'a SpscSystem \<Rightarrow> nat \<Rightarrow> 'a option" where
  "expected q y i = (if i < length q then if i = 0 \<and> taken (sp_pop y) then None else Some (q ! i)
     else if i = length q then written (sp_push y) else None)"

fun push_ok :: "nat \<Rightarrow> 'a list \<Rightarrow> u16 \<Rightarrow> 'a PushPc \<Rightarrow> bool" where
  "push_ok n q head PushIdle = True"
| "push_ok n q head (PushHead v h) = (h = head)"
| "push_ok n q head (PushRoom v h) = (h = head \<and> length q < n)"
| "push_ok n q head (PushWritten v h) = (h = head \<and> length q < n)"

fun pop_ok :: "'a list \<Rightarrow> u16 \<Rightarrow> 'a PopPc \<Rightarrow> bool" where
  "pop_ok q tail PopIdle = True"
| "pop_ok q tail (PopTail t) = (t = tail)"
| "pop_ok q tail (PopReady t) = (t = tail \<and> q \<noteq> [])"
| "pop_ok q tail (PopTaken t v) = (t = tail \<and> q \<noteq> [] \<and> hd q = v)"

definition spsc_inv :: "nat \<Rightarrow> 'a list \<Rightarrow> nat \<Rightarrow> 'a SpscSystem \<Rightarrow> bool" where
  "spsc_inv n q T y \<longleftrightarrow> replay n [] (sp_history y) = Some q \<and> length q \<le> n
     \<and> spsc_tail (sp_ring y) = of_nat T \<and> spsc_head (sp_ring y) = of_nat (T + length q)
     \<and> length (spsc_cells (sp_ring y)) = n \<and> (\<forall>i < n. spsc_cells (sp_ring y) ! ((T + i) mod n) = expected q y i)
     \<and> push_ok n q (of_nat (T + length q)) (sp_push y) \<and> pop_ok q (of_nat T) (sp_pop y)"

lemma spsc_invD:
  assumes "spsc_inv n q T y"
  shows "replay n [] (sp_history y) = Some q" "length q \<le> n" "spsc_tail (sp_ring y) = of_nat T"
    "spsc_head (sp_ring y) = of_nat (T + length q)" "length (spsc_cells (sp_ring y)) = n"
    "\<And>i. i < n \<Longrightarrow> spsc_cells (sp_ring y) ! ((T + i) mod n) = expected q y i"
    "push_ok n q (of_nat (T + length q)) (sp_push y)" "pop_ok q (of_nat T) (sp_pop y)"
  using assms by (simp_all add: spsc_inv_def)

lemma spsc_step_inv:
  assumes cfg: "is_spsc_ring_config c" and step: "spsc_step c y z" and inv: "spsc_inv (unat c) q T y"
  shows "\<exists>q' T'. spsc_inv (unat c) q' T' z"
proof -
  note D = spsc_invD [OF inv]
  have c: "0 < unat c" "unat c < 2 ^ 15" using cfg by (auto simp: is_spsc_ring_config_def word_le_nat_alt)
  have fill: "unat (of_nat (T + length q) - of_nat T :: u16) = length q"
    using seq_diff [of T "T + length q"] D(2) c(2) by simp
  from step show ?thesis
  proof cases
    case (sp_push_head v)
    then show ?thesis using inv by (intro exI [of _ q] exI [of _ T]) (simp add: spsc_inv_def expected_def)
  next
    case (sp_push_full v h)
    then have "length q = unat c" using D(2,3,7) fill by (simp add: word_le_nat_alt)
    then show ?thesis using inv sp_push_full(1,2)
      by (intro exI [of _ q] exI [of _ T]) (simp add: spsc_inv_def expected_def replay_snoc)
  next
    case (sp_push_room v h)
    then have "length q < unat c" using D(3,7) fill by (simp add: word_le_nat_alt)
    then show ?thesis using inv sp_push_room(1,2) by (intro exI [of _ q] exI [of _ T]) (simp add: spsc_inv_def expected_def)
  next
    case (sp_push_write v h)
    then have "h = of_nat (T + length q)" and lt: "length q < unat c" using D(7) by simp_all
    then have h: "slot_at c h = (T + length q) mod unat c" "length q < unat c" by (simp_all only: slot_at_mod [OF cfg])
    have "spsc_cells (sp_ring z) ! ((T + i) mod unat c) = expected q z i" if "i < unat c" for i
      using cells_update [OF h(2) D(5,6) that, of "Some v"] sp_push_write(1,2) by (simp add: h(1) expected_def)
    then show ?thesis using inv sp_push_write(1,2) by (intro exI [of _ q] exI [of _ T]) (simp add: spsc_inv_def)
  next
    case (sp_push_publish v h)
    then have h: "h = of_nat (T + length q)" "length q < unat c" using D(7) by simp_all
    have "taken (sp_pop y) \<Longrightarrow> q \<noteq> []" using D(8) by (cases "sp_pop y") simp_all
    then have "expected (q @ [v]) z i = expected q y i" for i
      using sp_push_publish(1,2) by (auto simp: expected_def nth_append)
    moreover have "pop_ok (q @ [v]) (of_nat T) (sp_pop y)" using D(8) by (cases "sp_pop y") simp_all
    ultimately show ?thesis using inv sp_push_publish(1,2) h
      by (intro exI [of _ "q @ [v]"] exI [of _ T]) (auto simp: spsc_inv_def replay_snoc add.assoc)
  next
    case (sp_pop_tail)
    then show ?thesis using inv by (intro exI [of _ q] exI [of _ T]) (simp add: spsc_inv_def expected_def)
  next
    case (sp_pop_empty t)
    then have "q = []" using D(4,8) fill by simp
    then show ?thesis using inv sp_pop_empty(1,2)
      by (intro exI [of _ q] exI [of _ T]) (simp add: spsc_inv_def expected_def replay_snoc)
  next
    case (sp_pop_ready t)
    then have "q \<noteq> []" using D(4,8) by auto
    then show ?thesis using inv sp_pop_ready(1,2) D(8) by (intro exI [of _ q] exI [of _ T]) (simp add: spsc_inv_def expected_def)
  next
    case (sp_pop_take t v)
    then have t: "slot_at c t = (T + 0) mod unat c" "q \<noteq> []" using D(8) by (simp_all add: slot_at_mod [OF cfg])
    have "hd q = v" using D(6) [OF c(1)] sp_pop_take(2,3) t by (simp add: expected_def hd_conv_nth)
    moreover have "spsc_cells (sp_ring z) ! ((T + i) mod unat c) = expected q z i" if "i < unat c" for i
      using cells_update [OF c(1) D(5,6) that, of None] sp_pop_take(1,2) t by (simp add: expected_def)
    ultimately show ?thesis using inv sp_pop_take(1,2) t(2) by (intro exI [of _ q] exI [of _ T]) (simp add: spsc_inv_def)
  next
    case (sp_pop_recycle t v)
    then have t: "t = of_nat T" "q \<noteq> []" "hd q = v" using D(8) by simp_all
    have "spsc_cells (sp_ring z) ! ((Suc T + i) mod unat c) = expected (tl q) z i" if "i < unat c" for i
    proof (cases "Suc i < unat c")
      case True
      then show ?thesis using D(6) [OF True] t(2) sp_pop_recycle(1,2) by (cases q) (auto simp: expected_def)
    next
      case False
      then have i: "Suc T + i = (T + 0) + unat c" using that by simp
      have w: "written (sp_push y) = None" if "length q = unat c" using D(7) that by (cases "sp_push y") simp_all
      have l: "length q = Suc (length (tl q))" using t(2) by (cases q) simp_all
      have n: "\<not> i < length (tl q)" using l False D(2) by linarith
      have e: "length q = unat c" if "i = length (tl q)" using that l False \<open>i < unat c\<close> by linarith
      have "i = length (tl q) \<longrightarrow> written (sp_push y) = None" using w e by blast
      then have "expected (tl q) z i = None" using sp_pop_recycle(1) n unfolding expected_def by auto
      moreover have "expected q y 0 = None" using t(2) sp_pop_recycle(2) by (simp add: expected_def)
      ultimately show ?thesis using D(6) [OF c(1)] sp_pop_recycle(1) unfolding i mod_add_self2 by simp
    qed
    then show ?thesis using inv sp_pop_recycle(1,2) t
      by (intro exI [of _ "tl q"] exI [of _ "Suc T"]) (cases "sp_push y"; cases q; simp add: spsc_inv_def replay_snoc)
  qed
qed

lemma spsc_start_inv: "spsc_inv (unat c) [] 0 (spsc_start c)"
  by (simp add: spsc_inv_def spsc_start_def spsc_new_def expected_def)

lemma spsc_reachable:
  assumes "is_spsc_ring_config c" "(spsc_step c)\<^sup>*\<^sup>* (spsc_start c) y"
  shows "\<exists>q T. spsc_inv (unat c) q T y"
  using assms(2) by induction (use spsc_start_inv spsc_step_inv [OF assms(1)] in blast)+

section \<open>A caller that runs alone\<close>

lemma spsc_push_alone:
  assumes "spsc_try_push c v (sp_ring y) = (b, r)" "sp_push y = PushIdle"
  shows "(spsc_step c)\<^sup>*\<^sup>* y (y\<lparr>sp_push := PushIdle, sp_ring := r, sp_history := sp_history y @ [if b then Pushed v else PushRefused]\<rparr>)"
proof -
  let ?h = "spsc_head (sp_ring y)"
  have l: "spsc_step c y (y\<lparr>sp_push := PushHead v ?h\<rparr>)" by (rule sp_push_head [OF assms(2)])
  show ?thesis
  proof (cases "?h - spsc_tail (sp_ring y) \<ge> c")
    case True
    then show ?thesis using assms l sp_push_full [of "y\<lparr>sp_push := PushHead v ?h\<rparr>" v ?h c]
      by (auto simp: spsc_try_push_def Let_def intro: converse_rtranclp_into_rtranclp)
  next
    case False
    let ?y = "y\<lparr>sp_push := PushWritten v ?h, sp_ring := (sp_ring y)\<lparr>spsc_cells := (spsc_cells (sp_ring y))[slot_at c ?h := Some v]\<rparr>\<rparr>"
    have "spsc_step c (y\<lparr>sp_push := PushHead v ?h\<rparr>) (y\<lparr>sp_push := PushRoom v ?h\<rparr>)"
      using sp_push_room [of "y\<lparr>sp_push := PushHead v ?h\<rparr>" v ?h c] False by simp
    moreover have "spsc_step c (y\<lparr>sp_push := PushRoom v ?h\<rparr>) ?y" using sp_push_write [of "y\<lparr>sp_push := PushRoom v ?h\<rparr>" v ?h c] by simp
    moreover have "spsc_step c ?y (y\<lparr>sp_push := PushIdle, sp_ring := r, sp_history := sp_history y @ [Pushed v]\<rparr>)"
      using sp_push_publish [of ?y v ?h c] assms False by (auto simp: spsc_try_push_def Let_def)
    ultimately show ?thesis using l assms False by (auto simp: spsc_try_push_def Let_def intro: converse_rtranclp_into_rtranclp)
  qed
qed

lemma spsc_pop_alone:
  assumes "spsc_try_pop c (sp_ring y) = Some (out, r)" "sp_pop y = PopIdle"
  shows "(spsc_step c)\<^sup>*\<^sup>* y (y\<lparr>sp_pop := PopIdle, sp_ring := r,
    sp_history := sp_history y @ [case out of None \<Rightarrow> PopEmpty | Some v \<Rightarrow> Popped v]\<rparr>)"
proof -
  let ?t = "spsc_tail (sp_ring y)"
  have l: "spsc_step c y (y\<lparr>sp_pop := PopTail ?t\<rparr>)" by (rule sp_pop_tail [OF assms(2)])
  show ?thesis
  proof (cases "?t = spsc_head (sp_ring y)")
    case True
    then show ?thesis using assms l sp_pop_empty [of "y\<lparr>sp_pop := PopTail ?t\<rparr>" ?t c]
      by (auto simp: spsc_try_pop_def Let_def intro: converse_rtranclp_into_rtranclp)
  next
    case False
    then obtain v where v: "spsc_cells (sp_ring y) ! slot_at c ?t = Some v" "out = Some v"
      using assms(1) by (auto simp: spsc_try_pop_def Let_def bind_eq_Some_conv)
    let ?y = "y\<lparr>sp_pop := PopTaken ?t v, sp_ring := (sp_ring y)\<lparr>spsc_cells := (spsc_cells (sp_ring y))[slot_at c ?t := None]\<rparr>\<rparr>"
    have "spsc_step c (y\<lparr>sp_pop := PopTail ?t\<rparr>) (y\<lparr>sp_pop := PopReady ?t\<rparr>)"
      using sp_pop_ready [of "y\<lparr>sp_pop := PopTail ?t\<rparr>" ?t c] False by simp
    moreover have "spsc_step c (y\<lparr>sp_pop := PopReady ?t\<rparr>) ?y"
      using sp_pop_take [of "y\<lparr>sp_pop := PopReady ?t\<rparr>" ?t c v] v(1) by simp
    moreover have "spsc_step c ?y (y\<lparr>sp_pop := PopIdle, sp_ring := r, sp_history := sp_history y @ [Popped v]\<rparr>)"
      using sp_pop_recycle [of ?y ?t v c] assms False v by (auto simp: spsc_try_pop_def Let_def)
    ultimately show ?thesis using l v(2) by (auto intro: converse_rtranclp_into_rtranclp)
  qed
qed

section \<open>Properties\<close>

text \<open>
  C24. The ring is a linearisable bounded FIFO without a lock: under every interleaving of the
  producer's and the consumer's accesses, however often the 16-bit sequences have wrapped,
  the results so far are those of a FIFO of the configured capacity (nothing lost,
  duplicated or reordered; refused only when full, empty only when empty). The producer
  only constructs in raw storage, the consumer only takes the live oldest payload, and the
  fill level the ring reports is exact.
\<close>
theorem spsc_linearisable:
  assumes "is_spsc_ring_config c" and "(spsc_step c)\<^sup>*\<^sup>* (spsc_start c) y"
  shows "\<exists>q. replay (unat c) [] (sp_history y) = Some q \<and> unat (spsc_size c (sp_ring y)) = length q
    \<and> (\<forall>v h. sp_push y = PushRoom v h \<longrightarrow> spsc_cells (sp_ring y) ! slot_at c h = None)
    \<and> (\<forall>t. sp_pop y = PopReady t \<longrightarrow> q \<noteq> [] \<and> spsc_cells (sp_ring y) ! slot_at c t = Some (hd q))"
proof -
  obtain q T where inv: "spsc_inv (unat c) q T y" using spsc_reachable [OF assms] by blast
  note D = spsc_invD [OF inv]
  have c: "0 < unat c" "unat c < 2 ^ 15" using assms(1) by (auto simp: is_spsc_ring_config_def word_le_nat_alt)
  have fill: "unat (spsc_head (sp_ring y) - spsc_tail (sp_ring y)) = length q"
    using seq_diff [of T "T + length q"] D(2-4) c(2) by simp
  then have "unat (spsc_size c (sp_ring y)) = length q" using D(2) by (simp add: spsc_size_def Let_def word_less_nat_alt)
  moreover have "spsc_cells (sp_ring y) ! slot_at c h = None" if p: "sp_push y = PushRoom v h" for v h
  proof -
    have "h = of_nat (T + length q)" "length q < unat c" using D(7) p by simp_all
    then show ?thesis using D(6) [of "length q"] p by (simp only: slot_at_mod [OF assms(1)]) (simp add: expected_def)
  qed
  moreover have "q \<noteq> [] \<and> spsc_cells (sp_ring y) ! slot_at c t = Some (hd q)" if p: "sp_pop y = PopReady t" for t
    using D(6) [OF c(1)] D(8) p by (simp add: slot_at_mod [OF assms(1)] expected_def hd_conv_nth)
  ultimately show ?thesis using D(1) by blast
qed

text \<open>A pop after a push on a ring of two cells.\<close>
theorem spsc_linearisable_witness:
  "\<exists>y. (spsc_step 2)\<^sup>*\<^sup>* (spsc_start 2) y \<and> sp_history y = [Pushed (7 :: nat), Popped 7] \<and> unat (spsc_size 2 (sp_ring y)) = 0"
proof -
  have c: "is_spsc_ring_config 2" by code_simp
  let ?r1 = "\<lparr>spsc_head = 1, spsc_tail = 0, spsc_cells = [Some 7, None]\<rparr> :: nat SpscRing"
  let ?r2 = "\<lparr>spsc_head = 1, spsc_tail = 1, spsc_cells = [None, None]\<rparr> :: nat SpscRing"
  let ?y = "\<lambda>r es. \<lparr>sp_ring = r, sp_push = PushIdle, sp_pop = PopIdle, sp_history = es\<rparr> :: nat SpscSystem"
  have e: "spsc_try_push 2 7 (spsc_new 2) = (True, ?r1)" "spsc_try_pop 2 ?r1 = Some (Some 7, ?r2)" by code_simp+
  have "(spsc_step 2)\<^sup>*\<^sup>* (spsc_start 2) (?y ?r1 [Pushed 7])"
    using spsc_push_alone [of 2 7 "spsc_start 2 :: nat SpscSystem" True ?r1] e(1) by (simp add: spsc_start_def)
  also have "(spsc_step 2)\<^sup>*\<^sup>* \<dots> (?y ?r2 [Pushed 7, Popped 7])"
    using spsc_pop_alone [of 2 "?y ?r1 [Pushed 7]" "Some 7" ?r2] e(2) by simp
  finally have r: "(spsc_step 2)\<^sup>*\<^sup>* (spsc_start 2) (?y ?r2 [Pushed 7, Popped 7])" .
  from spsc_linearisable [OF c this] obtain q where "replay 2 [] [Pushed 7, Popped 7] = Some q" "unat (spsc_size 2 ?r2) = length q" by auto
  then show ?thesis using r by (intro exI [of _ "?y ?r2 [Pushed 7, Popped 7]"]) simp
qed

end
