(* ===== verification/Reg_Cache.thy ===== *)
theory Reg_Cache
  imports Coact_Prelude
begin

unbundle bit_operations_syntax

text \<open>
  Bit-field views of a 32-bit register (bitfield.hpp) and the shadow/hardware register cache
  with its three flags (reg_cache.hpp). A field is its offset and width, the register
  arrays are lists, and a register number outside them is the value None. The auditor's
  printed line is not modelled, its counter is.
\<close>

section \<open>Bit fields\<close>

record BitFieldView =
  bf_offset :: nat
  bf_width :: nat

definition field_valid :: "BitFieldView \<Rightarrow> bool" where
  "field_valid f \<longleftrightarrow> 0 < bf_width f \<and> bf_offset f + bf_width f \<le> 32"

definition field_mask :: "BitFieldView \<Rightarrow> u32" where
  "field_mask f = push_bit (bf_offset f) (ucast (push_bit (bf_width f) 1 - 1 :: u64))"

definition field_read :: "BitFieldView \<Rightarrow> u32 \<Rightarrow> u32" where
  "field_read f reg = drop_bit (bf_offset f) (reg AND field_mask f)"

definition field_write :: "BitFieldView \<Rightarrow> u32 \<Rightarrow> u32 \<Rightarrow> u32" where
  "field_write f reg val = (reg AND NOT (field_mask f)) OR (push_bit (bf_offset f) val AND field_mask f)"

definition fields_disjoint :: "BitFieldView \<Rightarrow> BitFieldView \<Rightarrow> bool" where
  "fields_disjoint f g \<longleftrightarrow> field_mask f AND field_mask g = 0"

lemma bit_field_mask: "field_valid f \<Longrightarrow> bit (field_mask f) i \<longleftrightarrow> bf_offset f \<le> i \<and> i < bf_offset f + bf_width f"
proof -
  assume v: "field_valid f"
  have "push_bit (bf_width f) 1 - 1 = (mask (bf_width f) :: u64)" by (simp add: mask_eq_exp_minus_1)
  then show ?thesis using v by (auto simp: field_mask_def field_valid_def bit_simps)
qed

lemma field_read_write: "field_valid f \<Longrightarrow> field_read f (field_write f reg val) = take_bit (bf_width f) val"
  by (rule bit_eqI) (auto simp: field_read_def field_write_def bit_simps bit_field_mask; simp add: field_valid_def)

lemma field_read_other: "\<lbrakk>field_valid f; field_valid g; fields_disjoint f g\<rbrakk> \<Longrightarrow> field_read g (field_write f reg val) = field_read g reg"
proof -
  assume v: "field_valid f" "field_valid g" "fields_disjoint f g"
  have "\<not> (bit (field_mask f) i \<and> bit (field_mask g) i)" for i
    using arg_cong [OF v(3) [unfolded fields_disjoint_def], of "\<lambda>w. bit w i"] by (simp add: bit_simps)
  then show ?thesis by (intro bit_eqI) (auto simp: field_read_def field_write_def bit_simps dest: bit_imp_le_length)
qed

section \<open>The register cache\<close>

record PeriphRegCache =
  shadow :: "u32 list"
  hardware :: "u32 list"
  cache_only :: bool
  cache_bypass :: bool
  cache_dirty :: bool
  dirty_regs :: "bool list"
  bypass_writes :: u32
  drift_events :: u32
  syncs :: u32

definition reg_cache_new :: "nat \<Rightarrow> PeriphRegCache" where
  "reg_cache_new n = \<lparr>shadow = replicate n 0, hardware = replicate n 0, cache_only = False, cache_bypass = False,
     cache_dirty = False, dirty_regs = replicate n False, bypass_writes = 0, drift_events = 0, syncs = 0\<rparr>"

definition modes_legal :: "PeriphRegCache \<Rightarrow> bool" where
  "modes_legal c \<longleftrightarrow> \<not> (cache_only c \<and> cache_bypass c)"

text \<open>Both entry points share the protocol; they differ in how the new word is made from the old one.\<close>
definition write_with :: "nat \<Rightarrow> (u32 \<Rightarrow> u32) \<Rightarrow> PeriphRegCache \<Rightarrow> PeriphRegCache option" where
  "write_with reg f c = do {
     coact_assert (reg < length (hardware c));
     Some (if cache_bypass c then c\<lparr>hardware := (hardware c)[reg := f (hardware c ! reg)], bypass_writes := bypass_writes c + 1\<rparr>
       else if cache_only c then
         c\<lparr>shadow := (shadow c)[reg := f (shadow c ! reg)], cache_dirty := True, dirty_regs := (dirty_regs c)[reg := True]\<rparr>
       else c\<lparr>hardware := (hardware c)[reg := f (hardware c ! reg)], shadow := (shadow c)[reg := f (shadow c ! reg)]\<rparr>)
   }"

definition write_reg :: "nat \<Rightarrow> u32 \<Rightarrow> PeriphRegCache \<Rightarrow> PeriphRegCache option" where
  "write_reg reg val c = write_with reg (\<lambda>_. val) c"

definition write_field :: "BitFieldView \<Rightarrow> nat \<Rightarrow> u32 \<Rightarrow> PeriphRegCache \<Rightarrow> PeriphRegCache option" where
  "write_field f reg val c = write_with reg (\<lambda>w. field_write f w val) c"

definition read_field :: "BitFieldView \<Rightarrow> nat \<Rightarrow> PeriphRegCache \<Rightarrow> u32 option" where
  "read_field f reg c = do { coact_assert (reg < length (shadow c)); Some (field_read f (shadow c ! reg)) }"

definition full_repush :: "PeriphRegCache \<Rightarrow> PeriphRegCache" where
  "full_repush c = c\<lparr>hardware := shadow c\<rparr>"

definition resync_from_hw :: "PeriphRegCache \<Rightarrow> PeriphRegCache" where
  "resync_from_hw c = c\<lparr>shadow := hardware c\<rparr>"

fun sync_regs :: "bool list \<Rightarrow> u32 list \<Rightarrow> u32 list \<Rightarrow> u32 list" where
  "sync_regs (d # ds) (s # ss) (h # hs) = (if d then s else h) # sync_regs ds ss hs"
| "sync_regs ds ss hs = hs"

definition sync :: "PeriphRegCache \<Rightarrow> bool \<times> PeriphRegCache" where
  "sync c =
     (if cache_only c then (False, c)
      else (True, c\<lparr>hardware := sync_regs (dirty_regs c) (shadow c) (hardware c),
        dirty_regs := replicate (length (dirty_regs c)) False, cache_dirty := False, syncs := syncs c + 1\<rparr>))"

fun drifts :: "u32 list \<Rightarrow> u32 list \<Rightarrow> u32" where
  "drifts (s # ss) (h # hs) = (if s \<noteq> h then 1 else 0) + drifts ss hs"
| "drifts ss hs = 0"

definition audit :: "PeriphRegCache \<Rightarrow> PeriphRegCache" where
  "audit c = c\<lparr>drift_events := drift_events c + drifts (shadow c) (hardware c)\<rparr>"

definition bypass_enter :: "PeriphRegCache \<Rightarrow> PeriphRegCache" where
  "bypass_enter c = c\<lparr>cache_bypass := True\<rparr>"

definition bypass_exit :: "PeriphRegCache \<Rightarrow> PeriphRegCache" where
  "bypass_exit c = resync_from_hw (c\<lparr>cache_bypass := False\<rparr>)"

section \<open>Coherence\<close>

text \<open>
  The uses a client makes of the cache: writes, opening and closing the freeze window, a
  commit, a full push, a resync from hardware, an audit, the bypass flag assigned directly,
  and a bypass guard around any of these, guards inside guards included.
\<close>
datatype RegOp =
    RegWrite nat u32
  | RegField BitFieldView nat u32
  | RegFreeze bool
  | RegSync
  | RegRepush
  | RegResync
  | RegAudit
  | RegSetBypass bool
  | RegBypass "RegOp list"

fun reg_op :: "RegOp \<Rightarrow> PeriphRegCache \<Rightarrow> PeriphRegCache option"
  and run_regs :: "RegOp list \<Rightarrow> PeriphRegCache \<Rightarrow> PeriphRegCache option" where
  "reg_op (RegWrite reg val) c = write_reg reg val c"
| "reg_op (RegField f reg val) c = write_field f reg val c"
| "reg_op (RegFreeze b) c = Some (c\<lparr>cache_only := b\<rparr>)"
| "reg_op RegSync c = Some (snd (sync c))"
| "reg_op RegRepush c = Some (full_repush c)"
| "reg_op RegResync c = Some (resync_from_hw c)"
| "reg_op RegAudit c = Some (audit c)"
| "reg_op (RegSetBypass b) c = Some (c\<lparr>cache_bypass := b\<rparr>)"
| "reg_op (RegBypass ops) c = map_option bypass_exit (run_regs ops (bypass_enter c))"
| "run_regs [] c = Some c"
| "run_regs (op # ops) c = Option.bind (reg_op op c) (run_regs ops)"

text \<open>The bypass flag is set by guards only; inside a guard anything is allowed.\<close>
fun guarded :: "RegOp \<Rightarrow> bool" where
  "guarded (RegSetBypass b) = False"
| "guarded op = True"

definition reg_lengths :: "nat \<Rightarrow> PeriphRegCache \<Rightarrow> bool" where
  "reg_lengths n c \<longleftrightarrow> length (shadow c) = n \<and> length (hardware c) = n \<and> length (dirty_regs c) = n"

text \<open>What every use keeps: the array lengths, and the summary flag of the dirty marks.\<close>
definition marks_inv :: "nat \<Rightarrow> PeriphRegCache \<Rightarrow> bool" where
  "marks_inv n c \<longleftrightarrow> reg_lengths n c \<and> (cache_dirty c \<longleftrightarrow> (\<exists>r < n. dirty_regs c ! r))"

definition reg_inv :: "nat \<Rightarrow> PeriphRegCache \<Rightarrow> bool" where
  "reg_inv n c \<longleftrightarrow> marks_inv n c \<and> \<not> cache_bypass c
     \<and> (\<forall>r < n. \<not> dirty_regs c ! r \<longrightarrow> shadow c ! r = hardware c ! r)"

lemma write_with_cases:
  assumes "write_with reg f c = Some c'"
  obtains "reg < length (hardware c)" "cache_bypass c"
      "c' = c\<lparr>hardware := (hardware c)[reg := f (hardware c ! reg)], bypass_writes := bypass_writes c + 1\<rparr>"
  | "reg < length (hardware c)" "\<not> cache_bypass c" "cache_only c"
      "c' = c\<lparr>shadow := (shadow c)[reg := f (shadow c ! reg)], cache_dirty := True, dirty_regs := (dirty_regs c)[reg := True]\<rparr>"
  | "reg < length (hardware c)" "\<not> cache_bypass c" "\<not> cache_only c"
      "c' = c\<lparr>hardware := (hardware c)[reg := f (hardware c ! reg)], shadow := (shadow c)[reg := f (shadow c ! reg)]\<rparr>"
  using assms by (auto simp: write_with_def coact_assert_simps split: if_splits)

lemma write_with_marks: "\<lbrakk>marks_inv n c; write_with reg f c = Some c'\<rbrakk> \<Longrightarrow> marks_inv n c'"
  by (erule write_with_cases) (auto simp: marks_inv_def reg_lengths_def nth_list_update_if)

lemma write_with_inv: "\<lbrakk>reg_inv n c; write_with reg f c = Some c'\<rbrakk> \<Longrightarrow> reg_inv n c'"
  using write_with_marks [of n c reg f c']
  by (elim write_with_cases) (auto simp: reg_inv_def marks_inv_def reg_lengths_def nth_list_update_if)

lemma sync_regs_nth:
  "\<lbrakk>length ds = length hs; length ss = length hs\<rbrakk> \<Longrightarrow>
     length (sync_regs ds ss hs) = length hs \<and> (\<forall>r < length hs. sync_regs ds ss hs ! r = (if ds ! r then ss ! r else hs ! r))"
proof (induction ds ss hs rule: sync_regs.induct)
  case (1 d ds s ss h hs)
  then show ?case by (auto simp: nth_Cons')
qed auto

lemma sync_coherent:
  assumes "reg_inv n c" "\<not> cache_only c"
  shows "fst (sync c)" "shadow (snd (sync c)) = hardware (snd (sync c))" "reg_inv n (snd (sync c))"
proof -
  let ?hw = "sync_regs (dirty_regs c) (shadow c) (hardware c)"
  have l: "length (shadow c) = n" "length (hardware c) = n" "length (dirty_regs c) = n"
    and eq: "\<And>r. r < n \<Longrightarrow> \<not> dirty_regs c ! r \<Longrightarrow> shadow c ! r = hardware c ! r"
    using assms(1) by (auto simp: reg_inv_def marks_inv_def reg_lengths_def)
  have S: "length ?hw = n" "\<And>r. r < n \<Longrightarrow> ?hw ! r = (if dirty_regs c ! r then shadow c ! r else hardware c ! r)"
    using sync_regs_nth [of "dirty_regs c" "hardware c" "shadow c"] l by simp_all
  have "shadow c = ?hw" by (rule nth_equalityI) (use l S eq in auto)
  then show "shadow (snd (sync c)) = hardware (snd (sync c))" using assms(2) by (simp add: sync_def)
  then show "reg_inv n (snd (sync c))" using assms l S(1) by (simp add: reg_inv_def marks_inv_def reg_lengths_def sync_def)
  show "fst (sync c)" using assms(2) by (simp add: sync_def)
qed

lemma sync_marks: "marks_inv n c \<Longrightarrow> marks_inv n (snd (sync c))"
  using sync_regs_nth [of "dirty_regs c" "hardware c" "shadow c"]
  by (auto simp: sync_def marks_inv_def reg_lengths_def)

lemma reg_op_marks:
  "\<lbrakk>marks_inv n c; reg_op op c = Some c'\<rbrakk> \<Longrightarrow> marks_inv n c'"
  "\<lbrakk>marks_inv n c; run_regs ops c = Some c'\<rbrakk> \<Longrightarrow> marks_inv n c'"
proof (induction op c and ops c arbitrary: c' and c' rule: reg_op_run_regs.induct)
  case (9 ops c)
  then obtain d where d: "run_regs ops (bypass_enter c) = Some d" "c' = bypass_exit d" by auto
  have "marks_inv n (bypass_enter c)" using 9(2) by (simp add: bypass_enter_def marks_inv_def reg_lengths_def)
  then have "marks_inv n d" using 9 d by blast
  then show ?case using d(2) by (simp add: bypass_exit_def resync_from_hw_def marks_inv_def reg_lengths_def)
next
  case (4 c)
  then show ?case using sync_marks by auto
qed (auto simp: write_reg_def write_field_def bind_eq_Some_conv dest: write_with_marks;
     simp add: marks_inv_def reg_lengths_def full_repush_def resync_from_hw_def audit_def)+

text \<open>Whatever happens inside a guard, its end aligns the two copies.\<close>
lemma bypass_exit_inv: "marks_inv n c \<Longrightarrow> reg_inv n (bypass_exit c)"
  by (simp add: bypass_exit_def resync_from_hw_def reg_inv_def marks_inv_def reg_lengths_def)

lemma reg_op_inv:
  assumes "reg_inv n c" "reg_op op c = Some c'" "guarded op"
  shows "reg_inv n c'"
proof (cases op)
  case RegSync
  then show ?thesis using assms sync_coherent(3) [of n c] by (cases "cache_only c") (auto simp: sync_def)
next
  case (RegBypass ops)
  have "marks_inv n (bypass_enter c)" using assms(1) by (simp add: bypass_enter_def reg_inv_def marks_inv_def reg_lengths_def)
  moreover obtain d where "run_regs ops (bypass_enter c) = Some d" "c' = bypass_exit d" using assms(2) RegBypass by auto
  ultimately show ?thesis using reg_op_marks(2) bypass_exit_inv by blast
qed (use assms in \<open>auto simp: write_reg_def write_field_def dest: write_with_inv\<close>;
     use assms in \<open>simp add: reg_inv_def marks_inv_def reg_lengths_def full_repush_def resync_from_hw_def audit_def\<close>)+

lemma run_regs_inv: "\<lbrakk>reg_inv n c; run_regs ops c = Some c'; \<forall>op \<in> set ops. guarded op\<rbrakk> \<Longrightarrow> reg_inv n c'"
  by (induction ops arbitrary: c) (auto simp: bind_eq_Some_conv dest: reg_op_inv)

lemma reg_new_inv: "reg_inv n (reg_cache_new n)"
  by (simp add: reg_inv_def marks_inv_def reg_lengths_def reg_cache_new_def)

section \<open>Properties\<close>

text \<open>
  A bypass write without a guard forks the copies, as \<^verbatim>\<open>full_repush\<close> and the guard document:
  the register is not marked dirty, so the commit does not repair it.
\<close>
lemma bare_bypass_forks:
  assumes "r < n"
  shows "\<exists>c. run_regs [RegSetBypass True, RegWrite r val, RegSetBypass False, RegSync] (reg_cache_new n) = Some c
    \<and> hardware c ! r = val \<and> shadow c ! r = 0 \<and> \<not> dirty_regs c ! r"
  using assms sync_regs_nth [of "replicate n False" "(replicate n 0)[r := val]" "replicate n 0"]
  by (simp add: write_reg_def write_with_def reg_cache_new_def sync_def)

text \<open>
  C39. With the bypass flag left to guards, the register cache converges: after any sequence
  of writes, field writes, freeze windows, commits, full pushes, resyncs, audits and bypass
  guards with anything inside them, a register that is not marked dirty has the same value
  in the shadow and in hardware, and a commit outside a freeze window succeeds and leaves
  both copies equal everywhere with nothing dirty.
\<close>
theorem reg_cache_converges:
  assumes "run_regs ops (reg_cache_new n) = Some c" and "\<forall>op \<in> set ops. guarded op"
  shows "(\<forall>r < n. \<not> dirty_regs c ! r \<longrightarrow> shadow c ! r = hardware c ! r)
    \<and> (\<not> cache_only c \<longrightarrow> fst (sync c) \<and> shadow (snd (sync c)) = hardware (snd (sync c)) \<and> \<not> cache_dirty (snd (sync c)))"
proof -
  have inv: "reg_inv n c" by (rule run_regs_inv [OF reg_new_inv assms])
  then show ?thesis using sync_coherent [OF inv] by (auto simp: reg_inv_def sync_def)
qed

text \<open>A field write inside a guard, then a freeze window with a pending write.\<close>
theorem reg_cache_converges_witness:
  "\<exists>c. run_regs [RegWrite 0 5, RegBypass [RegField \<lparr>bf_offset = 4, bf_width = 2\<rparr> 0 3], RegFreeze True, RegWrite 1 7, RegFreeze False]
       (reg_cache_new 2) = Some c
     \<and> dirty_regs c ! 1 \<and> shadow c ! 0 = hardware c ! 0 \<and> hardware (snd (sync c)) = [53, 7]"
proof -
  let ?ops = "[RegWrite 0 5, RegBypass [RegField \<lparr>bf_offset = 4, bf_width = 2\<rparr> 0 3], RegFreeze True, RegWrite 1 7, RegFreeze False]"
  have f: "field_write \<lparr>bf_offset = 4, bf_width = 2\<rparr> 5 3 = 53" by code_simp
  obtain c where c: "run_regs ?ops (reg_cache_new 2) = Some c" "dirty_regs c = [False, True]" "\<not> cache_only c"
    "shadow (snd (sync c)) = [53, 7]"
    using f by (simp add: write_reg_def write_field_def write_with_def reg_cache_new_def numeral_2_eq_2 sync_def
      bypass_enter_def bypass_exit_def resync_from_hw_def)
  have "\<forall>op \<in> set ?ops. guarded op" by simp
  from reg_cache_converges [OF c(1) this] show ?thesis using c by auto
qed

text \<open>
  C40. A write recorded in the freeze window is lost when a bypass guard ends before the
  commit: the guard copies the hardware over the shadow but keeps the dirty mark, and the
  commit that follows reports success without the value.
\<close>
theorem bypass_discards_pending_write:
  assumes "r < n"
  shows "\<exists>c. run_regs [RegFreeze True, RegWrite r val, RegFreeze False, RegBypass [], RegSync] (reg_cache_new n) = Some c
    \<and> syncs c = 1 \<and> \<not> cache_dirty c \<and> hardware c ! r = 0 \<and> shadow c ! r = 0"
  using assms sync_regs_nth [of "(replicate n False)[r := True]" "replicate n 0" "replicate n 0"]
  by (simp add: write_reg_def write_with_def reg_cache_new_def sync_def bypass_enter_def bypass_exit_def resync_from_hw_def)

theorem bypass_discards_pending_write_witness:
  "\<exists>c. run_regs [RegFreeze True, RegWrite 1 9, RegFreeze False, RegBypass [], RegSync] (reg_cache_new 2) = Some c
    \<and> hardware c ! 1 = 0"
  using bypass_discards_pending_write [of 1 2 9] by auto

end
