(* ===== verification/Task_Registry.thy ===== *)
theory Task_Registry
  imports Coordinator
begin

text \<open>
  The coroutine layer (coro/*.hpp): task identifiers, task slots, the registry with its
  completion events, and the move-only handles.

  \<^item> The registry's mutex is not recursive. \<^verbatim>\<open>cr_locked\<close> says that the calling thread holds it,
    and locking it again is None: the call never returns. The operations that only touch the
    slots are given as the section between lock and unlock, and \<^verbatim>\<open>registry_call\<close> runs such a
    section under the mutex. \<^verbatim>\<open>complete\<close>, \<^verbatim>\<open>fail\<close> and \<^verbatim>\<open>cancel\<close> hold it across the submission
    of the completion event, so their definitions lock and unlock themselves.
  \<^item> A direct submission runs the waiter's handlers on the calling thread, inside that
    section. What they do to their own context is part of the system; what they do to the
    registry is the argument \<^verbatim>\<open>act\<close>.
  \<^item> The blocks of completion events live in the pool of the system and are allocated like
    plain events (\<^verbatim>\<open>alloc_typed\<close> is the same claim of a block, its size checked when
    compiled); what the registry writes behind the event header is kept in \<^verbatim>\<open>cr_meta\<close>. The
    bytes of a result are None when they have been cleared.
\<close>

section \<open>Identifiers and slots\<close>

datatype TaskError =
    kOk | kTaskSlotsFull | kInvalidId | kAlreadyCompleted | kCancelled | kTargetRejected | kTaskPoolExhausted
  | kResultUnavailable | kResultTaken | kAwaiterBusy

fun task_error_raw :: "TaskError \<Rightarrow> u32" where
  "task_error_raw kOk = 0" | "task_error_raw kTaskSlotsFull = 1" | "task_error_raw kInvalidId = 2"
| "task_error_raw kAlreadyCompleted = 3" | "task_error_raw kCancelled = 4" | "task_error_raw kTargetRejected = 5"
| "task_error_raw kTaskPoolExhausted = 6" | "task_error_raw kResultUnavailable = 7" | "task_error_raw kResultTaken = 8"
| "task_error_raw kAwaiterBusy = 9"

datatype CompletionStatus = kSucceeded | kFailed | kStatusCancelled

fun completion_raw :: "CompletionStatus \<Rightarrow> u8" where
  "completion_raw kSucceeded = 0" | "completion_raw kFailed = 1" | "completion_raw kStatusCancelled = 2"

record CompletionPayload =
  cp_task_id :: u16
  cp_status :: u8
  cp_reserved :: u8
  cp_error_code :: u32

definition kInvalidTaskId :: u16 where "kInvalidTaskId = 0"

definition task_id_slot :: "u16 \<Rightarrow> nat" where "task_id_slot i = unat (i AND 0xFF)"

definition task_id_generation :: "u16 \<Rightarrow> u16" where "task_id_generation i = drop_bit 8 i"

definition task_id_make :: "u16 \<Rightarrow> u16 \<Rightarrow> u16" where
  "task_id_make slot gen = push_bit 8 (gen AND 0xFF) OR (slot AND 0xFF)"

datatype TaskSlotState = kSlotFree | kCreated | kWaiting | kCompleted

record 'v CoroSlot =
  generation :: u16
  cs_state :: TaskSlotState
  cs_error :: TaskError
  cs_waiter :: TargetId
  cs_signal :: u16
  cs_qos :: EventQos
  has_result :: bool
  has_error :: bool
  cs_result :: "'v option"

definition empty_slot :: "'v CoroSlot" where
  "empty_slot = \<lparr>generation = 1, cs_state = kSlotFree, cs_error = kOk, cs_waiter = kInvalidTarget, cs_signal = 0,
     cs_qos = \<lparr>critical = False, mergeable = False\<rparr>, has_result = False, has_error = False, cs_result = None\<rparr>"

definition slot_release :: "'v CoroSlot \<Rightarrow> 'v CoroSlot" where
  "slot_release x = x\<lparr>generation := (if generation x + 1 = 0 then 1 else generation x + 1),
     cs_state := kSlotFree, cs_error := kOk, cs_waiter := kInvalidTarget, cs_signal := 0,
     has_result := False, has_error := False, cs_result := None\<rparr>"

section \<open>The registry\<close>

record 'v TaskRegistry =
  cr_slots :: "'v CoroSlot list"
  cr_rejected :: u32
  cr_failures :: u32
  cr_meta :: "nat \<Rightarrow> CompletionPayload option"
  cr_locked :: bool

definition task_registry_new :: "nat \<Rightarrow> 'v TaskRegistry" where
  "task_registry_new n = \<lparr>cr_slots = replicate n empty_slot, cr_rejected = 0, cr_failures = 0, cr_meta = (\<lambda>_. None),
     cr_locked = False\<rparr>"

definition registry_lock :: "'v TaskRegistry \<Rightarrow> 'v TaskRegistry option" where
  "registry_lock reg = (if cr_locked reg then None else Some (reg\<lparr>cr_locked := True\<rparr>))"

definition registry_unlock :: "'v TaskRegistry \<Rightarrow> 'v TaskRegistry" where
  "registry_unlock reg = reg\<lparr>cr_locked := False\<rparr>"

definition registry_call :: "('v TaskRegistry \<Rightarrow> 'a \<times> 'v TaskRegistry) \<Rightarrow> 'v TaskRegistry \<Rightarrow> ('a \<times> 'v TaskRegistry) option" where
  "registry_call body reg = do { reg1 \<leftarrow> registry_lock reg; let (r, reg2) = body reg1; Some (r, registry_unlock reg2) }"

definition upd_task :: "nat \<Rightarrow> ('v CoroSlot \<Rightarrow> 'v CoroSlot) \<Rightarrow> 'v TaskRegistry \<Rightarrow> 'v TaskRegistry" where
  "upd_task i f reg = reg\<lparr>cr_slots := (cr_slots reg)[i := f (cr_slots reg ! i)]\<rparr>"

definition reject :: "'v TaskRegistry \<Rightarrow> 'v TaskRegistry" where
  "reject reg = reg\<lparr>cr_rejected := cr_rejected reg + 1\<rparr>"

definition find_locked :: "u16 \<Rightarrow> 'v TaskRegistry \<Rightarrow> nat option" where
  "find_locked i reg =
     (if kInvalidTaskId = i then None
      else let index = task_id_slot i in
        if index \<ge> length (cr_slots reg) then None
        else if cs_state (cr_slots reg ! index) = kSlotFree then None
        else if generation (cr_slots reg ! index) \<noteq> task_id_generation i then None
        else Some index)"

fun free_slot :: "nat \<Rightarrow> 'v CoroSlot list \<Rightarrow> nat option" where
  "free_slot i [] = None"
| "free_slot i (x # xs) = (if cs_state x = kSlotFree then Some i else free_slot (Suc i) xs)"

text \<open>Both handles of the pair carry the identifier returned here.\<close>
definition create :: "TargetId \<Rightarrow> u16 \<Rightarrow> EventQos \<Rightarrow> 'v TaskRegistry \<Rightarrow> (TaskError + u16) \<times> 'v TaskRegistry" where
  "create waiter sig qos reg =
     (case free_slot 0 (cr_slots reg) of
        None \<Rightarrow> (Inl kTaskSlotsFull, reg)
      | Some i \<Rightarrow>
          (Inr (task_id_make (of_nat i) (generation (cr_slots reg ! i))),
           upd_task i (\<lambda>x. x\<lparr>cs_state := kCreated, cs_waiter := waiter, cs_signal := sig, cs_qos := qos\<rparr>) reg))"

definition delivered :: "SubmitResult \<Rightarrow> bool" where
  "delivered r \<longleftrightarrow> disposition r = Direct \<or> disposition r = Queued \<or> disposition r = Merged"

type_synonym 'v WaiterAction = "CompletionPayload \<Rightarrow> 'v TaskRegistry \<Rightarrow> 'v TaskRegistry option"

definition post_completion_locked ::
    "'p Env \<Rightarrow> nat \<Rightarrow> 'v WaiterAction \<Rightarrow> u16 \<Rightarrow> nat \<Rightarrow> CompletionStatus \<Rightarrow> TaskError \<Rightarrow> 'v TaskRegistry \<Rightarrow> ('c, 'p) Sys
       \<Rightarrow> ((TaskError + unit) \<times> 'v TaskRegistry \<times> ('c, 'p) Sys) option" where
  "post_completion_locked env pool act tid i status err reg s =
     (let x = cr_slots reg ! i;
          failed = (\<lambda>reg. upd_task i slot_release (reg\<lparr>cr_failures := cr_failures reg + 1\<rparr>)) in
      if kInvalidTarget = cs_waiter x then Some (Inr (), reg, s)
      else case alloc pool (cs_signal x) (pool_world s) of
        (None, w) \<Rightarrow> Some (Inl kTaskPoolExhausted, failed reg, s\<lparr>pool_world := w\<rparr>)
      | (Some e, w) \<Rightarrow> do {
          let meta = \<lparr>cp_task_id = tid, cp_status = completion_raw status, cp_reserved = 0, cp_error_code = task_error_raw err\<rparr>;
          let reg1 = reg\<lparr>cr_meta := (cr_meta reg)(e \<mapsto> meta)\<rparr>;
          (result, s1) \<leftarrow> submit_from_task env (cs_waiter x) e (cs_qos x) Ordinary (s\<lparr>pool_world := w\<rparr>);
          reg2 \<leftarrow> (if disposition result = Direct then act meta reg1 else Some reg1);
          Some (if delivered result then (Inr (), reg2, s1) else (Inl kTargetRejected, failed reg2, s1))
        })"

definition complete ::
    "'p Env \<Rightarrow> nat \<Rightarrow> 'v WaiterAction \<Rightarrow> u16 \<Rightarrow> 'v \<Rightarrow> 'v TaskRegistry \<Rightarrow> ('c, 'p) Sys
       \<Rightarrow> ((TaskError + unit) \<times> 'v TaskRegistry \<times> ('c, 'p) Sys) option" where
  "complete env pool act tid value reg s = do {
     reg1 \<leftarrow> registry_lock reg;
     (r, reg2, s1) \<leftarrow> (case find_locked tid reg1 of
        None \<Rightarrow> Some (Inl kInvalidId, reg1, s)
      | Some i \<Rightarrow>
          if cs_state (cr_slots reg1 ! i) = kCompleted then
            Some (Inl (if has_error (cr_slots reg1 ! i) \<and> cs_error (cr_slots reg1 ! i) = kCancelled then kCancelled
                       else kAlreadyCompleted), reject reg1, s)
          else post_completion_locked env pool act tid i kSucceeded kOk
            (upd_task i (\<lambda>x. x\<lparr>cs_result := Some value, has_result := True, has_error := False, cs_state := kCompleted\<rparr>) reg1) s);
     Some (r, registry_unlock reg2, s1)
   }"

definition fail ::
    "'p Env \<Rightarrow> nat \<Rightarrow> 'v WaiterAction \<Rightarrow> u16 \<Rightarrow> TaskError \<Rightarrow> 'v TaskRegistry \<Rightarrow> ('c, 'p) Sys
       \<Rightarrow> ((TaskError + unit) \<times> 'v TaskRegistry \<times> ('c, 'p) Sys) option" where
  "fail env pool act tid err reg s = do {
     reg1 \<leftarrow> registry_lock reg;
     (r, reg2, s1) \<leftarrow> (case find_locked tid reg1 of
        None \<Rightarrow> Some (Inl kInvalidId, reg1, s)
      | Some i \<Rightarrow>
          if cs_state (cr_slots reg1 ! i) = kCompleted then Some (Inl kAlreadyCompleted, reject reg1, s)
          else post_completion_locked env pool act tid i kFailed err
            (upd_task i (\<lambda>x. x\<lparr>has_result := False, has_error := True, cs_error := err, cs_state := kCompleted\<rparr>) reg1) s);
     Some (r, registry_unlock reg2, s1)
   }"

definition cancel_task ::
    "'p Env \<Rightarrow> nat \<Rightarrow> 'v WaiterAction \<Rightarrow> u16 \<Rightarrow> 'v TaskRegistry \<Rightarrow> ('c, 'p) Sys
       \<Rightarrow> ((TaskError + unit) \<times> 'v TaskRegistry \<times> ('c, 'p) Sys) option" where
  "cancel_task env pool act tid reg s = do {
     reg1 \<leftarrow> registry_lock reg;
     (r, reg2, s1) \<leftarrow> (case find_locked tid reg1 of
        None \<Rightarrow> Some (Inl kInvalidId, reg1, s)
      | Some i \<Rightarrow>
          if cs_state (cr_slots reg1 ! i) = kCompleted then Some (Inl kAlreadyCompleted, reject reg1, s)
          else post_completion_locked env pool act tid i kStatusCancelled kCancelled
            (upd_task i (\<lambda>x. x\<lparr>has_result := False, has_error := True, cs_error := kCancelled, cs_state := kCompleted\<rparr>) reg1) s);
     Some (r, registry_unlock reg2, s1)
   }"

definition set_awaiter :: "u16 \<Rightarrow> TargetId \<Rightarrow> u16 \<Rightarrow> 'v TaskRegistry \<Rightarrow> (TaskError + unit) \<times> 'v TaskRegistry" where
  "set_awaiter tid waiter sig reg =
     (case find_locked tid reg of
        None \<Rightarrow> (Inl kInvalidId, reg)
      | Some i \<Rightarrow>
          if cs_state (cr_slots reg ! i) = kWaiting then (Inl kAwaiterBusy, reject reg)
          else if cs_state (cr_slots reg ! i) = kCompleted then (Inl kAlreadyCompleted, reg)
          else (Inr (), upd_task i (\<lambda>x. x\<lparr>cs_waiter := waiter, cs_signal := sig, cs_state := kWaiting\<rparr>) reg))"

definition is_ready :: "u16 \<Rightarrow> 'v TaskRegistry \<Rightarrow> bool" where
  "is_ready tid reg = (case find_locked tid reg of None \<Rightarrow> False | Some i \<Rightarrow> cs_state (cr_slots reg ! i) = kCompleted)"

definition task_has_error :: "u16 \<Rightarrow> 'v TaskRegistry \<Rightarrow> bool" where
  "task_has_error tid reg = (case find_locked tid reg of None \<Rightarrow> False | Some i \<Rightarrow> has_error (cr_slots reg ! i))"

text \<open>The outer option is the read of result bytes that were never stored.\<close>
definition take_result :: "u16 \<Rightarrow> 'v TaskRegistry \<Rightarrow> ((TaskError + 'v) \<times> 'v TaskRegistry) option" where
  "take_result tid reg =
     (case find_locked tid reg of
        None \<Rightarrow> Some (Inl kInvalidId, reg)
      | Some i \<Rightarrow>
          let x = cr_slots reg ! i in
          if cs_state x \<noteq> kCompleted then Some (Inl kResultUnavailable, reg)
          else if has_error x then Some (Inl (cs_error x), reg)
          else if \<not> has_result x then Some (Inl kResultTaken, reg)
          else do { value \<leftarrow> cs_result x; Some (Inr value, upd_task i (\<lambda>x. x\<lparr>has_result := False\<rparr>) reg) })"

definition take_error :: "u16 \<Rightarrow> 'v TaskRegistry \<Rightarrow> TaskError" where
  "take_error tid reg =
     (case find_locked tid reg of
        None \<Rightarrow> kOk
      | Some i \<Rightarrow> if has_error (cr_slots reg ! i) then cs_error (cr_slots reg ! i) else kOk)"

definition release_task :: "u16 \<Rightarrow> 'v TaskRegistry \<Rightarrow> (TaskError + unit) \<times> 'v TaskRegistry" where
  "release_task tid reg =
     (case find_locked tid reg of None \<Rightarrow> (Inl kInvalidId, reg) | Some i \<Rightarrow> (Inr (), upd_task i slot_release reg))"

definition used_slots :: "'v TaskRegistry \<Rightarrow> u16" where
  "used_slots reg = of_nat (length (filter (\<lambda>x. cs_state x \<noteq> kSlotFree) (cr_slots reg)))"

section \<open>Handles\<close>

text \<open>
  Task, Promise and AwaitableRef are a registry pointer and an identifier; whether the pointer is
  null is \<^verbatim>\<open>hd_bound\<close>. Moving a handle out leaves an invalid one behind.
\<close>
record Handle =
  hd_bound :: bool
  hd_id :: u16

definition null_handle :: Handle where "null_handle = \<lparr>hd_bound = False, hd_id = kInvalidTaskId\<rparr>"

definition handle_valid :: "Handle \<Rightarrow> bool" where
  "handle_valid h \<longleftrightarrow> hd_bound h \<and> hd_id h \<noteq> 0"

definition handle_move :: "Handle \<Rightarrow> Handle \<times> Handle" where
  "handle_move h = (h, null_handle)"

definition handle_ready :: "Handle \<Rightarrow> 'v TaskRegistry \<Rightarrow> bool" where
  "handle_ready h reg \<longleftrightarrow> handle_valid h \<and> is_ready (hd_id h) reg"

definition handle_has_error :: "Handle \<Rightarrow> 'v TaskRegistry \<Rightarrow> bool" where
  "handle_has_error h reg \<longleftrightarrow> handle_valid h \<and> task_has_error (hd_id h) reg"

definition handle_set_awaiter :: "Handle \<Rightarrow> TargetId \<Rightarrow> u16 \<Rightarrow> 'v TaskRegistry \<Rightarrow> (TaskError + unit) \<times> 'v TaskRegistry" where
  "handle_set_awaiter h waiter sig reg =
     (if \<not> handle_valid h then (Inl kInvalidId, reg) else set_awaiter (hd_id h) waiter sig reg)"

definition handle_release :: "Handle \<Rightarrow> 'v TaskRegistry \<Rightarrow> (TaskError + unit) \<times> Handle \<times> 'v TaskRegistry" where
  "handle_release h reg =
     (if \<not> handle_valid h then (Inl kInvalidId, h, reg)
      else case release_task (hd_id h) reg of (r, reg1) \<Rightarrow> (r, null_handle, reg1))"

definition promise_complete ::
    "'p Env \<Rightarrow> nat \<Rightarrow> 'v WaiterAction \<Rightarrow> Handle \<Rightarrow> 'v \<Rightarrow> 'v TaskRegistry \<Rightarrow> ('c, 'p) Sys
       \<Rightarrow> ((TaskError + unit) \<times> 'v TaskRegistry \<times> ('c, 'p) Sys) option" where
  "promise_complete env pool act h value reg s =
     (if \<not> handle_valid h then Some (Inl kInvalidId, reg, s) else complete env pool act (hd_id h) value reg s)"

definition promise_fail ::
    "'p Env \<Rightarrow> nat \<Rightarrow> 'v WaiterAction \<Rightarrow> Handle \<Rightarrow> TaskError \<Rightarrow> 'v TaskRegistry \<Rightarrow> ('c, 'p) Sys
       \<Rightarrow> ((TaskError + unit) \<times> 'v TaskRegistry \<times> ('c, 'p) Sys) option" where
  "promise_fail env pool act h err reg s =
     (if \<not> handle_valid h then Some (Inl kInvalidId, reg, s) else fail env pool act (hd_id h) err reg s)"

definition promise_cancel ::
    "'p Env \<Rightarrow> nat \<Rightarrow> 'v WaiterAction \<Rightarrow> Handle \<Rightarrow> 'v TaskRegistry \<Rightarrow> ('c, 'p) Sys \<Rightarrow> ((TaskError + unit) \<times> 'v TaskRegistry \<times> ('c, 'p) Sys) option" where
  "promise_cancel env pool act h reg s =
     (if \<not> handle_valid h then Some (Inl kInvalidId, reg, s) else cancel_task env pool act (hd_id h) reg s)"

definition await_result :: "Handle \<Rightarrow> 'v TaskRegistry \<Rightarrow> ((TaskError + 'v) \<times> 'v TaskRegistry) option" where
  "await_result h reg = (if \<not> handle_valid h then Some (Inl kInvalidId, reg) else take_result (hd_id h) reg)"

definition await_error :: "Handle \<Rightarrow> 'v TaskRegistry \<Rightarrow> TaskError" where
  "await_error h reg = (if \<not> handle_valid h then kInvalidId else take_error (hd_id h) reg)"

end
