(* ===== verification/Task_Registry_Properties.thy ===== *)
theory Task_Registry_Properties
  imports Task_Registry Posting Runtime_Properties
begin

unbundle bit_operations_syntax

text \<open>
  Correctness of the task registry: identifiers name one incarnation of one slot while its
  generation fits the identifier, a result is handed out once, and a completion event is
  accounted for like every other event. The generation counter of a slot is wider than the
  field of the identifier, so that a slot is lost after 255 releases.
\<close>

section \<open>Identifiers\<close>

lemma mask_byte: "0xFF = (mask 8 :: u16)"
  by (simp add: mask_eq_exp_minus_1)

lemma id_generation: "task_id_generation (task_id_make slot gen) = gen AND 0xFF"
  unfolding task_id_generation_def task_id_make_def mask_byte by (rule bit_eqI) (auto simp: bit_simps)

lemma id_slot_word: "task_id_make slot gen AND 0xFF = slot AND 0xFF"
  unfolding task_id_make_def mask_byte by (rule bit_eqI) (auto simp: bit_simps)

lemma byte_small: "unat w < 256 \<Longrightarrow> w AND 0xFF = (w :: u16)"
proof -
  assume "unat w < 256"
  then have "take_bit 8 (unat w) = unat w" by (simp add: take_bit_nat_eq_self)
  then have "unat (take_bit 8 w) = unat w" by (simp add: unsigned_take_bit_eq)
  then show ?thesis unfolding mask_byte take_bit_eq_mask [symmetric] by (rule unsigned_word_eqI)
qed

lemma id_slot: "i < 256 \<Longrightarrow> task_id_slot (task_id_make (of_nat i) gen) = i"
proof -
  assume i: "i < 256"
  then have u: "unat (of_nat i :: u16) = i" by (intro unat_of_nat_small) simp
  show ?thesis unfolding task_id_slot_def id_slot_word using byte_small [of "of_nat i"] i u by simp
qed

lemma id_rebuild: "task_id_make (of_nat (task_id_slot u)) (task_id_generation u) = u"
proof -
  have "of_nat (task_id_slot u) = u AND 0xFF" by (simp add: task_id_slot_def)
  then show ?thesis unfolding task_id_make_def task_id_generation_def mask_byte
    by (intro bit_eqI) (auto simp: bit_simps not_less)
qed

lemma id_nonzero: "\<lbrakk>unat gen < 256; gen \<noteq> 0\<rbrakk> \<Longrightarrow> task_id_make slot gen \<noteq> kInvalidTaskId"
proof
  assume g: "unat gen < 256" "gen \<noteq> 0" "task_id_make slot gen = kInvalidTaskId"
  then have "task_id_generation (task_id_make slot gen) = 0" by (simp add: kInvalidTaskId_def task_id_generation_def)
  then have "gen AND 0xFF = 0" unfolding id_generation .
  then show False using g(2) byte_small [OF g(1)] by simp
qed

section \<open>Slots\<close>

lemma free_slot_Some:
  "free_slot k xs = Some i \<Longrightarrow> k \<le> i \<and> i - k < length xs \<and> cs_state (xs ! (i - k)) = kSlotFree"
  by (induction k xs rule: free_slot.induct) (auto split: if_splits simp: nth_Cons' Suc_diff_le not_less_eq_eq)

lemma find_Some:
  "find_locked u reg = Some i \<longleftrightarrow> u \<noteq> kInvalidTaskId \<and> task_id_slot u = i \<and> i < length (cr_slots reg)
     \<and> cs_state (cr_slots reg ! i) \<noteq> kSlotFree \<and> generation (cr_slots reg ! i) = task_id_generation u"
  by (auto simp: find_locked_def Let_def)

lemma upd_simps [simp]:
  "length (cr_slots (upd_task i f reg)) = length (cr_slots reg)" "cr_failures (upd_task i f reg) = cr_failures reg"
  "j \<noteq> i \<Longrightarrow> cr_slots (upd_task i f reg) ! j = cr_slots reg ! j"
  "i < length (cr_slots reg) \<Longrightarrow> cr_slots (upd_task i f reg) ! i = f (cr_slots reg ! i)"
  by (simp_all add: upd_task_def)

lemma lock_simps [simp]:
  "cr_slots (registry_unlock reg) = cr_slots reg" "cr_failures (registry_unlock reg) = cr_failures reg"
  "\<not> cr_locked (registry_unlock reg)" "find_locked u (registry_unlock reg) = find_locked u reg"
  "find_locked u (reg\<lparr>cr_locked := b\<rparr>) = find_locked u reg"
  by (simp_all add: registry_unlock_def find_locked_def Let_def)

lemma lock_free: "\<not> cr_locked reg \<Longrightarrow> registry_lock reg = Some (reg\<lparr>cr_locked := True\<rparr>)"
  by (simp add: registry_lock_def)

lemma call_blocks: "cr_locked reg \<Longrightarrow> registry_call body reg = None"
  by (simp add: registry_call_def registry_lock_def)

lemma find_upd:
  assumes "find_locked u reg = Some i" "cs_state (f (cr_slots reg ! i)) \<noteq> kSlotFree" "generation (f (cr_slots reg ! i)) = generation (cr_slots reg ! i)"
  shows "find_locked u (upd_task i f reg) = Some i"
  using assms by (simp add: find_Some)

lemma release_state: "cs_state (slot_release x) = kSlotFree"
  by (simp add: slot_release_def)

lemma find_released: "find_locked u reg = Some i \<Longrightarrow> find_locked u (upd_task i slot_release reg) = None"
  by (auto simp: find_locked_def Let_def find_Some release_state split: if_splits)

lemma find_other: "task_id_slot u \<noteq> i \<Longrightarrow> find_locked u (upd_task i f reg) = find_locked u reg"
  by (simp add: find_locked_def Let_def)

lemma find_free: "cs_state (cr_slots reg ! i) = kSlotFree \<Longrightarrow> task_id_slot u = i \<Longrightarrow> find_locked u reg = None"
  by (auto simp: find_locked_def Let_def)

lemma create_find:
  assumes "free_slot 0 (cr_slots reg) = Some i" "length (cr_slots reg) \<le> 256"
    "unat (generation (cr_slots reg ! i)) < 256" "generation (cr_slots reg ! i) \<noteq> 0"
  shows "\<exists>u reg'. create waiter sig qos reg = (Inr u, reg') \<and> find_locked u reg' = Some i
    \<and> u = task_id_make (of_nat i) (generation (cr_slots reg ! i)) \<and> (\<forall>v. v \<noteq> u \<longrightarrow> find_locked v reg' = find_locked v reg)
    \<and> generation (cr_slots reg' ! i) = generation (cr_slots reg ! i)"
proof -
  note F = free_slot_Some [OF assms(1), simplified]
  let ?g = "generation (cr_slots reg ! i)"
  let ?u = "task_id_make (of_nat i) ?g"
  let ?reg = "upd_task i (\<lambda>x. x\<lparr>cs_state := kCreated, cs_waiter := waiter, cs_signal := sig, cs_qos := qos\<rparr>) reg"
  have u: "task_id_slot ?u = i" "task_id_generation ?u = ?g" "?u \<noteq> kInvalidTaskId"
    using id_slot [of i] F assms(2) id_nonzero [OF assms(3,4)] by (simp_all add: id_generation byte_small [OF assms(3)])
  have "find_locked ?u ?reg = Some i" using F u by (simp add: find_Some)
  moreover have "find_locked v ?reg = find_locked v reg" if "v \<noteq> ?u" for v
  proof (cases "task_id_slot v = i")
    case True
    have "find_locked v ?reg \<noteq> Some j" for j using True that id_rebuild [of v] F by (auto simp: find_Some)
    then have "find_locked v ?reg = None" by (cases "find_locked v ?reg") auto
    then show ?thesis using find_free [OF conjunct2 [OF F] True] by simp
  qed (rule find_other)
  ultimately show ?thesis using assms(1) F by (simp add: create_def)
qed

section \<open>Completion\<close>

lemma post_completion_ok:
  assumes "sys_inv cfg D s" "accounts ImmediateReclaimer X D T s" "registered (pool_world s) pool"
    and cfg: "env_cfg env = cfg" "small_config cfg" "length D \<le> 1" and "staging_fresh 1 (staging s)"
    and "find_locked u reg = Some i" and act: "\<forall>p r. act p r = Some r"
  shows "\<exists>r reg' s'. post_completion_locked env pool act u i status err reg s = Some (r, reg', s') \<and> sys_inv cfg D s'
    \<and> accounts ImmediateReclaimer X D T s' \<and> (\<forall>j. j \<noteq> i \<longrightarrow> cr_slots reg' ! j = cr_slots reg ! j)
    \<and> (r = Inr () \<and> cr_slots reg' = cr_slots reg
       \<or> r \<in> {Inl kTaskPoolExhausted, Inl kTargetRejected} \<and> cr_failures reg' = cr_failures reg + 1 \<and> find_locked u reg' = None)"
proof (cases "cs_waiter (cr_slots reg ! i) = kInvalidTarget")
  case True
  then show ?thesis using assms(1,2) by (simp add: post_completion_locked_def)
next
  case False
  let ?x = "cr_slots reg ! i"
  have gone: "find_locked u (upd_task i slot_release (reg\<lparr>cr_meta := m, cr_failures := n\<rparr>)) = None"
      "find_locked u (upd_task i slot_release (reg\<lparr>cr_failures := n\<rparr>)) = None" for m n
    using assms(8) by (intro find_released; simp add: find_Some)+
  have fr: "staging_fresh (Suc 0) (staging s)" using assms(7) by simp
  from post_event_ok [OF assms(1-3) cfg fr, of "cs_signal ?x" "cs_waiter ?x" "cs_qos ?x"] show ?thesis
  proof (elim disjE exE conjE)
    assume "alloc pool (cs_signal ?x) (pool_world s) = (None, pool_world s)"
    then show ?thesis using False assms(1,2) gone by (simp add: post_completion_locked_def Let_def)
  next
    fix e w res s1
    assume "alloc pool (cs_signal ?x) (pool_world s) = (Some e, w)"
      "submit_from_task env (cs_waiter ?x) e (cs_qos ?x) Ordinary (s\<lparr>pool_world := w\<rparr>) = Some (res, s1)"
      "sys_inv cfg D s1" "accounts ImmediateReclaimer X D T s1"
    then show ?thesis using False gone act by (cases "delivered res") (simp_all add: post_completion_locked_def Let_def)
  qed
qed

section \<open>Generations\<close>

definition plain_qos :: EventQos where "plain_qos = \<lparr>critical = False, mergeable = False\<rparr>"

text \<open>One task is created and released.\<close>
definition churn :: "'v TaskRegistry \<Rightarrow> 'v TaskRegistry" where
  "churn reg = (case create kInvalidTarget 0 plain_qos reg of (Inr u, reg1) \<Rightarrow> snd (release_task u reg1) | (Inl e, reg1) \<Rightarrow> reg1)"

abbreviation one_slot :: "u16 \<Rightarrow> 'v TaskRegistry" where
  "one_slot g \<equiv> (task_registry_new 1)\<lparr>cr_slots := [empty_slot\<lparr>generation := g\<rparr>]\<rparr>"

lemma empty_slot_state: "cs_state empty_slot = kSlotFree"
  by (simp add: empty_slot_def)

lemma churn_step:
  assumes "unat g < 256" "g \<noteq> 0"
  shows "churn (one_slot g :: 'v TaskRegistry) = one_slot (g + 1)"
proof -
  let ?reg = "upd_task 0 (\<lambda>x. x\<lparr>cs_state := kCreated, cs_waiter := kInvalidTarget, cs_signal := 0, cs_qos := plain_qos\<rparr>) (one_slot g :: 'v TaskRegistry)"
  have "unat (g + 1) = unat g + 1" using assms(1) by (intro unat_inc) simp
  then have n: "g + 1 \<noteq> 0" by auto
  have c: "create kInvalidTarget 0 plain_qos (one_slot g :: 'v TaskRegistry) = (Inr (task_id_make 0 g), ?reg)" by (simp add: create_def empty_slot_state)
  have "find_locked (task_id_make 0 g) ?reg = Some 0"
    using id_slot [of 0 g] id_nonzero [OF assms] byte_small [OF assms(1)] by (simp add: find_Some upd_task_def id_generation)
  then have "churn (one_slot g) = upd_task 0 slot_release ?reg" unfolding churn_def c by (simp add: release_task_def)
  also have "\<dots> = one_slot (g + 1)" using n by (simp add: upd_task_def slot_release_def empty_slot_def plain_qos_def)
  finally show ?thesis .
qed

lemma churn_iterate: "k \<le> 255 \<Longrightarrow> (churn ^^ k) (one_slot 1) = one_slot (of_nat (Suc k))"
proof (induction k)
  case (Suc k)
  have "unat (of_nat (Suc k) :: u16) = Suc k" using Suc.prems by (intro unat_of_nat_small) simp
  then have "unat (of_nat (Suc k) :: u16) < 256" "(of_nat (Suc k) :: u16) \<noteq> 0" using Suc.prems by (auto simp del: of_nat_Suc)
  from churn_step [OF this] show ?case using Suc by (simp add: add.commute add.left_commute)
qed simp

section \<open>Properties\<close>

text \<open>
  C14. Completing a task accounts for everything, provided the calling thread does not hold the
  registry's mutex and the waiter's handlers make no call to the registry: in a consistent
  system the completion then returns with the mutex free, keeps the system consistent, leaks
  no event and touches no other slot. Either it succeeds, the task is ready and its result
  can be taken exactly once; or the completion event could not be allocated or was rejected,
  the failure is counted and the identifier is dead.
\<close>
theorem completion_accounts_for_event:
  assumes "sys_inv cfg D s" and "accounts ImmediateReclaimer X D T s" and "registered (pool_world s) pool"
    and "env_cfg env = cfg" and "small_config cfg" and "length D \<le> 1" and "staging_fresh 1 (staging s)"
    and "find_locked u reg = Some i" and "cs_state (cr_slots reg ! i) \<noteq> kCompleted"
    and "\<not> cr_locked reg" and "\<forall>p r. act p r = Some r"
  shows "\<exists>r reg' s'. complete env pool act u v reg s = Some (r, reg', s') \<and> sys_inv cfg D s' \<and> accounts ImmediateReclaimer X D T s'
    \<and> \<not> cr_locked reg' \<and> (\<forall>j. j \<noteq> i \<longrightarrow> cr_slots reg' ! j = cr_slots reg ! j)
    \<and> (r = Inr () \<and> is_ready u reg'
         \<and> (\<exists>reg2. take_result u reg' = Some (Inr v, reg2) \<and> take_result u reg2 = Some (Inl kResultTaken, reg2))
       \<or> r \<in> {Inl kTaskPoolExhausted, Inl kTargetRejected} \<and> cr_failures reg' = cr_failures reg + 1 \<and> find_locked u reg' = None)"
proof -
  let ?f = "\<lambda>x. x\<lparr>cs_result := Some v, has_result := True, has_error := False, cs_state := kCompleted\<rparr>"
  let ?reg = "upd_task i ?f (reg\<lparr>cr_locked := True\<rparr>)"
  have i: "i < length (cr_slots reg)" using assms(8) by (simp add: find_Some)
  have f: "find_locked u ?reg = Some i" using assms(8) by (intro find_upd) simp_all
  obtain r reg1 s' where p: "post_completion_locked env pool act u i kSucceeded kOk ?reg s = Some (r, reg1, s')" "sys_inv cfg D s'"
      "accounts ImmediateReclaimer X D T s'" "\<And>j. j \<noteq> i \<Longrightarrow> cr_slots reg1 ! j = cr_slots reg ! j"
      "r = Inr () \<and> cr_slots reg1 = cr_slots ?reg
       \<or> r \<in> {Inl kTaskPoolExhausted, Inl kTargetRejected} \<and> cr_failures reg1 = cr_failures reg + 1 \<and> find_locked u reg1 = None"
    using post_completion_ok [OF assms(1-7) f assms(11), of kSucceeded kOk] by auto
  let ?reg' = "registry_unlock reg1"
  have c: "complete env pool act u v reg s = Some (r, ?reg', s')"
    using p(1) assms(8,9) lock_free [OF assms(10)] by (simp add: complete_def)
  show ?thesis
  proof (cases "r = Inr ()")
    case True
    then have sl: "cr_slots ?reg' = cr_slots ?reg" using p(5) by auto
    have f': "find_locked u ?reg' = Some i" using f unfolding find_Some sl .
    have x: "cr_slots ?reg' ! i = ?f (cr_slots reg ! i)" unfolding sl using i by simp
    let ?reg2 = "upd_task i (\<lambda>x. x\<lparr>has_result := False\<rparr>) ?reg'"
    have "find_locked u ?reg2 = Some i" using f' x by (intro find_upd) simp_all
    moreover have "cr_slots ?reg2 ! i = (?f (cr_slots reg ! i))\<lparr>has_result := False\<rparr>" using f' x by (simp add: find_Some)
    ultimately have "take_result u ?reg' = Some (Inr v, ?reg2)" "take_result u ?reg2 = Some (Inl kResultTaken, ?reg2)"
      using f' x by (simp_all add: take_result_def Let_def)
    moreover have "is_ready u ?reg'" using f' x by (simp add: is_ready_def)
    moreover have "\<forall>j. j \<noteq> i \<longrightarrow> cr_slots ?reg' ! j = cr_slots reg ! j" using p(4) by simp
    ultimately show ?thesis using c p(2,3) True lock_simps(3) by blast
  next
    case False
    then have "r \<in> {Inl kTaskPoolExhausted, Inl kTargetRejected}" "cr_failures ?reg' = cr_failures reg + 1" "find_locked u ?reg' = None"
      using p(5) by auto
    moreover have "\<forall>j. j \<noteq> i \<longrightarrow> cr_slots ?reg' ! j = cr_slots reg ! j" using p(4) by simp
    ultimately show ?thesis using c p(2,3) lock_simps(3) by blast
  qed
qed

text \<open>A task with a waiter is completed in a freshly started runtime.\<close>
theorem completion_accounts_for_event_witness:
  "\<exists>rt r reg' s'. runtime_setup [BindNext (Some 0)] StartVoid DefaultConfig
        (runtime_new MpscBackend DefaultConfig 4 None (0 :: nat) demo_world (\<lambda>_. demo_ao)) = Some (True, rt)
    \<and> complete demo_env 7 (\<lambda>_. Some) 256 True (snd (create 1 5 plain_qos (task_registry_new 2))) (rt_sys rt) = Some (r, reg', s')
    \<and> sys_inv DefaultConfig [] s' \<and> (r = Inr () \<longrightarrow> is_ready 256 reg')"
proof -
  let ?reg = "snd (create 1 5 plain_qos (task_registry_new 2)) :: bool TaskRegistry"
  obtain rt where rt: "runtime_setup [BindNext (Some 0)] StartVoid DefaultConfig
        (runtime_new MpscBackend DefaultConfig 4 None (0 :: nat) demo_world (\<lambda>_. demo_ao)) = Some (True, rt)"
      "sys_inv DefaultConfig [] (rt_sys rt)" "accounts ImmediateReclaimer [] [] Map.empty (rt_sys rt)"
      "registered (pool_world (rt_sys rt)) 7" "staging_fresh 1 (staging (rt_sys rt))" by (rule demo_runtime)
  have u: "find_locked 256 ?reg = Some 0" "cs_state (cr_slots ?reg ! 0) \<noteq> kCompleted" "\<not> cr_locked ?reg" by code_simp+
  have h: "env_cfg demo_env = DefaultConfig" "length [] \<le> (1 :: nat)" by (simp_all add: demo_env_def)
  from completion_accounts_for_event [OF rt(2,3,4) h(1) demo_config(2) h(2) rt(5) u, of "\<lambda>_. Some" True, simplified] rt(1) show ?thesis by blast
qed

text \<open>
  C15. Completing a task blocks for ever when the completion event is dispatched directly and
  the waiter's handler calls the registry, as the group protocol asks of it: the handler runs
  while the calling thread holds the registry's mutex, which it cannot lock twice.
\<close>
theorem direct_waiter_call_blocks:
  assumes "\<not> cr_locked reg" and "find_locked u reg = Some i" and "cs_state (cr_slots reg ! i) \<noteq> kCompleted"
    and "cs_waiter (cr_slots reg ! i) \<noteq> kInvalidTarget"
    and "alloc pool (cs_signal (cr_slots reg ! i)) (pool_world s) = (Some e, w)"
    and "submit_from_task env (cs_waiter (cr_slots reg ! i)) e (cs_qos (cr_slots reg ! i)) Ordinary (s\<lparr>pool_world := w\<rparr>) = Some (r, s1)"
    and "disposition r = Direct"
  shows "complete env pool (\<lambda>p reg. map_option snd (registry_call (body p) reg)) u v reg s = None"
proof -
  let ?reg = "upd_task i (\<lambda>x. x\<lparr>cs_result := Some v, has_result := True, has_error := False, cs_state := kCompleted\<rparr>) (reg\<lparr>cr_locked := True\<rparr>)"
  have i: "i < length (cr_slots reg)" using assms(2) by (simp add: find_Some)
  have x: "cs_waiter (cr_slots ?reg ! i) = cs_waiter (cr_slots reg ! i)" "cs_signal (cr_slots ?reg ! i) = cs_signal (cr_slots reg ! i)"
      "cs_qos (cr_slots ?reg ! i) = cs_qos (cr_slots reg ! i)" using i by simp_all
  have l: "cr_locked ?reg" by (simp add: upd_task_def)
  have "post_completion_locked env pool (\<lambda>p reg. map_option snd (registry_call (body p) reg)) u i kSucceeded kOk ?reg s = None"
    unfolding post_completion_locked_def Let_def x using assms(4-7) l by (simp add: call_blocks)
  then show ?thesis using assms(2,3) lock_free [OF assms(1)] by (simp add: complete_def)
qed

text \<open>
  In a freshly started runtime the completion event of the first task goes directly to the waiter,
  whose handler asks whether the task is ready.
\<close>
theorem direct_waiter_call_blocks_witness:
  "\<exists>rt. runtime_setup [BindNext (Some 0)] StartVoid DefaultConfig
        (runtime_new MpscBackend DefaultConfig 4 None (0 :: nat) demo_world (\<lambda>_. demo_ao)) = Some (True, rt)
    \<and> complete demo_env 7 (\<lambda>p reg. map_option snd (registry_call (\<lambda>reg. (is_ready (cp_task_id p) reg, reg)) reg)) 256 True
        (snd (create 1 5 plain_qos (task_registry_new 2))) (rt_sys rt) = None"
proof -
  let ?reg = "snd (create 1 5 plain_qos (task_registry_new 2)) :: bool TaskRegistry"
  have u: "\<not> cr_locked ?reg" "find_locked 256 ?reg = Some 0" "cs_state (cr_slots ?reg ! 0) \<noteq> kCompleted"
      "cs_waiter (cr_slots ?reg ! 0) \<noteq> kInvalidTarget" "cs_waiter (cr_slots ?reg ! 0) = 1" "cs_signal (cr_slots ?reg ! 0) = 5"
      "cs_qos (cr_slots ?reg ! 0) = plain_qos" by code_simp+
  have "(case runtime_setup [BindNext (Some 0)] StartVoid DefaultConfig
        (runtime_new MpscBackend DefaultConfig 4 None (0 :: nat) demo_world (\<lambda>_. demo_ao)) of
      Some (True, rt) \<Rightarrow> (case alloc 7 5 (pool_world (rt_sys rt)) of
          (Some e, w) \<Rightarrow> (case submit_from_task demo_env 1 e plain_qos Ordinary ((rt_sys rt)\<lparr>pool_world := w\<rparr>) of
              Some (r, s1) \<Rightarrow> disposition r = Direct | _ \<Rightarrow> False) | _ \<Rightarrow> False) | _ \<Rightarrow> False)" by code_simp
  then obtain rt e w r s1 where rt: "runtime_setup [BindNext (Some 0)] StartVoid DefaultConfig
        (runtime_new MpscBackend DefaultConfig 4 None (0 :: nat) demo_world (\<lambda>_. demo_ao)) = Some (True, rt)"
      and e: "alloc 7 5 (pool_world (rt_sys rt)) = (Some e, w)"
        "submit_from_task demo_env 1 e plain_qos Ordinary ((rt_sys rt)\<lparr>pool_world := w\<rparr>) = Some (r, s1)" "disposition r = Direct"
    by (auto split: option.splits prod.splits bool.splits)
  from direct_waiter_call_blocks [OF u(1-4), unfolded u(5-7), OF e, of "\<lambda>p reg. (is_ready (cp_task_id p) reg, reg)" True]
  show ?thesis using rt by blast
qed

text \<open>
  C16. A stale identifier never reaches a recycled slot, as long as the generation fits the
  identifier: creating a task gives an identifier that names the new slot and changes the
  meaning of no other identifier; after its release, and after the slot has been given to the next
  task, the old identifier is still rejected while the new one is accepted.
\<close>
theorem stale_identifiers_rejected:
  assumes "free_slot 0 (cr_slots reg) = Some i" and "length (cr_slots reg) \<le> 256"
    and "unat (generation (cr_slots reg ! i)) < 255" and "generation (cr_slots reg ! i) \<noteq> 0"
  shows "\<exists>u reg1 reg2. create waiter sig qos reg = (Inr u, reg1) \<and> find_locked u reg1 = Some i
    \<and> (\<forall>v. v \<noteq> u \<longrightarrow> find_locked v reg1 = find_locked v reg) \<and> release_task u reg1 = (Inr (), reg2) \<and> find_locked u reg2 = None
    \<and> (free_slot 0 (cr_slots reg2) = Some i \<longrightarrow>
         (\<exists>u' reg3. create waiter' sig' qos' reg2 = (Inr u', reg3) \<and> find_locked u' reg3 = Some i \<and> find_locked u reg3 = None))"
proof -
  let ?g = "generation (cr_slots reg ! i)"
  have g: "unat ?g < 256" using assms(3) by simp
  obtain u reg1 where c: "create waiter sig qos reg = (Inr u, reg1)" "find_locked u reg1 = Some i" "u = task_id_make (of_nat i) ?g"
      "\<And>v. v \<noteq> u \<Longrightarrow> find_locked v reg1 = find_locked v reg" "generation (cr_slots reg1 ! i) = ?g"
    using create_find [OF assms(1,2) g assms(4), of waiter sig qos] by blast
  have len: "length (cr_slots reg1) = length (cr_slots reg)" using c(1) assms(1) by (auto simp: create_def)
  let ?reg2 = "upd_task i slot_release reg1"
  have r: "release_task u reg1 = (Inr (), ?reg2)" "find_locked u ?reg2 = None"
    using c(2) find_released [OF c(2)] by (simp_all add: release_task_def)
  have "unat (?g + 1) = unat ?g + 1" using assms(3) by (intro unat_inc) simp
  then have s: "unat (?g + 1) < 256" "?g + 1 \<noteq> 0" using assms(3) by auto
  have i1: "i < length (cr_slots reg1)" using c(2) by (simp add: find_Some)
  have g2: "generation (cr_slots ?reg2 ! i) = ?g + 1" using i1 c(5) s(2) by (simp add: slot_release_def)
  have "\<exists>u' reg3. create waiter' sig' qos' ?reg2 = (Inr u', reg3) \<and> find_locked u' reg3 = Some i \<and> find_locked u reg3 = None"
    if fs: "free_slot 0 (cr_slots ?reg2) = Some i"
  proof -
    have l2: "length (cr_slots ?reg2) \<le> 256" using len assms(2) by simp
    have g2': "unat (generation (cr_slots ?reg2 ! i)) < 256" "generation (cr_slots ?reg2 ! i) \<noteq> 0" unfolding g2 using s by simp_all
    obtain u' reg3 where n: "create waiter' sig' qos' ?reg2 = (Inr u', reg3)" "find_locked u' reg3 = Some i"
        "u' = task_id_make (of_nat i) (?g + 1)" "\<And>v. v \<noteq> u' \<Longrightarrow> find_locked v reg3 = find_locked v ?reg2"
      using create_find [OF fs l2 g2', of waiter' sig' qos'] unfolding g2 by blast
    have "task_id_generation u = ?g" "task_id_generation u' = ?g + 1"
      unfolding c(3) n(3) id_generation by (rule byte_small [OF g], rule byte_small [OF s(1)])
    then have "u \<noteq> u'" by auto
    then show ?thesis using n r(2) by auto
  qed
  then show ?thesis using c r by blast
qed

theorem stale_identifiers_rejected_witness:
  "\<exists>u reg1 reg2. create 1 5 plain_qos (task_registry_new 2 :: bool TaskRegistry) = (Inr u, reg1)
     \<and> release_task u reg1 = (Inr (), reg2) \<and> find_locked u reg2 = None"
proof -
  let ?reg = "task_registry_new 2 :: bool TaskRegistry"
  have "free_slot 0 (cr_slots ?reg) = Some 0" "length (cr_slots ?reg) \<le> 256" "unat (generation (cr_slots ?reg ! 0)) < 255"
      "generation (cr_slots ?reg ! 0) \<noteq> 0"
    by (simp_all add: task_registry_new_def empty_slot_def numeral_2_eq_2)
  from stale_identifiers_rejected [OF this, of 1 5 plain_qos] show ?thesis by blast
qed

text \<open>
  C17. A slot is lost after 255 releases. The generation of a slot is a 16-bit counter of which the
  identifier holds 8 bits, and the lookup compares the full counter: once it has passed 255,
  create hands out an identifier that every operation rejects, and the slot can never be
  released again. A registry of one slot is then full for ever.
\<close>
theorem slot_lost_after_255_releases:
  "\<exists>u reg. create waiter sig qos ((churn ^^ 255) (task_registry_new 1 :: 'v TaskRegistry)) = (Inr u, reg) \<and> find_locked u reg = None
    \<and> release_task u reg = (Inl kInvalidId, reg) \<and> create waiter' sig' qos' reg = (Inl kTaskSlotsFull, reg)"
proof -
  define r where "r = (churn ^^ 255) (task_registry_new 1 :: 'v TaskRegistry)"
  have n: "(task_registry_new 1 :: 'v TaskRegistry) = one_slot 1" by (simp add: task_registry_new_def empty_slot_def)
  have "r = one_slot (of_nat (Suc 255))" unfolding r_def by (subst n) (rule churn_iterate [OF order.refl])
  moreover have "(of_nat (Suc 255) :: u16) = 256" by simp
  ultimately have c: "r = one_slot 256" by (simp only:)
  have u: "task_id_make 0 256 = kInvalidTaskId" by (simp add: task_id_make_def kInvalidTaskId_def)
  have "find_locked kInvalidTaskId reg = None" for reg :: "'v TaskRegistry" by (simp add: find_locked_def)
  then show ?thesis unfolding r_def [symmetric] c by (simp add: create_def u release_task_def empty_slot_state) (simp add: upd_task_def)
qed

end
