(* ===== verification/Snapshot_Orders.thy ===== *)
theory Snapshot_Orders
  imports Monitor_Properties
begin

unbundle bit_operations_syntax

text \<open>
  The snapshot ring under the memory orders its code asks for (AdmissionSnapshotRing in
  monitor.hpp). The steps of \<^verbatim>\<open>snap_step\<close> run in source order; the code orders less.

  \<^item> The odd sequence store is a release: it does not keep the relaxed field stores behind
    it, so these may become visible before it, in any order. The even store is a release
    after them and comes last.
  \<^item> The first sequence load of a lookup is an acquire and comes first. The second one is an
    acquire as well, which does not keep the relaxed field loads before it, so these may be
    performed after it, in any order.
  \<^item> \<^verbatim>\<open>weak_step\<close> lets the two threads reorder exactly these accesses; everything else,
    and the memory itself, is as in \<^verbatim>\<open>snap_step\<close>. Every run of \<^verbatim>\<open>snap_step\<close> is a run of
    \<^verbatim>\<open>weak_step\<close>, but not the other way round: a lookup can return a mix of two records.
\<close>

section \<open>Steps\<close>

text \<open>
  A writer that owns its slot has a list of field stores still to make and has made the odd
  store or not. A reader has a list of field loads still to make and has passed the second
  sequence check or not.
\<close>
datatype WeakPc =
    XIdle
  | XFetched u64 AdmissionSnapshot
  | XOwner u64 AdmissionSnapshot "nat list" bool
  | XDone u64 AdmissionSnapshot
  | XStart u64
  | XRead u64 AdmissionSnapshot "nat list" bool

record WeakSystem =
  weak_ring :: AdmissionSnapshotRing
  weak_pc :: "nat \<Rightarrow> WeakPc"
  weak_calls :: "AdmissionSnapshot list"
  weak_results :: "(u64 \<times> (SnapshotError + AdmissionSnapshot)) list"

definition weak_start :: "u8 \<Rightarrow> WeakSystem" where
  "weak_start n = \<lparr>weak_ring = snap_ring_new n, weak_pc = (\<lambda>t. XIdle), weak_calls = [], weak_results = []\<rparr>"

abbreviation weak_slot :: "WeakSystem \<Rightarrow> u64 \<Rightarrow> SnapSlot" where
  "weak_slot y seq \<equiv> snap_slots (weak_ring y) ! snap_index (weak_ring y) seq"

abbreviation weak_goto :: "WeakSystem \<Rightarrow> nat \<Rightarrow> WeakPc \<Rightarrow> WeakSystem" where
  "weak_goto y t p \<equiv> y\<lparr>weak_pc := (weak_pc y)(t := p)\<rparr>"

abbreviation weak_return :: "WeakSystem \<Rightarrow> nat \<Rightarrow> u64 \<Rightarrow> SnapshotError + AdmissionSnapshot \<Rightarrow> WeakSystem" where
  "weak_return y t seq res \<equiv> (weak_goto y t XIdle)\<lparr>weak_results := weak_results y @ [(seq, res)]\<rparr>"

inductive weak_step :: "WeakSystem \<Rightarrow> WeakSystem \<Rightarrow> bool" where
  x_fetch: "weak_pc y t = XIdle \<Longrightarrow> seq = snap_count (weak_ring y) + 1 \<Longrightarrow>
     weak_step y ((weak_goto y t (XFetched seq a))\<lparr>weak_ring := (weak_ring y)\<lparr>snap_count := seq\<rparr>,
       weak_calls := weak_calls y @ [a]\<rparr>)"
| x_drop: "weak_pc y t = XFetched seq a \<Longrightarrow> sl_writing (weak_slot y seq) \<Longrightarrow>
     weak_step y ((weak_goto y t XIdle)\<lparr>weak_ring := (weak_ring y)\<lparr>snap_dropped := snap_dropped (weak_ring y) + 1\<rparr>\<rparr>)"
| x_claim: "weak_pc y t = XFetched seq a \<Longrightarrow> \<not> sl_writing (weak_slot y seq) \<Longrightarrow>
     weak_step y ((weak_goto y t (XOwner seq a [0..<5] False))\<lparr>weak_ring := upd_slot (weak_ring y) seq (\<lambda>s. s\<lparr>sl_writing := True\<rparr>)\<rparr>)"
| x_odd: "weak_pc y t = XOwner seq a ks False \<Longrightarrow>
     weak_step y ((weak_goto y t (XOwner seq a ks True))\<lparr>weak_ring := upd_slot (weak_ring y) seq (\<lambda>s. s\<lparr>sl_seq := published seq OR 1\<rparr>)\<rparr>)"
| x_field: "weak_pc y t = XOwner seq a ks marked \<Longrightarrow> k \<in> set ks \<Longrightarrow>
     weak_step y ((weak_goto y t (XOwner seq a (remove1 k ks) marked))\<lparr>weak_ring := upd_slot (weak_ring y) seq (store_field k a)\<rparr>)"
| x_even: "weak_pc y t = XOwner seq a [] True \<Longrightarrow>
     weak_step y ((weak_goto y t (XDone seq a))\<lparr>weak_ring := upd_slot (weak_ring y) seq (\<lambda>s. s\<lparr>sl_seq := published seq\<rparr>)\<rparr>)"
| x_clear: "weak_pc y t = XDone seq a \<Longrightarrow>
     weak_step y ((weak_goto y t XIdle)\<lparr>weak_ring := upd_slot (weak_ring y) seq (\<lambda>s. s\<lparr>sl_writing := False\<rparr>)\<rparr>)"
| x_refuse: "weak_pc y t = XIdle \<Longrightarrow>
     lookup_range (length (snap_slots (weak_ring y))) (snap_count (weak_ring y)) seq = Some e \<Longrightarrow>
     weak_step y (weak_return y t seq (Inl e))"
| x_start: "weak_pc y t = XIdle \<Longrightarrow>
     lookup_range (length (snap_slots (weak_ring y))) (snap_count (weak_ring y)) seq = None \<Longrightarrow>
     weak_step y (weak_goto y t (XStart seq))"
| x_torn: "weak_pc y t = XStart seq \<Longrightarrow> sl_seq (weak_slot y seq) \<noteq> published seq \<Longrightarrow>
     weak_step y (weak_return y t seq (Inl kTorn))"
| x_enter: "weak_pc y t = XStart seq \<Longrightarrow> sl_seq (weak_slot y seq) = published seq \<Longrightarrow>
     weak_step y (weak_goto y t (XRead seq (snap_out seq) [0..<5] False))"
| x_load: "weak_pc y t = XRead seq out ks chk \<Longrightarrow> k \<in> set ks \<Longrightarrow>
     weak_step y (weak_goto y t (XRead seq (load_field k (weak_slot y seq) out) (remove1 k ks) chk))"
| x_reused: "weak_pc y t = XRead seq out ks False \<Longrightarrow> sl_seq (weak_slot y seq) \<noteq> published seq \<Longrightarrow>
     weak_step y (weak_return y t seq (Inl kTorn))"
| x_check: "weak_pc y t = XRead seq out ks False \<Longrightarrow> sl_seq (weak_slot y seq) = published seq \<Longrightarrow>
     weak_step y (weak_goto y t (XRead seq out ks True))"
| x_success: "weak_pc y t = XRead seq out [] True \<Longrightarrow>
     weak_step y (weak_return y t seq (Inr out))"

section \<open>Runs in source order\<close>

fun weak_of :: "SnapPc \<Rightarrow> WeakPc" where
  "weak_of SIdle = XIdle"
| "weak_of (WFetched seq a) = XFetched seq a"
| "weak_of (WOwner seq a) = XOwner seq a [0..<5] False"
| "weak_of (WFields seq a k) = XOwner seq a [k..<5] True"
| "weak_of (WDone seq a) = XDone seq a"
| "weak_of (RStart seq) = XStart seq"
| "weak_of (RFields seq out k) = XRead seq out [k..<5] False"

definition weak_view :: "SnapSystem \<Rightarrow> WeakSystem" where
  "weak_view y = \<lparr>weak_ring = snap_ring y, weak_pc = weak_of \<circ> snap_pc y, weak_calls = snap_calls y, weak_results = snap_results y\<rparr>"

lemma weak_view_sel [simp]:
  "weak_ring (weak_view y) = snap_ring y" "weak_pc (weak_view y) t = weak_of (snap_pc y t)"
  "weak_calls (weak_view y) = snap_calls y" "weak_results (weak_view y) = snap_results y"
  by (simp_all add: weak_view_def)

lemma weak_view_upd:
  "weak_view (goto y t p) = weak_goto (weak_view y) t (weak_of p)"
  "weak_view (y\<lparr>snap_ring := r\<rparr>) = (weak_view y)\<lparr>weak_ring := r\<rparr>"
  "weak_view (y\<lparr>snap_calls := C\<rparr>) = (weak_view y)\<lparr>weak_calls := C\<rparr>"
  "weak_view (y\<lparr>snap_results := R\<rparr>) = (weak_view y)\<lparr>weak_results := R\<rparr>"
  by (simp_all add: weak_view_def fun_eq_iff)

lemma upt_front: "k < n \<Longrightarrow> k \<in> set [k..<n] \<and> remove1 k [k..<n] = [Suc k..<n]"
  by (simp add: upt_conv_Cons)

lemma view_step: "weak_step (weak_view y) z \<Longrightarrow> z = weak_view y' \<Longrightarrow> weak_step\<^sup>*\<^sup>* (weak_view y) (weak_view y')"
  by auto

lemma snap_step_weak: "snap_step y y' \<Longrightarrow> weak_step\<^sup>*\<^sup>* (weak_view y) (weak_view y')"
proof (induction rule: snap_step.induct)
  case (w_fetch y t seq a) then show ?case by (intro view_step [OF x_fetch [of "weak_view y" t seq a]]) (simp_all add: weak_view_upd)
next
  case (w_drop y t seq a) then show ?case by (intro view_step [OF x_drop [of "weak_view y" t seq a]]) (simp_all add: weak_view_upd)
next
  case (w_claim y t seq a) then show ?case by (intro view_step [OF x_claim [of "weak_view y" t seq a]]) (simp_all add: weak_view_upd)
next
  case (w_odd y t seq a) then show ?case by (intro view_step [OF x_odd [of "weak_view y" t seq a "[0..<5]"]]) (simp_all add: weak_view_upd)
next
  case (w_field y t seq a k) then show ?case using upt_front [of k 5] by (intro view_step [OF x_field [of "weak_view y" t seq a "[k..<5]" True k]]) (simp_all add: weak_view_upd)
next
  case (w_even y t seq a) then show ?case by (intro view_step [OF x_even [of "weak_view y" t seq a]]) (simp_all add: weak_view_upd)
next
  case (w_clear y t seq a) then show ?case by (intro view_step [OF x_clear [of "weak_view y" t seq a]]) (simp_all add: weak_view_upd)
next
  case (r_refuse y t seq e) then show ?case by (intro view_step [OF x_refuse [of "weak_view y" t seq e]]) (simp_all add: weak_view_upd)
next
  case (r_start y t seq) then show ?case by (intro view_step [OF x_start [of "weak_view y" t seq]]) (simp_all add: weak_view_upd)
next
  case (r_torn y t seq) then show ?case by (intro view_step [OF x_torn [of "weak_view y" t seq]]) (simp_all add: weak_view_upd)
next
  case (r_enter y t seq) then show ?case by (intro view_step [OF x_enter [of "weak_view y" t seq]]) (simp_all add: weak_view_upd)
next
  case (r_field y t seq out k) then show ?case using upt_front [of k 5] by (intro view_step [OF x_load [of "weak_view y" t seq out "[k..<5]" False k]]) (simp_all add: weak_view_upd)
next
  case (r_reused y t seq out) then show ?case by (intro view_step [OF x_reused [of "weak_view y" t seq out "[]"]]) (simp_all add: weak_view_upd)
next
  case (r_success y t seq out)
  let ?z = "weak_goto (weak_view y) t (XRead seq out [] True)"
  have "weak_step (weak_view y) ?z" using r_success x_check [of "weak_view y" t seq out "[]"] by simp
  moreover have "weak_step ?z (weak_view (return_lookup y t seq (Inr out)))"
    using x_success [of ?z t seq out] by (simp add: weak_view_upd)
  ultimately show ?case by (rule converse_rtranclp_into_rtranclp [OF _ r_into_rtranclp])
qed

text \<open>Every run in source order is a run of the weaker system.\<close>
lemma snap_run_weak: "snap_step\<^sup>*\<^sup>* y y' \<Longrightarrow> weak_step\<^sup>*\<^sup>* (weak_view y) (weak_view y')"
  by (induction rule: rtranclp_induct) (auto dest: snap_step_weak intro: rtranclp_trans)

section \<open>A mixed lookup\<close>

text \<open>A ring of one slot, and a recording and a reading thread.\<close>
definition one_ring :: "u64 \<Rightarrow> SnapSlot \<Rightarrow> AdmissionSnapshotRing" where
  "one_ring c s = \<lparr>snap_slots = [s], snap_count = c, snap_dropped = 0\<rparr>"

definition duo :: "AdmissionSnapshotRing \<Rightarrow> WeakPc \<Rightarrow> WeakPc \<Rightarrow> AdmissionSnapshot list \<Rightarrow>
    (u64 \<times> (SnapshotError + AdmissionSnapshot)) list \<Rightarrow> WeakSystem" where
  "duo r p q C res = \<lparr>weak_ring = r, weak_pc = (\<lambda>t. XIdle)(0 := p, 1 := q), weak_calls = C, weak_results = res\<rparr>"

lemma one_ring_simps [simp]:
  "snap_count (one_ring c s) = c" "snap_slots (one_ring c s) = [s]" "snap_index (one_ring c s) seq = 0"
  "upd_slot (one_ring c s) seq f = one_ring c (f s)" "(one_ring c s)\<lparr>snap_count := c'\<rparr> = one_ring c' s"
  by (simp_all add: one_ring_def snap_index_def upd_slot_def)

lemma duo_simps [simp]:
  "weak_ring (duo r p q C res) = r" "weak_pc (duo r p q C res) 0 = p" "weak_pc (duo r p q C res) (Suc 0) = q"
  "weak_calls (duo r p q C res) = C" "weak_results (duo r p q C res) = res"
  "(duo r p q C res)\<lparr>weak_ring := r'\<rparr> = duo r' p q C res" "(duo r p q C res)\<lparr>weak_calls := C'\<rparr> = duo r p q C' res"
  "(duo r p q C res)\<lparr>weak_results := res'\<rparr> = duo r p q C res'"
  "weak_goto (duo r p q C res) 0 p' = duo r p' q C res" "weak_goto (duo r p q C res) (Suc 0) q' = duo r p q' C res"
  by (simp_all add: duo_def fun_upd_twist)

definition slot_with :: "AdmissionSnapshot \<Rightarrow> u64 \<Rightarrow> SnapSlot" where
  "slot_with a n = \<lparr>sl_target = sn_target a, sl_disposition = sn_disposition a, sl_reason = sn_reason a, sl_seq = n,
     sl_now_ns = sn_now_ns a, sl_budget_ns = sn_budget_ns a, sl_writing = False\<rparr>"

lemma first_record: "snapshot_record a (snap_ring_new 1) = one_ring 1 (slot_with a 2)"
  by (simp add: snapshot_record_def snap_ring_new_def Let_def upd_slot_def snap_index_def one_ring_def slot_with_def
      snap_slot_zero_def store_field_def published_def eval_nat_numeral upt_rec)

lemma first_run: "weak_step\<^sup>*\<^sup>* (weak_start 1) (duo (one_ring 1 (slot_with a 2)) XIdle XIdle [a] [])"
proof -
  have "weak_view (solo r SIdle C []) = duo r XIdle XIdle C []" for r C
    by (simp add: weak_view_def solo_def duo_def fun_eq_iff)
  moreover have "weak_start 1 = duo (snap_ring_new 1) XIdle XIdle [] []" by (simp add: weak_start_def duo_def fun_eq_iff)
  ultimately show ?thesis
    using snap_run_weak [OF solo_record [of "snap_ring_new 1" "[]" "[]" a]] by (simp add: first_record)
qed

text \<open>A writer makes its field stores, and a reader its field loads, while the other waits.\<close>
lemma field_stores:
  "k \<le> 5 \<Longrightarrow> weak_step\<^sup>*\<^sup>* (duo (one_ring c s) (XOwner n b [k..<5] m) q C res)
     (duo (one_ring c (fold (\<lambda>k. store_field k b) [k..<5] s)) (XOwner n b [] m) q C res)"
proof (induction "5 - k" arbitrary: k s)
  case (Suc d)
  then have k: "k < 5" by simp
  have "weak_step (duo (one_ring c s) (XOwner n b [k..<5] m) q C res) (duo (one_ring c (store_field k b s)) (XOwner n b [Suc k..<5] m) q C res)"
    using x_field [of "duo (one_ring c s) (XOwner n b [k..<5] m) q C res" 0 n b "[k..<5]" m k] upt_front [OF k] by simp
  moreover have "fold (\<lambda>k. store_field k b) [k..<5] s = fold (\<lambda>k. store_field k b) [Suc k..<5] (store_field k b s)"
    using k by (simp add: upt_conv_Cons)
  ultimately show ?case using Suc(1) [of "Suc k" "store_field k b s"] Suc(2) k by (simp add: converse_rtranclp_into_rtranclp)
qed simp

lemma field_loads:
  "k \<le> 5 \<Longrightarrow> weak_step\<^sup>*\<^sup>* (duo (one_ring c s) p (XRead n out [k..<5] m) C res)
     (duo (one_ring c s) p (XRead n (fold (\<lambda>k. load_field k s) [k..<5] out) [] m) C res)"
proof (induction "5 - k" arbitrary: k out)
  case (Suc d)
  then have k: "k < 5" by simp
  have "weak_step (duo (one_ring c s) p (XRead n out [k..<5] m) C res) (duo (one_ring c s) p (XRead n (load_field k s out) [Suc k..<5] m) C res)"
    using x_load [of "duo (one_ring c s) p (XRead n out [k..<5] m) C res" "Suc 0" n out "[k..<5]" m k] upt_front [OF k] by simp
  moreover have "fold (\<lambda>k. load_field k s) [k..<5] out = fold (\<lambda>k. load_field k s) [Suc k..<5] (load_field k s out)"
    using k by (simp add: upt_conv_Cons)
  ultimately show ?case using Suc(1) [of "Suc k" "load_field k s out"] Suc(2) k by (simp add: converse_rtranclp_into_rtranclp)
qed simp

lemma mixed_fields:
  "fold (\<lambda>k. load_field k (fold (\<lambda>k. store_field k b) [0..<5] ((slot_with a 2)\<lparr>sl_writing := True\<rparr>))) [1..<5]
     (load_field 0 (slot_with a 2) (snap_out 1)) = b\<lparr>sn_target := sn_target a, sn_seq := 1\<rparr>"
  "sl_seq (fold (\<lambda>k. store_field k b) [0..<5] ((slot_with a 2)\<lparr>sl_writing := True\<rparr>)) = 2"
  by (simp_all add: upt_rec load_field_def store_field_def slot_with_def snap_out_def)

section \<open>Properties\<close>

text \<open>
  C32. The sequence check does not protect a lookup under the memory orders of the code: for any
  two records a and b there is a run on a ring of one slot in which the lookup of the first
  sequence number succeeds and returns the target of a with all other fields of b. The second
  writer's field stores become visible before its odd sequence store.
\<close>
theorem snapshot_lookup_can_mix:
  "\<exists>y. weak_step\<^sup>*\<^sup>* (weak_start 1) y \<and> weak_calls y = [a, b]
     \<and> weak_results y = [(1, Inr (b\<lparr>sn_target := sn_target a, sn_seq := 1\<rparr>))]"
proof -
  let ?s = "slot_with a 2" and ?o = "load_field 0 (slot_with a 2) (snap_out 1)"
  let ?t = "fold (\<lambda>k. store_field k b) [0..<5] (?s\<lparr>sl_writing := True\<rparr>)" and ?w = "XOwner 2 b [] False"
  let ?out = "b\<lparr>sn_target := sn_target a, sn_seq := 1\<rparr>"
  have s: "sl_seq ?s = published 1" "\<not> sl_writing ?s" "published 1 = 2" by (simp_all add: slot_with_def published_def)
  have "weak_step (duo (one_ring 1 ?s) XIdle XIdle [a] []) (duo (one_ring 1 ?s) XIdle (XStart 1) [a] [])"
    using x_start [of "duo (one_ring 1 ?s) XIdle XIdle [a] []" "Suc 0" 1] by (simp add: lookup_range_def)
  moreover have "weak_step (duo (one_ring 1 ?s) XIdle (XStart 1) [a] []) (duo (one_ring 1 ?s) XIdle (XRead 1 (snap_out 1) [0..<5] False) [a] [])"
    using x_enter [of "duo (one_ring 1 ?s) XIdle (XStart 1) [a] []" "Suc 0" 1] s(1) by simp
  moreover have "weak_step (duo (one_ring 1 ?s) XIdle (XRead 1 (snap_out 1) [0..<5] False) [a] []) (duo (one_ring 1 ?s) XIdle (XRead 1 ?o [1..<5] False) [a] [])"
    using x_load [of "duo (one_ring 1 ?s) XIdle (XRead 1 (snap_out 1) [0..<5] False) [a] []" "Suc 0" 1 "snap_out 1" "[0..<5]" False 0]
      upt_front [of 0 5] by simp
  moreover have "weak_step (duo (one_ring 1 ?s) XIdle (XRead 1 ?o [1..<5] False) [a] []) (duo (one_ring 2 ?s) (XFetched 2 b) (XRead 1 ?o [1..<5] False) [a, b] [])"
    using x_fetch [of "duo (one_ring 1 ?s) XIdle (XRead 1 ?o [1..<5] False) [a] []" 0 2 b] by simp
  moreover have "weak_step (duo (one_ring 2 ?s) (XFetched 2 b) (XRead 1 ?o [1..<5] False) [a, b] [])
      (duo (one_ring 2 (?s\<lparr>sl_writing := True\<rparr>)) (XOwner 2 b [0..<5] False) (XRead 1 ?o [1..<5] False) [a, b] [])"
    using x_claim [of "duo (one_ring 2 ?s) (XFetched 2 b) (XRead 1 ?o [1..<5] False) [a, b] []" 0 2 b] s(2) by simp
  moreover have "weak_step\<^sup>*\<^sup>* (duo (one_ring 2 (?s\<lparr>sl_writing := True\<rparr>)) (XOwner 2 b [0..<5] False) (XRead 1 ?o [1..<5] False) [a, b] [])
      (duo (one_ring 2 ?t) ?w (XRead 1 ?o [1..<5] False) [a, b] [])" by (rule field_stores) simp
  moreover have "weak_step\<^sup>*\<^sup>* (duo (one_ring 2 ?t) ?w (XRead 1 ?o [1..<5] False) [a, b] []) (duo (one_ring 2 ?t) ?w (XRead 1 ?out [] False) [a, b] [])"
    using field_loads [of 1 2 ?t ?w 1 ?o False "[a, b]" "[]"] unfolding mixed_fields by simp
  moreover have "weak_step (duo (one_ring 2 ?t) ?w (XRead 1 ?out [] False) [a, b] []) (duo (one_ring 2 ?t) ?w (XRead 1 ?out [] True) [a, b] [])"
    using x_check [of "duo (one_ring 2 ?t) ?w (XRead 1 ?out [] False) [a, b] []" "Suc 0" 1 ?out "[]"] mixed_fields(2) s(3) by simp
  moreover have "weak_step (duo (one_ring 2 ?t) ?w (XRead 1 ?out [] True) [a, b] []) (duo (one_ring 2 ?t) ?w XIdle [a, b] [(1, Inr ?out)])"
    using x_success [of "duo (one_ring 2 ?t) ?w (XRead 1 ?out [] True) [a, b] []" "Suc 0" 1 ?out] by simp
  ultimately have "weak_step\<^sup>*\<^sup>* (duo (one_ring 1 ?s) XIdle XIdle [a] []) (duo (one_ring 2 ?t) ?w XIdle [a, b] [(1, Inr ?out)])"
    by (meson r_into_rtranclp rtranclp_trans)
  from rtranclp_trans [OF first_run this] show ?thesis by (metis duo_simps(4,5))
qed

end
