(* ===== verification/Spec2Isabelle.thy ===== *)
theory Spec2Isabelle
  imports Mpsc_Queue Pool_Properties Hsm_Properties Breaker_Properties Monitor_Properties Admission_Properties
    Ao_Properties Staging_Properties Ingress_Properties Timer_Properties Spsc_Ring Reg_Cache
    Task_Registry_Properties Snapshot_Orders
begin

text \<open>
  A verification library for coact, a C++17 header-first active-object framework.

  \<^bold>\<open>The program.\<close> An application binds active objects (AOs), each a hierarchical state machine
  with a mailbox count and an execution lease, to target numbers of a runtime. Producers
  (tasks, interrupts, the timer) take reference-counted events from fixed pools and submit
  them to the coordinator. The coordinator applies the admission policy, the arrival gate
  and the circuit breaker of the target, dispatches directly when it may, and otherwise
  queues a slot in one of the three partitions of the staging area. The dispatcher thread
  takes slots in batches, acquires the lease, runs the state machine and returns events to
  their pools; on a stop it drains the queues. A monitor counts and records snapshots.

  \<^bold>\<open>Theories and code\<close> (paths below src/include/coact/ unless given in full).

  \<^item> \<^verbatim>\<open>Coact_Prelude\<close>, \<^verbatim>\<open>Coact_Config\<close>: machine words, \<^verbatim>\<open>COACT_ASSERT\<close> (assert.hpp) as the value
    None, the vocabulary and configuration of config.hpp.
  \<^item> \<^verbatim>\<open>Queues\<close>, \<^verbatim>\<open>Mpsc_Queue\<close>: the two backends of queue.hpp. The locale \<^verbatim>\<open>bounded_queue\<close> is the
    contract the staging area relies on; it is interpreted on the ring, on the cell-scanning
    queue and on the tagged queue of the staging area. Every sequence of operations returns
    what a bounded FIFO list returns; for the cell-scanning queue this holds of capacities
    that divide 2^32, and a capacity of three refuses a push beside a free cell.
  \<^item> \<^verbatim>\<open>Spsc_Ring\<close>: spsc_ring.hpp, as functions and as interleaved atomic steps; linearisability.
  \<^item> \<^verbatim>\<open>Event_Pool\<close>, \<^verbatim>\<open>Pool_Invariant\<close>, \<^verbatim>\<open>Pool_Refinement\<close>, \<^verbatim>\<open>Reclaim_Batcher\<close>,
    \<^verbatim>\<open>Pool_Properties\<close>: event.hpp and pool.hpp. Memory is an explicit store of 32-bit words; the
    free lists and the live headers are read off it. A pool world refines a partial map from
    addresses to live event headers: allocation inserts, the last release deletes. The
    locale \<^verbatim>\<open>reclaimer\<close> is the contract of a reclaim strategy, interpreted on the immediate and
    the batched one and on the strategy a board profile selects.
  \<^item> \<^verbatim>\<open>Hsm\<close>, \<^verbatim>\<open>Hsm_Properties\<close>: hsm.hpp. Table validation accepts exactly the forests; the
    least common ancestor, initialisation and dispatch are correct on validated tables, and
    the kind of a transition fixes the states it exits and enters.
  \<^item> \<^verbatim>\<open>Cas_Loop\<close>: the compare-and-exchange retry loop shared by the counters of ao.hpp,
    monitor.hpp and staging.hpp, interleaved over any number of threads; a successful run is a
    sequence of atomic decisions.
  \<^item> \<^verbatim>\<open>Active_Object\<close>, \<^verbatim>\<open>Ao_Properties\<close>: ao.hpp. Lease, pending counter, AO and registry.
  \<^item> \<^verbatim>\<open>Breaker\<close>, \<^verbatim>\<open>Breaker_Properties\<close>, \<^verbatim>\<open>Monitor\<close>, \<^verbatim>\<open>Monitor_Properties\<close>,
    \<^verbatim>\<open>Snapshot_Orders\<close>: monitor.hpp. The breaker's packed word and its transitions; the
    counters; the snapshot ring and its field-by-field readers and writers, which are correct
    when the accesses keep their source order and not under the orders the code asks for.
  \<^item> \<^verbatim>\<open>Admission\<close>, \<^verbatim>\<open>Admission_Properties\<close>: policy.hpp and admission.hpp. Token bucket, merge
    cell, rule table, arrival gates.
  \<^item> \<^verbatim>\<open>Staging\<close>, \<^verbatim>\<open>Staging_Properties\<close>: staging.hpp. Reservations, batch selection with aging.
  \<^item> \<^verbatim>\<open>Coordinator\<close>, \<^verbatim>\<open>Submit_Properties\<close>: coordinator.hpp, one definition per stage of
    \<^verbatim>\<open>submit_internal\<close>; every exit of the pipeline accounts for the event it was handed.
  \<^item> \<^verbatim>\<open>Dispatcher\<close>, \<^verbatim>\<open>Dispatcher_Properties\<close>: dispatcher.hpp, from the slot to the main loop and
    the shutdown drain.
  \<^item> \<^verbatim>\<open>Runtime\<close>, \<^verbatim>\<open>Runtime_Properties\<close>: runtime.hpp and static_ao.hpp; the properties of the
    composed system.
  \<^item> \<^verbatim>\<open>Ingress\<close>, \<^verbatim>\<open>Ingress_Properties\<close>: the atomic accesses of producers, dispatcher and stop to
    the submission word, the wake latch (staging.hpp) and the wake flag of the platform
    layer (src/src/core/pal_posix.cpp), as one step relation per kind of thread.
  \<^item> \<^verbatim>\<open>Posting\<close>: allocating and submitting an event keeps the central invariant, for the two
    components that do both.
  \<^item> \<^verbatim>\<open>Timer\<close>, \<^verbatim>\<open>Timer_Properties\<close>: timer.hpp, composed with the pool and the coordinator.
    A poll leaks nothing; a one-shot task whose firing is skipped is lost.
  \<^item> \<^verbatim>\<open>Task_Registry\<close>, \<^verbatim>\<open>Task_Registry_Properties\<close>: coro/task_registry.hpp, coro/task.hpp,
    coro/task_id.hpp and coro/detail/task_slot.hpp, composed in the same way, with the
    registry's mutex; a slot is lost after 255 releases, and a completion never returns when
    the waiter is dispatched directly and calls the registry.
  \<^item> \<^verbatim>\<open>Reg_Cache\<close>: bitfield.hpp and reg_cache.hpp; shadow and hardware converge as long as
    the bypass flag is set by guards, and a bypass guard drops writes that are still pending.

  \<^bold>\<open>The central invariant\<close> is \<^verbatim>\<open>sys_inv\<close> together with \<^verbatim>\<open>accounts\<close> (\<^verbatim>\<open>Submit_Properties\<close>,
  \<^verbatim>\<open>Dispatcher_Properties\<close>): the staging invariant holds, each AO's pending counter is the
  number of slots queued or in hand for it, and releasing every reference that the queues,
  the reclaimer and the producers still hold leads to one fixed map of live events. Each
  operation of the system keeps it, so no event is lost or released twice.

  \<^bold>\<open>Conventions.\<close> Integers keep their width, also where they wrap. A template argument is a
  tagged value or a record that the operations take. An aborting assertion or a read outside
  a table is None; an \<^verbatim>\<open>Expected\<close> is a sum. A critical section or a mutex region is one step,
  but for the task registry, whose mutex is held while other code runs. Lock-free code is an
  inductive step relation under sequential consistency with one rule per atomic access of the
  protocol; where a rule stands for several accesses its theory says so. Callbacks, policies
  and clock readings are functions or arguments.

  \<^bold>\<open>Loops.\<close> A loop over a table is structural recursion. Parent chains of the state machine and
  queue scans carry the source's own bound (128 states, the capacity). Loops with no bound in
  the source (the drain and main loops of the dispatcher, the timer's catch-up) are partial
  functions with None for a run that does not end, and their properties state that they
  return. Retry loops are steps that may be repeated; alone, they end after one exchange.
  The ticket counters of the queues need fewer than 2^64 pushes (\<^verbatim>\<open>fresh\<close>), as the source
  assumes; the ring needs no such bound.

  \<^bold>\<open>Assumptions.\<close>
  \<^item> Handlers (guards, actions, entry and exit functions) are functions of their own AO's context
    and the event. A handler that submits an event, as examples/isp_pipeline/output_itf.hpp
    does, or calls the timer or the task registry from inside its dispatch is outside the
    theorems on submission, dispatch and shutdown. The one exception is the waiter of a task
    completion, whose calls of the registry are an argument of the completion.
  \<^item> queue.hpp accepts every non-zero capacity; the invariants \<^verbatim>\<open>mpsc_inv\<close> and \<^verbatim>\<open>staging_inv\<close>
    ask of the multi-producer queue that its capacity divides 2^32.
  \<^item> Addresses are natural numbers that do not wrap, and memory holds one 32-bit word per
    address: an event header is the word at its block's address. Headers that overlap only
    partly cannot be expressed; the pool's layout keeps blocks apart.
  \<^item> \<^verbatim>\<open>size_t\<close> has 64 bits (the index of a snapshot slot is taken from a 64-bit sequence number).
  \<^item> The pipeline uses a \<^verbatim>\<open>BreakerBank\<close>, as runtime.hpp does; the overloads for a single breaker
    (monitor.hpp, lines 575-588) are defined but not composed with it.

  \<^bold>\<open>Not modelled.\<close>
  \<^item> Weak memory, but for the snapshot ring: elsewhere the acquire and release orders of the
    atomics are read as sequential consistency, for want of a memory model of C++ in the
    library.
  \<^item> The platform layers (src/src/core/pal_*.cpp, pal*.hpp) but for the wake flag: calls of
    pthread, FreeRTOS, RT-Thread and Windows with no logic of their own.
  \<^item> span.hpp and expected.hpp: vocabulary templates; an \<^verbatim>\<open>Expected\<close> is a sum wherever an
    operation returns one.
  \<^item> diag/: an optional sibling component, which the core does not call. Of coro/, the task
    groups of combinators.hpp, the forwarding facade of scheduler.hpp, the payload cast of
    awaitable.hpp, and posix.hpp, which is blocking operating-system I/O.
  \<^item> examples/, the tests, benchmarks and tools: clients of the framework.
  \<^item> Layout assertions, type traits and other conditions that the compiler decides.
\<close>

end
